(* ===== verification/Prelude.thy ===== *)
theory Prelude
  imports Main "HOL-Library.Word" "HOL-Library.AList" "HOL-Library.List_Lexorder"
    "HOL-Library.Char_ord" "HOL-Library.Option_ord" "HOL-Library.Sublist"
    "HOL-Library.Code_Target_Numeral"
begin

text \<open>
  Shared vocabulary of the development: machine integers, byte strings, Rust's \<open>Result\<close> and
  panics as a sum type, fallible state-passing computations with Rust's \<open>?\<close> as their bind, and
  third-party serialisation codecs as a record of two functions with their round-trip law.
  The collection \<open>comp_iff\<close> inverts a successful computation step by step; most component proofs
  are \<open>auto\<close> over it.
\<close>

named_theorems comp_iff "inversion rules for successful computations"

section \<open>Machine integers and byte strings\<close>

type_synonym u8 = "8 word"
type_synonym u16 = "16 word"
type_synonym u32 = "32 word"
type_synonym u64 = "64 word"
type_synonym u128 = "128 word"
type_synonym bytes = "u8 list"

text \<open>\<open>u64::saturating_sub\<close> and its siblings.\<close>

definition saturating_sub :: "'a::len word \<Rightarrow> 'a word \<Rightarrow> 'a word" where
  "saturating_sub a b = (if b \<le> a then a - b else 0)"

lemma unat_saturating_sub: "unat (saturating_sub a b) = unat a - unat b"
  by (auto simp: saturating_sub_def unat_sub word_le_nat_alt not_le)

section \<open>Results, panics and the question mark\<close>

text \<open>
  A Rust function that returns \<open>Result\<close> either returns \<open>Ok\<close> (\<open>Inr\<close>), returns \<open>Err\<close>
  (\<open>Inl (Err e)\<close>) or panics (\<open>Inl (Panic msg)\<close>).
\<close>

datatype 'e fault = Err 'e | Panic string

definition bindE :: "'e + 'a \<Rightarrow> ('a \<Rightarrow> 'e + 'b) \<Rightarrow> 'e + 'b" where
  "bindE m f = (case m of Inl e \<Rightarrow> Inl e | Inr a \<Rightarrow> f a)"

definition map_err :: "('e \<Rightarrow> 'f) \<Rightarrow> 'e + 'a \<Rightarrow> 'f + 'a" where
  "map_err g m = (case m of Inl e \<Rightarrow> Inl (g e) | Inr a \<Rightarrow> Inr a)"

lemma bindE_simps [simp]:
  "bindE (Inl e) f = Inl e"
  "bindE (Inr a) f = f a"
  by (simp_all add: bindE_def)

lemma map_err_simps [simp]:
  "map_err g (Inl e) = Inl (g e)"
  "map_err g (Inr a) = Inr a"
  by (simp_all add: map_err_def)

lemma bindE_eq_Inr [comp_iff]: "bindE m f = Inr b \<longleftrightarrow> (\<exists>a. m = Inr a \<and> f a = Inr b)"
  by (cases m) auto

lemma map_err_eq_Inr [comp_iff]: "map_err g m = Inr b \<longleftrightarrow> m = Inr b"
  by (cases m) auto

lemma map_err_eq_Inl: "map_err g m = Inl e \<longleftrightarrow> (\<exists>e'. m = Inl e' \<and> e = g e')"
  by (cases m) auto

lemma bindE_cong [fundef_cong]:
  "m = m' \<Longrightarrow> (\<And>a. m' = Inr a \<Longrightarrow> f a = g a) \<Longrightarrow> bindE m f = bindE m' g"
  by (cases m') auto

text \<open>\<open>iter().map(f).collect::<Result<Vec<_>, _>>()\<close>: the first error wins.\<close>

fun collectE :: "('a \<Rightarrow> 'e + 'b) \<Rightarrow> 'a list \<Rightarrow> 'e + 'b list" where
  "collectE f [] = Inr []"
| "collectE f (x # xs) = bindE (f x) (\<lambda>y. bindE (collectE f xs) (\<lambda>ys. Inr (y # ys)))"

lemma collectE_eq_Inr:
  "collectE f xs = Inr ys \<longleftrightarrow> list_all2 (\<lambda>x y. f x = Inr y) xs ys"
  by (induction xs arbitrary: ys) (auto simp: comp_iff list_all2_Cons1)

section \<open>Computations over a state\<close>

text \<open>
  An effectful method is a function of the state it may change. The state is returned on the
  error paths too, since what was committed before the error stays committed.
\<close>

type_synonym ('s, 'e, 'a) comp = "'s \<Rightarrow> ('e + 'a) \<times> 's"

definition returnS :: "'a \<Rightarrow> ('s, 'e, 'a) comp" where
  "returnS a = (\<lambda>s. (Inr a, s))"

definition failS :: "'e \<Rightarrow> ('s, 'e, 'a) comp" where
  "failS e = (\<lambda>s. (Inl e, s))"

definition bindS :: "('s, 'e, 'a) comp \<Rightarrow> ('a \<Rightarrow> ('s, 'e, 'b) comp) \<Rightarrow> ('s, 'e, 'b) comp" where
  "bindS m f = (\<lambda>s. case m s of (Inl e, s') \<Rightarrow> (Inl e, s') | (Inr a, s') \<Rightarrow> f a s')"

text \<open>A read of the state, and a value that may be an error.\<close>

definition readS :: "('s \<Rightarrow> 'e + 'a) \<Rightarrow> ('s, 'e, 'a) comp" where
  "readS g = (\<lambda>s. (g s, s))"

definition liftE :: "'e + 'a \<Rightarrow> ('s, 'e, 'a) comp" where
  "liftE m = (\<lambda>s. (m, s))"

text \<open>
  \<open>within m t k\<close> runs \<open>m\<close> on the open transaction \<open>t\<close> and continues with its result and the
  transaction it leaves. An error returned by \<open>m\<close> leaves the caller through \<open>?\<close>; the transaction
  is dropped, which aborts it.
\<close>

definition within :: "('t, 'e, 'a) comp \<Rightarrow> 't \<Rightarrow> ('a \<Rightarrow> 't \<Rightarrow> ('s, 'e, 'b) comp) \<Rightarrow> ('s, 'e, 'b) comp" where
  "within m t k = (case m t of (Inl e, _) \<Rightarrow> failS e | (Inr a, t') \<Rightarrow> k a t')"

lemma comp_simps [simp]:
  "returnS a s = (Inr a, s)"
  "failS e s = (Inl e, s)"
  "readS g s = (g s, s)"
  "liftE m s = (m, s)"
  by (simp_all add: returnS_def failS_def readS_def liftE_def)

lemma bindS_eq_Inr [comp_iff]:
  "bindS m f s = (Inr b, s') \<longleftrightarrow> (\<exists>a s1. m s = (Inr a, s1) \<and> f a s1 = (Inr b, s'))"
  by (cases "m s") (auto simp: bindS_def split: sum.splits)

lemma bindS_eq_Inl:
  "bindS m f s = (Inl e, s') \<longleftrightarrow>
     m s = (Inl e, s') \<or> (\<exists>a s1. m s = (Inr a, s1) \<and> f a s1 = (Inl e, s'))"
  by (cases "m s") (auto simp: bindS_def split: sum.splits)

lemma bindS_run:
  "m s = (Inr a, s1) \<Longrightarrow> bindS m f s = f a s1"
  "m s = (Inl e, s1) \<Longrightarrow> bindS m f s = (Inl e, s1)"
  by (simp_all add: bindS_def)

lemma bindS_assoc: "bindS (bindS m f) g = bindS m (\<lambda>a. bindS (f a) g)"
  by (auto simp: bindS_def fun_eq_iff split: prod.splits sum.splits)

lemma bindS_cases:
  assumes "bindS m f s = (r, s')"
  obtains e where "m s = (Inl e, s')" "r = Inl e" | a s1 where "m s = (Inr a, s1)" "f a s1 = (r, s')"
  using assms by (cases "m s"; cases "fst (m s)") (auto simp: bindS_def)

lemma within_eq_Inr [comp_iff]:
  "within m t k s = (Inr b, s') \<longleftrightarrow> (\<exists>a t'. m t = (Inr a, t') \<and> k a t' s = (Inr b, s'))"
  by (cases "m t") (auto simp: within_def split: sum.splits)

lemma within_eq_Inl:
  "within m t k s = (Inl e, s') \<longleftrightarrow>
     (\<exists>t'. m t = (Inl e, t')) \<and> s' = s \<or> (\<exists>a t'. m t = (Inr a, t') \<and> k a t' s = (Inl e, s'))"
  by (cases "m t") (auto simp: within_def split: sum.splits)

lemma within_run:
  "m t = (Inr a, t') \<Longrightarrow> within m t k s = k a t' s"
  "m t = (Inl e, t') \<Longrightarrow> within m t k s = (Inl e, s)"
  by (simp_all add: within_def)

text \<open>
  A predicate of the state that every outcome of a computation keeps. It composes along \<open>bindS\<close>
  and \<open>within\<close>, which lifts one-step facts about the storage operations to whole handlers.
\<close>

definition keeps :: "('s \<Rightarrow> bool) \<Rightarrow> ('s, 'e, 'a) comp \<Rightarrow> bool" where
  "keeps P m \<longleftrightarrow> (\<forall>s r s'. P s \<longrightarrow> m s = (r, s') \<longrightarrow> P s')"

lemma keepsI: "(\<And>s r s'. P s \<Longrightarrow> m s = (r, s') \<Longrightarrow> P s') \<Longrightarrow> keeps P m"
  by (auto simp: keeps_def)

lemma keepsD: "keeps P m \<Longrightarrow> P s \<Longrightarrow> m s = (r, s') \<Longrightarrow> P s'"
  by (auto simp: keeps_def)

lemma keeps_return [intro]: "keeps P (returnS a)"
  by (auto simp: keeps_def)

lemma keeps_fail [intro]: "keeps P (failS e)"
  by (auto simp: keeps_def)

lemma keeps_read [intro]: "keeps P (readS g)"
  by (auto simp: keeps_def)

lemma keeps_lift [intro]: "keeps P (liftE m)"
  by (auto simp: keeps_def)

lemma keeps_bind [intro]: "keeps P m \<Longrightarrow> (\<And>a. keeps P (f a)) \<Longrightarrow> keeps P (bindS m f)"
  unfolding keeps_def
proof (intro allI impI)
  fix s r s'
  assume m: "\<forall>s r s'. P s \<longrightarrow> m s = (r, s') \<longrightarrow> P s'"
    and f: "\<And>a. \<forall>s r s'. P s \<longrightarrow> f a s = (r, s') \<longrightarrow> P s'"
    and "P s" and run: "bindS m f s = (r, s')"
  obtain r1 s1 where m1: "m s = (r1, s1)" by (cases "m s")
  with m \<open>P s\<close> have "P s1" by blast
  with m1 run f show "P s'" by (cases r1) (auto simp: bindS_def)
qed

lemma keeps_within:
  "(\<And>a t'. m t = (Inr a, t') \<Longrightarrow> keeps P (k a t')) \<Longrightarrow> keeps P (within m t k)"
  by (cases "m t") (auto simp: within_def split: sum.splits)

text \<open>A loop over a list whose body may fail: \<open>for x in xs { f(x)?; }\<close>.\<close>

fun for_each :: "('x \<Rightarrow> ('s, 'e, unit) comp) \<Rightarrow> 'x list \<Rightarrow> ('s, 'e, unit) comp" where
  "for_each f [] = returnS ()"
| "for_each f (x # xs) = bindS (f x) (\<lambda>_. for_each f xs)"

lemma keeps_for_each: "(\<And>x. x \<in> set xs \<Longrightarrow> keeps P (f x)) \<Longrightarrow> keeps P (for_each f xs)"
  by (induction xs) auto

section \<open>Two states side by side\<close>

text \<open>A handler works on the store and on the event sink.\<close>

definition on_store :: "('s, 'e, 'a) comp \<Rightarrow> ('s \<times> 'm, 'e, 'a) comp" where
  "on_store f = (\<lambda>(s, m). case f s of (r, s') \<Rightarrow> (r, (s', m)))"

definition on_sink :: "('m, 'e, 'a) comp \<Rightarrow> ('s \<times> 'm, 'e, 'a) comp" where
  "on_sink f = (\<lambda>(s, m). case f m of (r, m') \<Rightarrow> (r, (s, m')))"

lemma on_store_eq: "on_store f (s, m) = (r, (s', m')) \<longleftrightarrow> f s = (r, s') \<and> m' = m"
  by (auto simp: on_store_def split: prod.splits)

lemma on_sink_eq: "on_sink f (s, m) = (r, (s', m')) \<longleftrightarrow> f m = (r, m') \<and> s' = s"
  by (auto simp: on_sink_def split: prod.splits)

lemma keeps_on_store: "keeps P f \<Longrightarrow> keeps (\<lambda>(s, m). P s) (on_store f)"
  by (auto simp: keeps_def on_store_eq)

lemma keeps_on_sink: "keeps (\<lambda>(s, m). P s) (on_sink f)"
  by (auto simp: keeps_def on_sink_eq)

section \<open>Serialisation codecs\<close>

text \<open>
  postcard and serde\_json are third-party: a codec is a parameter of every definition that uses it.
  What the code relies on is that decoding the bytes of a successful encoding gives the value back.
\<close>

record 'a codec =
  encode :: "'a \<Rightarrow> string + bytes"
  decode :: "bytes \<Rightarrow> string + 'a"

definition codec_ok :: "'a codec \<Rightarrow> bool" where
  "codec_ok C \<longleftrightarrow> (\<forall>x b. encode C x = Inr b \<longrightarrow> decode C b = Inr x)"

lemma codec_okD: "codec_ok C \<Longrightarrow> encode C x = Inr b \<Longrightarrow> decode C b = Inr x"
  by (auto simp: codec_ok_def)

lemma codec_inj: "codec_ok C \<Longrightarrow> encode C x = Inr b \<Longrightarrow> encode C y = Inr b \<Longrightarrow> x = y"
  by (metis codec_okD sum.inject(2))

text \<open>
  A concrete codec, on which the round-trip law holds: the values of a list, each encoded as its
  position. The witnesses of the development run on it.
\<close>

fun index_of :: "'a \<Rightarrow> 'a list \<Rightarrow> nat option" where
  "index_of x [] = None"
| "index_of x (y # ys) = (if x = y then Some 0 else map_option Suc (index_of x ys))"

definition table_codec :: "'a list \<Rightarrow> 'a codec" where
  "table_codec xs =
     \<lparr>encode = (\<lambda>x. case index_of x (take 256 xs) of None \<Rightarrow> Inl ''unknown'' | Some i \<Rightarrow> Inr [of_nat i]),
      decode = (\<lambda>b. case b of [n] \<Rightarrow> if unat n < length xs then Inr (xs ! unat n) else Inl ''unknown'' | _ \<Rightarrow> Inl ''length'')\<rparr>"

lemma index_of_Some: "index_of x xs = Some i \<Longrightarrow> i < length xs \<and> xs ! i = x"
  by (induction xs arbitrary: i) (auto split: if_splits)

lemma table_codec_ok [simp]: "codec_ok (table_codec xs)"
  by (auto simp: codec_ok_def table_codec_def unat_of_nat dest!: index_of_Some split: option.splits)

section \<open>Text\<close>

definition str_contains :: "string \<Rightarrow> string \<Rightarrow> bool" where
  "str_contains needle s = list_ex (prefix needle) (suffixes s)"

lemma str_contains_iff: "str_contains needle s \<longleftrightarrow> sublist needle s"
  by (auto simp: str_contains_def list_ex_iff Bex_def in_set_suffixes sublist_altdef')

text \<open>\<open>to_ascii_lowercase\<close>: only the letters \<open>A\<close> to \<open>Z\<close> change.\<close>

definition ascii_lower :: "char \<Rightarrow> char" where
  "ascii_lower c = (let n = of_char c :: nat in if 65 \<le> n \<and> n \<le> 90 then char_of (n + 32) else c)"

definition to_ascii_lowercase :: "string \<Rightarrow> string" where
  "to_ascii_lowercase = map ascii_lower"

definition eq_ignore_ascii_case :: "string \<Rightarrow> string \<Rightarrow> bool" where
  "eq_ignore_ascii_case s t \<longleftrightarrow> to_ascii_lowercase s = to_ascii_lowercase t"

text \<open>Decimal numerals in messages.\<close>

fun decimal :: "nat \<Rightarrow> string" where
  "decimal n = (if n < 10 then [char_of (48 + n)] else decimal (n div 10) @ [char_of (48 + n mod 10)])"

declare decimal.simps [simp del]

end
