(* ===== verification/Core_Types.thy ===== *)
theory Core_Types
  imports Prelude
begin

text \<open>
  The vocabulary of \<open>rollout-core\<close>: the error taxonomy (\<open>errors.rs\<close>), the identifiers with the
  textual form of \<open>ContentId\<close> (\<open>ids.rs\<close>), storage keys, ranges and events with the Postgres key
  check (\<open>traits/storage.rs\<close>), the lease record (\<open>traits/lease.rs\<close>) and the worker and event
  types (\<open>traits/worker.rs\<close>, \<open>traits/observability.rs\<close>).
  Durations are whole nanoseconds, wall-clock times are nanoseconds relative to the Unix epoch.
\<close>

section \<open>Time\<close>

type_synonym duration = nat
type_synonym systime = int

text \<open>\<open>std::time::Duration\<close>: 64-bit seconds and nanoseconds below one second.\<close>

definition duration_max :: duration where
  "duration_max = (2 ^ 64 - 1) * 1000000000 + 999999999"

definition from_millis :: "nat \<Rightarrow> duration" where
  "from_millis n = n * 1000000"

definition from_secs :: "nat \<Rightarrow> duration" where
  "from_secs n = n * 1000000000"

text \<open>\<open>Duration::as_millis\<close> returns a \<open>u128\<close>; every duration fits.\<close>

definition as_millis :: "duration \<Rightarrow> u128" where
  "as_millis d = of_nat (d div 1000000)"

text \<open>\<open>Duration * u32\<close> panics when the product is not a \<open>Duration\<close>.\<close>

definition duration_mul :: "duration \<Rightarrow> nat \<Rightarrow> 'e fault + duration" where
  "duration_mul d n = (if d * n \<le> duration_max then Inr (d * n)
     else Inl (Panic ''overflow when multiplying duration by scalar''))"

section \<open>Errors\<close>

datatype retry_hint = Never | After duration | Backoff duration duration

datatype recoverable_error =
    Throttled retry_hint
  | Transient string retry_hint
  | Preempted retry_hint

datatype fatal_error =
    ConfigInvalid string
  | SchemaViolation string
  | PluginContract string string
  | Internal string

datatype core_error = Recoverable recoverable_error | Fatal fatal_error

type_synonym 'a res = "core_error fault + 'a"
type_synonym ('s, 'a) io = "('s, core_error fault, 'a) comp"

abbreviation internal :: "string \<Rightarrow> core_error fault" where
  "internal msg \<equiv> Err (Fatal (Internal msg))"

abbreviation config_invalid :: "string \<Rightarrow> core_error fault" where
  "config_invalid msg \<equiv> Err (Fatal (ConfigInvalid msg))"

abbreviation plugin_contract :: "string \<Rightarrow> string \<Rightarrow> core_error fault" where
  "plugin_contract plugin msg \<equiv> Err (Fatal (PluginContract plugin msg))"

abbreviation transient :: "string \<Rightarrow> retry_hint \<Rightarrow> core_error fault" where
  "transient msg hint \<equiv> Err (Recoverable (Transient msg hint))"

section \<open>Identifiers\<close>

text \<open>A ULID is a 128-bit number; its textual form is the \<open>ulid\<close> crate's.\<close>

type_synonym ulid = u128

datatype run_id = RunId (run_ulid: ulid)
datatype worker_id = WorkerId (worker_ulid: ulid)
datatype content_id = ContentId (digest: bytes)
datatype queue_item_id = QueueItemId (queue_ulid: ulid)

text \<open>\<open>[u8; 32]\<close>: the array type fixes the length.\<close>

definition content_id_wf :: "content_id \<Rightarrow> bool" where
  "content_id_wf c \<longleftrightarrow> length (digest c) = 32"

text \<open>
  The crates the identifiers rest on, as parameters: \<open>ulid\<close> (text form and parsing) and \<open>blake3\<close>.
\<close>

record ulid_crate =
  ulid_to_string :: "ulid \<Rightarrow> string"
  ulid_parse :: "string \<Rightarrow> string + ulid"

text \<open>Documented: the text form parses back, and text order is numeric order.\<close>

definition ulid_ok :: "ulid_crate \<Rightarrow> bool" where
  "ulid_ok U \<longleftrightarrow> (\<forall>u. ulid_parse U (ulid_to_string U u) = Inr u)"

definition ulid_text_ordered :: "ulid_crate \<Rightarrow> bool" where
  "ulid_text_ordered U \<longleftrightarrow> (\<forall>u v. ulid_to_string U u \<le> ulid_to_string U v \<longleftrightarrow> u \<le> v)"

lemma ulid_to_string_inj: "ulid_ok U \<Longrightarrow> ulid_to_string U u = ulid_to_string U v \<longleftrightarrow> u = v"
  by (metis ulid_ok_def sum.inject(2))

type_synonym blake3 = "bytes \<Rightarrow> bytes"

text \<open>\<open>ContentId::of\<close>.\<close>

definition content_id_of :: "blake3 \<Rightarrow> bytes \<Rightarrow> content_id" where
  "content_id_of H data = ContentId (H data)"

definition hex_digit :: "nat \<Rightarrow> char" where
  "hex_digit n = ''0123456789abcdef'' ! n"

text \<open>\<open>{b:02x}\<close>: two lower-case hexadecimal digits.\<close>

definition hex_byte :: "u8 \<Rightarrow> string" where
  "hex_byte b = [hex_digit (unat b div 16), hex_digit (unat b mod 16)]"

definition content_id_to_string :: "content_id \<Rightarrow> string" where
  "content_id_to_string c = concat (map hex_byte (digest c))"

text \<open>
  Slicing a \<open>str\<close> panics unless both ends are character boundaries of its UTF-8 bytes: the end of
  the string, or a byte that is not a continuation byte \<open>10xxxxxx\<close>.
\<close>

definition is_char_boundary :: "string \<Rightarrow> nat \<Rightarrow> bool" where
  "is_char_boundary s i \<longleftrightarrow>
     i = 0 \<or> i = length s \<or> (i < length s \<and> \<not> (128 \<le> (of_char (s ! i) :: nat) \<and> of_char (s ! i) < (192::nat)))"

definition str_slice :: "string \<Rightarrow> nat \<Rightarrow> nat \<Rightarrow> 'e fault + string" where
  "str_slice s i j =
     (if i \<le> j \<and> is_char_boundary s i \<and> is_char_boundary s j then Inr (take (j - i) (drop i s))
      else Inl (Panic ''byte index is not a char boundary''))"

text \<open>\<open>char::to_digit(16)\<close>, on the bytes of the string.\<close>

definition to_digit16 :: "char \<Rightarrow> nat option" where
  "to_digit16 c =
     (let n = of_char c :: nat
      in if 48 \<le> n \<and> n \<le> 57 then Some (n - 48)
         else if 97 \<le> n \<and> n \<le> 102 then Some (n - 87)
         else if 65 \<le> n \<and> n \<le> 70 then Some (n - 55)
         else None)"

text \<open>
  \<open>u8::from_str_radix(s, 16)\<close> of the standard library: one leading \<open>+\<close> is accepted when digits
  follow it; \<open>-\<close> is not a digit of an unsigned type.
\<close>

fun digits16 :: "nat \<Rightarrow> string \<Rightarrow> string + nat" where
  "digits16 acc [] = Inr acc"
| "digits16 acc (c # cs) =
     (case to_digit16 c of
        None \<Rightarrow> Inl ''invalid digit found in string''
      | Some d \<Rightarrow> if acc * 16 + d \<le> 255 then digits16 (acc * 16 + d) cs
                  else Inl ''number too large to fit in target type'')"

definition u8_from_str_radix16 :: "string \<Rightarrow> string + u8" where
  "u8_from_str_radix16 s =
     (if s = [] then Inl ''cannot parse integer from empty string''
      else if s = ''+'' \<or> s = ''-'' then Inl ''invalid digit found in string''
      else map_sum id of_nat (digits16 0 (if hd s = CHR ''+'' then tl s else s)))"

text \<open>The loop of \<open>ContentId::from_str\<close>, one iteration per byte index.\<close>

fun content_id_bytes :: "string \<Rightarrow> nat list \<Rightarrow> string fault + bytes" where
  "content_id_bytes s [] = Inr []"
| "content_id_bytes s (i # is) =
     bindE (str_slice s (i * 2) (i * 2 + 2)) (\<lambda>h.
     bindE (map_err Err (u8_from_str_radix16 h)) (\<lambda>b.
     bindE (content_id_bytes s is) (\<lambda>bs. Inr (b # bs))))"

definition content_id_from_str :: "string \<Rightarrow> string fault + content_id" where
  "content_id_from_str s =
     (if length s \<noteq> 64 then Inl (Err (''ContentId: expected 64 hex chars, got '' @ decimal (length s)))
      else bindE (content_id_bytes s [0..<32]) (\<lambda>out. Inr (ContentId out)))"

section \<open>Storage keys, ranges and events\<close>

record storage_key =
  namespace :: string
  key_run :: "run_id option"
  path :: "string list"

record key_range =
  range_prefix :: storage_key
  range_limit :: "nat option"

datatype storage_event = PutEvent (event_key: storage_key) | DeleteEvent (event_key: storage_key)

text \<open>\<open>StorageKey::validate_for_postgres\<close>: every byte of every path component is printable ASCII.\<close>

fun validate_component :: "nat \<Rightarrow> string \<Rightarrow> unit res" where
  "validate_component idx [] = Inr ()"
| "validate_component idx (b # bs) =
     (if 32 \<le> (of_char b :: nat) \<and> of_char b \<le> (126::nat) then validate_component idx bs
      else Inl (config_invalid (''StorageKey path['' @ decimal idx @ ''] contains byte 0x''
        @ hex_byte (of_char b) @ '' outside printable ASCII (0x20-0x7E); hex-encode binary IDs for the''
        @ '' Postgres backend (see rollout-core::traits::storage StorageKey rustdoc)'')))"

fun validate_components :: "nat \<Rightarrow> string list \<Rightarrow> unit res" where
  "validate_components idx [] = Inr ()"
| "validate_components idx (c # cs) =
     bindE (validate_component idx c) (\<lambda>_. validate_components (Suc idx) cs)"

definition validate_for_postgres :: "storage_key \<Rightarrow> unit res" where
  "validate_for_postgres k = validate_components 0 (path k)"

section \<open>The lease record\<close>

datatype coord_epoch = CoordEpoch (epoch_num: u64)

text \<open>\<open>derive(PartialOrd, Ord)\<close> on a one-field tuple struct is the order of the field.\<close>

instantiation coord_epoch :: linorder
begin

definition less_eq_coord_epoch :: "coord_epoch \<Rightarrow> coord_epoch \<Rightarrow> bool" where
  "less_eq_coord_epoch a b \<longleftrightarrow> epoch_num a \<le> epoch_num b"

definition less_coord_epoch :: "coord_epoch \<Rightarrow> coord_epoch \<Rightarrow> bool" where
  "less_coord_epoch a b \<longleftrightarrow> epoch_num a < epoch_num b"

instance
  by standard (auto simp: less_eq_coord_epoch_def less_coord_epoch_def coord_epoch.expand)

end

lemmas coord_epoch_order = less_eq_coord_epoch_def less_coord_epoch_def

record lease_record =
  holder :: worker_id
  epoch :: coord_epoch
  expires_at_ms :: u128

section \<open>Workers and events\<close>

datatype worker_state = Init | Ready | WRunning | Draining

record heartbeat_msg =
  hb_worker :: worker_id
  hb_run :: run_id
  hb_state :: worker_state
  hb_due_at :: systime

datatype level = LTrace | LDebug | LInfo | LWarn | LError

datatype json = JNull | JBool bool | JInt int | JStr string | JArr "json list" | JObj "(string \<times> json) list"

datatype span_phase = SpanStart | SpanEnd

text \<open>Metric samples carry an \<open>f64\<close>; no event of the modelled code is a metric, so the value stays abstract text.\<close>

datatype event_kind =
    EvLog
  | EvMetric string string string
  | EvSpan span_phase
  | EvDomain (topic: string)

record event =
  ev_ts :: systime
  ev_kind :: event_kind
  ev_level :: level
  ev_run :: "run_id option"
  ev_worker :: "worker_id option"
  ev_trace :: "string option"
  ev_span :: "string option"
  ev_plugin :: "string option"
  ev_algorithm :: "string option"
  ev_message :: "string option"
  ev_attrs :: json

section \<open>Hexadecimal text of content identifiers\<close>

lemma hex_digit_table:
  "list_all (\<lambda>n. to_digit16 (hex_digit n) = Some n \<and> (of_char (hex_digit n) :: nat) < 128
     \<and> hex_digit n \<noteq> CHR ''+'' \<and> hex_digit n \<noteq> CHR ''-'') [0..<16]"
  by code_simp

lemma hex_digit_value: "n < 16 \<Longrightarrow> to_digit16 (hex_digit n) = Some n"
  and hex_digit_ascii: "n < 16 \<Longrightarrow> (of_char (hex_digit n) :: nat) < 128"
  and hex_digit_not_plus: "n < 16 \<Longrightarrow> hex_digit n \<noteq> CHR ''+'' \<and> hex_digit n \<noteq> CHR ''-''"
  using hex_digit_table by (auto simp only: list_all_iff set_upt atLeastLessThan_iff le0)

lemma unat_u8_lt: "unat (b::u8) < 256"
  using unsigned_less[of b, where ?'a = nat] by simp

lemma hex_nibbles: "unat (b::u8) div 16 < 16" "unat b mod 16 < 16"
  using unat_u8_lt[of b] by (auto simp: less_mult_imp_div_less)

lemma hex_byte_parses: "u8_from_str_radix16 (hex_byte b) = Inr b"
  using unat_u8_lt[of b]
  by (simp add: u8_from_str_radix16_def hex_byte_def hex_digit_value hex_nibbles hex_digit_not_plus)

lemma hex_concat_length: "length (concat (map hex_byte bs)) = 2 * length bs"
  by (induction bs) (auto simp: hex_byte_def)

lemma hex_concat_nth:
  "i < length bs \<Longrightarrow> take 2 (drop (2 * i) (concat (map hex_byte bs))) = hex_byte (bs ! i)"
proof (induction bs arbitrary: i)
  case Nil
  then show ?case by simp
next
  case (Cons b bs)
  show ?case
  proof (cases i)
    case 0
    then show ?thesis by (simp add: hex_byte_def)
  next
    case (Suc j)
    with Cons show ?thesis by (simp add: hex_byte_def)
  qed
qed

lemma hex_concat_ascii:
  "c \<in> set (concat (map hex_byte bs)) \<Longrightarrow> (of_char c :: nat) < 128"
  by (auto simp: hex_byte_def hex_digit_ascii hex_nibbles)

lemma ascii_char_boundary:
  assumes "\<And>c. c \<in> set s \<Longrightarrow> (of_char c :: nat) < 128" and "i \<le> length s"
  shows "is_char_boundary s i"
  using assms nth_mem[of i s] by (fastforce simp: is_char_boundary_def)

lemma content_id_bytes_hex:
  assumes "\<And>i. i \<in> set is \<Longrightarrow> i < length bs"
  shows "content_id_bytes (concat (map hex_byte bs)) is = Inr (map (\<lambda>i. bs ! i) is)"
  using assms
proof (induction "is")
  case Nil
  then show ?case by simp
next
  case (Cons i "is")
  have i: "i < length bs" using Cons.prems by simp
  then have "str_slice (concat (map hex_byte bs)) (i * 2) (i * 2 + 2) = (Inr (hex_byte (bs ! i)) :: string fault + string)"
    using ascii_char_boundary[of "concat (map hex_byte bs)", OF hex_concat_ascii[of _ bs]] hex_concat_nth[OF i]
    by (simp add: str_slice_def hex_concat_length mult.commute)
  then show ?case using Cons by (simp add: hex_byte_parses)
qed

lemma content_id_text_parses:
  assumes "content_id_wf c"
  shows "content_id_from_str (content_id_to_string c) = Inr c"
proof -
  from assms have len: "length (digest c) = 32" by (simp add: content_id_wf_def)
  then have "content_id_bytes (content_id_to_string c) [0..<32] = Inr (map (\<lambda>i. digest c ! i) [0..<32])"
    unfolding content_id_to_string_def by (intro content_id_bytes_hex) auto
  moreover have "map (\<lambda>i. digest c ! i) [0..<32] = digest c"
    using len map_nth[of "digest c"] by simp
  ultimately show ?thesis
    using len by (simp add: content_id_from_str_def content_id_to_string_def hex_concat_length)
qed

lemma hex_byte_inj: "hex_byte a = hex_byte b \<longleftrightarrow> a = b"
  by (metis hex_byte_parses sum.inject(2))

lemma hex_concat_inj: "concat (map hex_byte as) = concat (map hex_byte bs) \<longleftrightarrow> as = bs"
proof (induction as arbitrary: bs)
  case Nil
  then show ?case by (cases bs) (auto simp: hex_byte_def)
next
  case (Cons a as)
  show ?case
  proof (cases bs)
    case Nil
    then show ?thesis by (simp add: hex_byte_def)
  next
    case (Cons b bs')
    have "length (hex_byte a) = length (hex_byte b)" by (simp add: hex_byte_def)
    then show ?thesis using Cons.IH[of bs'] Cons by (simp add: hex_byte_inj)
  qed
qed

lemma content_id_text_eq [simp]: "content_id_to_string a = content_id_to_string b \<longleftrightarrow> a = b"
  by (cases a; cases b) (simp add: content_id_to_string_def hex_concat_inj)

text \<open>
  C22. A content identifier survives its textual form: parsing the 64 hexadecimal digits that
  \<open>Display\<close> writes for a 32-byte digest gives the same identifier back, with no error and no
  panic. Work-item and sample keys, queue payloads and blob paths all rely on it.
\<close>
theorem content_id_roundtrip:
  "content_id_wf c \<Longrightarrow> content_id_from_str (content_id_to_string c) = Inr c"
  by (rule content_id_text_parses)

theorem content_id_roundtrip_witness:
  "content_id_from_str (content_id_to_string (ContentId (replicate 32 171))) = Inr (ContentId (replicate 32 171))"
  by (rule content_id_roundtrip) (simp add: content_id_wf_def)

text \<open>Printable-ASCII keys.\<close>

definition printable :: "char \<Rightarrow> bool" where
  "printable c \<longleftrightarrow> 32 \<le> (of_char c :: nat) \<and> of_char c \<le> (126::nat)"

lemma validate_component_ok: "validate_component idx c = Inr () \<longleftrightarrow> list_all printable c"
  by (induction c) (auto simp: printable_def)

lemma validate_components_ok:
  "validate_components idx cs = Inr () \<longleftrightarrow> list_all (list_all printable) cs"
  by (induction cs arbitrary: idx) (auto simp: comp_iff validate_component_ok)

lemma validate_for_postgres_ok:
  "validate_for_postgres k = Inr () \<longleftrightarrow> list_all (list_all printable) (path k)"
  by (simp add: validate_for_postgres_def validate_components_ok)

end
