(* ===== verification/Storage_Spec.thy ===== *)
theory Storage_Spec
  imports Core_Types
begin

text \<open>
  The contract between the metadata store and its clients (\<open>rollout-core/src/traits/storage.rs\<close>).
  The traits \<open>Storage\<close> and \<open>StorageTxn\<close> are a record of operations, so that every client is one
  definition over an arbitrary backend; the locale \<open>storage\<close> states what a backend promises about
  them. The two backends, \<open>Storage_Embedded\<close> and \<open>Storage_Postgres\<close>, interpret it.
\<close>

section \<open>The two traits\<close>

record ('s, 't) storage_ops =
  begin_txn :: "'s \<Rightarrow> 't res"
  get_bytes :: "storage_key \<Rightarrow> 's \<Rightarrow> bytes option res"
  get_many_bytes :: "storage_key list \<Rightarrow> 's \<Rightarrow> bytes option list res"
  scan_bytes :: "key_range \<Rightarrow> 's \<Rightarrow> (storage_key \<times> bytes) list res"
  put_bytes :: "storage_key \<Rightarrow> bytes \<Rightarrow> ('t, unit) io"
  delete_key :: "storage_key \<Rightarrow> ('t, unit) io"
  cas_bytes :: "storage_key \<Rightarrow> bytes option \<Rightarrow> bytes option \<Rightarrow> ('t, bool) io"
  commit_txn :: "'t \<Rightarrow> ('s, unit) io"
  abort_txn :: "'t \<Rightarrow> ('s, unit) io"

text \<open>
  \<open>key_has_prefix\<close> of \<open>rollout-storage/src/encoding.rs\<close>: the run of the prefix is a wildcard when
  absent.
\<close>

definition key_has_prefix :: "storage_key \<Rightarrow> storage_key \<Rightarrow> bool" where
  "key_has_prefix candidate pre =
     (if namespace candidate \<noteq> namespace pre then False
      else (case key_run pre of None \<Rightarrow> True | Some _ \<Rightarrow> key_run candidate = key_run pre)
        \<and> prefix (path pre) (path candidate))"

lemma key_has_prefix_refl [simp]: "key_has_prefix k k"
  by (auto simp: key_has_prefix_def split: option.splits)

section \<open>Transactions as scripts\<close>

type_synonym store_view = "storage_key \<Rightarrow> bytes option"

text \<open>
  The staging calls of a transaction, what they do to the finite map a store stands for, and which
  events they owe to watchers. \<open>transaction\<close> opens a transaction, runs a script of calls and
  commits; an error of a call drops the transaction.
\<close>

datatype txn_op = PutOp storage_key bytes | DeleteOp storage_key | CasOp storage_key "bytes option" "bytes option"

fun op_key :: "txn_op \<Rightarrow> storage_key" where
  "op_key (PutOp k b) = k"
| "op_key (DeleteOp k) = k"
| "op_key (CasOp k expected new) = k"

fun spec_op :: "txn_op \<Rightarrow> store_view \<Rightarrow> bool \<times> store_view" where
  "spec_op (PutOp k b) m = (True, m(k \<mapsto> b))"
| "spec_op (DeleteOp k) m = (True, m(k := None))"
| "spec_op (CasOp k expected new) m = (if m k = expected then (True, m(k := new)) else (False, m))"

fun spec_events :: "txn_op \<Rightarrow> store_view \<Rightarrow> storage_event list" where
  "spec_events (PutOp k b) m = [PutEvent k]"
| "spec_events (DeleteOp k) m = (if m k = None then [] else [DeleteEvent k])"
| "spec_events (CasOp k expected new) m =
     (if m k \<noteq> expected then [] else if new \<noteq> None then [PutEvent k] else if m k \<noteq> None then [DeleteEvent k] else [])"

fun spec_run :: "txn_op list \<Rightarrow> store_view \<Rightarrow> bool list \<times> storage_event list \<times> store_view" where
  "spec_run [] m = ([], [], m)"
| "spec_run (x # xs) m =
     (case spec_op x m of (ok, m') \<Rightarrow> case spec_run xs m' of (oks, evs, m'') \<Rightarrow> (ok # oks, spec_events x m @ evs, m''))"

fun run_op :: "('s, 't) storage_ops \<Rightarrow> txn_op \<Rightarrow> ('t, bool) io" where
  "run_op S (PutOp k b) = bindS (put_bytes S k b) (\<lambda>_. returnS True)"
| "run_op S (DeleteOp k) = bindS (delete_key S k) (\<lambda>_. returnS True)"
| "run_op S (CasOp k expected new) = cas_bytes S k expected new"

fun run_ops :: "('s, 't) storage_ops \<Rightarrow> txn_op list \<Rightarrow> ('t, bool list) io" where
  "run_ops S [] = returnS []"
| "run_ops S (x # xs) = bindS (run_op S x) (\<lambda>ok. bindS (run_ops S xs) (\<lambda>oks. returnS (ok # oks)))"

definition transaction :: "('s, 't) storage_ops \<Rightarrow> txn_op list \<Rightarrow> ('s, bool list) io" where
  "transaction S ops = bindS (readS (begin_txn S)) (\<lambda>t.
     within (run_ops S ops) t (\<lambda>oks t. bindS (commit_txn S t) (\<lambda>_. returnS oks)))"

text \<open>One transaction that stages a computation and commits.\<close>

definition in_txn :: "('s, 't) storage_ops \<Rightarrow> ('t, 'a) io \<Rightarrow> ('s, unit) io" where
  "in_txn S m = bindS (readS (begin_txn S)) (\<lambda>txn. within m txn (\<lambda>_ txn. commit_txn S txn))"

text \<open>A transaction that is committed when its computation answers true and aborted otherwise.\<close>

definition commit_if :: "('s, 't) storage_ops \<Rightarrow> ('t, bool) io \<Rightarrow> ('s, bool) io" where
  "commit_if S m =
     bindS (readS (begin_txn S)) (\<lambda>txn.
     within m txn (\<lambda>won txn.
       if won then bindS (commit_txn S txn) (\<lambda>_. returnS True)
       else bindS (abort_txn S txn) (\<lambda>_. returnS False)))"

section \<open>The contract\<close>

text \<open>
  \<open>view\<close> and \<open>tview\<close> are the finite map a store and an open transaction stand for, \<open>okk\<close> says which
  keys the backend can represent, \<open>inscope k p\<close> which keys a scan with prefix \<open>p\<close> ranges over. The
  laws speak about operations that return \<open>Ok\<close>; a failed commit leaves the store either untouched
  or with the transaction applied, never in between.
\<close>

locale storage =
  fixes S :: "('s, 't) storage_ops"
    and view :: "'s \<Rightarrow> store_view"
    and tview :: "'t \<Rightarrow> store_view"
    and okk :: "storage_key \<Rightarrow> bool"
    and inv :: "'s \<Rightarrow> bool"
    and tinv :: "'t \<Rightarrow> bool"
    and inscope :: "storage_key \<Rightarrow> storage_key \<Rightarrow> bool"
  assumes begin_law: "inv s \<Longrightarrow> begin_txn S s = Inr t \<Longrightarrow> tinv t \<and> tview t = view s"
    and get_law: "inv s \<Longrightarrow> okk k \<Longrightarrow> get_bytes S k s = Inr g \<Longrightarrow> g = view s k"
    and scan_law: "inv s \<Longrightarrow> scan_bytes S \<lparr>range_prefix = p, range_limit = None\<rparr> s = Inr rows \<Longrightarrow>
        distinct (map fst rows) \<and> set rows = {(k, v). view s k = Some v \<and> inscope k p}"
    and scope_law: "key_run p \<noteq> None \<Longrightarrow> inscope k p = key_has_prefix k p"
    and view_okk: "view s k = Some v \<Longrightarrow> okk k"
    and put_law: "tinv t \<Longrightarrow> okk k \<Longrightarrow> put_bytes S k b t = (Inr (), t') \<Longrightarrow>
        tinv t' \<and> tview t' = (tview t)(k \<mapsto> b)"
    and delete_law: "tinv t \<Longrightarrow> okk k \<Longrightarrow> delete_key S k t = (Inr (), t') \<Longrightarrow>
        tinv t' \<and> tview t' = (tview t)(k := None)"
    and cas_law: "tinv t \<Longrightarrow> okk k \<Longrightarrow> cas_bytes S k expected new t = (Inr ok, t') \<Longrightarrow>
        tinv t' \<and> ok = (tview t k = expected) \<and> tview t' = (if ok then (tview t)(k := new) else tview t)"
    and commit_law: "inv s \<Longrightarrow> tinv t \<Longrightarrow> commit_txn S t s = (r, s') \<Longrightarrow>
        inv s' \<and> (r = Inr () \<longrightarrow> view s' = tview t) \<and> (view s' = view s \<or> view s' = tview t)"
    and abort_law: "inv s \<Longrightarrow> abort_txn S t s = (r, s') \<Longrightarrow> inv s' \<and> view s' = view s"
begin

text \<open>
  The shape of almost every writer of the code: one transaction, opened, filled and committed.
  Any relation on views that is reflexive on the old view and holds for what the transaction
  staged survives every outcome of the commit.
\<close>

lemma commit_outcomes:
  assumes "inv s" "tinv t" "commit_txn S t s = (r, s')" "P (view s)" "P (tview t)"
  shows "inv s' \<and> P (view s')"
  using commit_law[OF assms(1-3)] assms(4,5) by metis

lemma commit_Inr: "inv s \<Longrightarrow> tinv t \<Longrightarrow> commit_txn S t s = (Inr (), s') \<Longrightarrow> inv s' \<and> view s' = tview t"
  using commit_law by blast

lemma in_txn_outcomes:
  assumes "inv s" "in_txn S m s = (r, s')"
    and "\<And>t u t'. tinv t \<Longrightarrow> tview t = view s \<Longrightarrow> m t = (Inr u, t') \<Longrightarrow> tinv t' \<and> tview t' = v'"
  shows "inv s' \<and> (view s' = view s \<or> view s' = v') \<and> (r = Inr () \<longrightarrow> view s' = v')"
proof -
  consider (err) e where "r = Inl e" "s' = s"
    | (ran) t u t1 where "begin_txn S s = Inr t" "m t = (Inr u, t1)" "commit_txn S t1 s = (r, s')"
    using assms(2) by (cases r) (auto simp: in_txn_def comp_iff bindS_eq_Inl within_eq_Inl)
  then show ?thesis
  proof cases
    case err
    with assms(1) show ?thesis by simp
  next
    case ran
    from begin_law[OF assms(1) ran(1)] assms(3) ran(2) have "tinv t1" "tview t1 = v'" by auto
    with commit_law[OF assms(1) _ ran(3)] show ?thesis by auto
  qed
qed

lemma put_txn_outcomes:
  assumes "inv s" "okk k" "in_txn S (put_bytes S k b) s = (r, s')"
  shows "inv s' \<and> (view s' = view s \<or> view s' = (view s)(k \<mapsto> b)) \<and> (r = Inr () \<longrightarrow> view s' = (view s)(k \<mapsto> b))"
  by (rule in_txn_outcomes[OF assms(1,3)]) (use put_law[OF _ assms(2)] in auto)

lemma commit_if_outcomes:
  assumes "inv s" "commit_if S m s = (r, s')"
    and "\<And>t t'. tinv t \<Longrightarrow> tview t = view s \<Longrightarrow> m t = (Inr True, t') \<Longrightarrow> tinv t' \<and> Q (tview t')"
  shows "inv s' \<and> (view s' = view s \<or> Q (view s')) \<and> (r = Inr True \<longrightarrow> Q (view s')) \<and> (r = Inr False \<longrightarrow> view s' = view s)"
proof -
  consider (err) e where "r = Inl e" "s' = s"
    | (ran) t won t1 where "begin_txn S s = Inr t" "m t = (Inr won, t1)"
        "(if won then bindS (commit_txn S t1) (\<lambda>_. returnS True) else bindS (abort_txn S t1) (\<lambda>_. returnS False)) s = (r, s')"
    using assms(2) by (cases r) (auto simp: commit_if_def comp_iff bindS_eq_Inl within_eq_Inl)
  then show ?thesis
  proof cases
    case err
    with assms(1) show ?thesis by simp
  next
    case ran
    note t = begin_law[OF assms(1) ran(1)]
    show ?thesis
    proof (cases won)
      case True
      with ran t assms(3) have t1: "tinv t1" "Q (tview t1)" by auto
      from True ran(3) obtain r0 where "commit_txn S t1 s = (r0, s')" "r = Inr True \<and> r0 = Inr () \<or> (\<exists>e. r = Inl e)"
        by (cases "commit_txn S t1 s") (auto simp: bindS_def split: sum.splits)
      with commit_law[OF assms(1) t1(1)] t1(2) show ?thesis by fastforce
    next
      case False
      with ran(3) obtain r0 where "abort_txn S t1 s = (r0, s')" "r \<noteq> Inr True"
        by (cases "abort_txn S t1 s") (auto simp: bindS_def split: sum.splits)
      with abort_law[OF assms(1)] show ?thesis by blast
    qed
  qed
qed

lemma run_op_law:
  assumes "tinv t" "okk (op_key x)" "run_op S x t = (Inr ok, t')"
  shows "tinv t' \<and> (ok, tview t') = spec_op x (tview t)"
  using assms by (cases x) (auto simp: comp_iff dest: put_law delete_law cas_law)

lemma run_ops_law:
  assumes "tinv t" "\<And>x. x \<in> set ops \<Longrightarrow> okk (op_key x)" "run_ops S ops t = (Inr oks, t')"
  shows "tinv t' \<and> (\<exists>evs. spec_run ops (tview t) = (oks, evs, tview t'))"
  using assms
proof (induction ops arbitrary: t oks)
  case Nil
  then show ?case by simp
next
  case (Cons x xs)
  then obtain ok oks' t1 where x: "run_op S x t = (Inr ok, t1)" and xs: "run_ops S xs t1 = (Inr oks', t')"
    and oks: "oks = ok # oks'" by (auto simp: comp_iff)
  from run_op_law[OF _ _ x] Cons.prems have t1: "tinv t1" "spec_op x (tview t) = (ok, tview t1)" by auto
  with Cons.IH[OF _ _ xs] Cons.prems show ?case by (fastforce simp: oks)
qed

lemma transaction_law:
  assumes "inv s" "\<And>x. x \<in> set ops \<Longrightarrow> okk (op_key x)" "transaction S ops s = (Inr oks, s')"
  shows "inv s' \<and> (\<exists>evs. spec_run ops (view s) = (oks, evs, view s'))"
proof -
  obtain t t' where t: "begin_txn S s = Inr t" and ops: "run_ops S ops t = (Inr oks, t')"
    and c: "commit_txn S t' s = (Inr (), s')"
    using assms(3) by (auto simp: transaction_def comp_iff)
  note b = begin_law[OF assms(1) t]
  from run_ops_law[OF _ assms(2) ops] b obtain evs
    where "tinv t'" "spec_run ops (view s) = (oks, evs, tview t')" by auto
  with commit_Inr[OF assms(1) _ c] show ?thesis by auto
qed

lemma scan_rows:
  assumes "inv s" "scan_bytes S \<lparr>range_prefix = p, range_limit = None\<rparr> s = Inr rows" "key_run p \<noteq> None"
  shows "distinct (map fst rows)" "set rows = {(k, v). view s k = Some v \<and> key_has_prefix k p}"
  using scan_law[OF assms(1,2)] scope_law[OF assms(3)] by auto

end

end
