(* ===== verification/Storage_Embedded.thy ===== *)
theory Storage_Embedded
  imports Storage_Spec
begin

text \<open>
  The redb backend of \<open>rollout-storage/src/embedded\<close>: tables (\<open>tables.rs\<close>), the watch router
  (\<open>watch.rs\<close>), the write transaction that buffers its events until the commit (\<open>txn.rs\<close>) and the
  reads (\<open>mod.rs\<close>), with the key encoding of \<open>encoding.rs\<close>.

  redb itself is not part of the repository. Its committed content is a partial map from table
  names to association lists, iterated in byte order of the keys; a write transaction works on its
  own copy (redb admits one writer at a time, so the copy is the committed content when the
  transaction began). Which calls fail, and with which text, is an arbitrary parameter
  \<open>redb_error\<close>; \<open>join_error\<close> is the failure of tokio's \<open>spawn_blocking\<close>. The key codec is
  postcard's.
\<close>

section \<open>redb\<close>

type_synonym redb_table = "(bytes \<times> bytes) list"
type_synonym redb_db = "string \<rightharpoonup> redb_table"

datatype redb_call =
    BeginWrite | BeginRead | OpenTable string | Get bytes | Insert bytes bytes | Remove bytes
  | Iter string | IterStep bytes | Commit

record redb =
  redb_error :: "redb_call \<Rightarrow> redb_db \<Rightarrow> string option"
  join_error :: "redb_db \<Rightarrow> string option"
  hash_iter :: "string list \<Rightarrow> string list"

definition redb_call :: "redb \<Rightarrow> string \<Rightarrow> redb_call \<Rightarrow> redb_db \<Rightarrow> unit res" where
  "redb_call R what c d = (case redb_error R c d of None \<Rightarrow> Inr () | Some e \<Rightarrow> Inl (internal (what @ '': '' @ e)))"

text \<open>\<open>open_table\<close> of a write transaction creates the table; \<open>insert\<close> and \<open>remove\<close> need it open.\<close>

definition create_table :: "string \<Rightarrow> redb_db \<Rightarrow> redb_db" where
  "create_table ns d = (case d ns of None \<Rightarrow> d(ns \<mapsto> []) | Some _ \<Rightarrow> d)"

definition open_write :: "redb \<Rightarrow> string \<Rightarrow> (redb_db, unit) io" where
  "open_write R ns = (\<lambda>d. case redb_call R ''open_table'' (OpenTable ns) d of
       Inl e \<Rightarrow> (Inl e, d)
     | Inr _ \<Rightarrow> (Inr (), create_table ns d))"

definition table_rows :: "redb_db \<Rightarrow> string \<Rightarrow> redb_table" where
  "table_rows d ns = (case d ns of None \<Rightarrow> [] | Some rows \<Rightarrow> rows)"

definition redb_get :: "redb \<Rightarrow> string \<Rightarrow> bytes \<Rightarrow> redb_db \<Rightarrow> bytes option res" where
  "redb_get R ns k d = bindE (redb_call R ''get'' (Get k) d) (\<lambda>_. Inr (map_of (table_rows d ns) k))"

definition redb_insert :: "redb \<Rightarrow> string \<Rightarrow> bytes \<Rightarrow> bytes \<Rightarrow> (redb_db, unit) io" where
  "redb_insert R ns k v = (\<lambda>d. case redb_call R ''insert'' (Insert k v) d of
       Inl e \<Rightarrow> (Inl e, d)
     | Inr _ \<Rightarrow> (Inr (), d(ns \<mapsto> AList.update k v (table_rows d ns))))"

definition redb_remove :: "redb \<Rightarrow> string \<Rightarrow> bytes \<Rightarrow> (redb_db, bytes option) io" where
  "redb_remove R ns k = (\<lambda>d. case redb_call R ''remove'' (Remove k) d of
       Inl e \<Rightarrow> (Inl e, d)
     | Inr _ \<Rightarrow> (Inr (map_of (table_rows d ns) k), d(ns \<mapsto> AList.delete k (table_rows d ns))))"

text \<open>Rows of a table in iteration order.\<close>

definition redb_iter :: "redb_table \<Rightarrow> redb_table" where
  "redb_iter rows = sort_key fst rows"

section \<open>Tables and keys\<close>

definition table_names :: "string list" where
  "table_names = [''runs'', ''workers'', ''heartbeats'', ''queue'', ''plugins'', ''cloudlocal_queue'',
     ''infer'', ''snapshots'', ''coordinator_lease'', ''epoch'', ''work'', ''queue_items'', ''eval_reports'']"

definition table_for :: "string \<Rightarrow> string res" where
  "table_for ns = (if ns \<in> set table_names then Inr ns
     else Inl (config_invalid (''unknown storage namespace: '' @ ns)))"

type_synonym key_codec = "(run_id option \<times> string list) codec"

definition encode_key :: "key_codec \<Rightarrow> storage_key \<Rightarrow> bytes res" where
  "encode_key K k = map_err (\<lambda>e. Panic (''infallible: in-memory: '' @ e)) (encode K (key_run k, path k))"

definition decode_key_payload :: "key_codec \<Rightarrow> bytes \<Rightarrow> (run_id option \<times> string list) res" where
  "decode_key_payload K b = map_err (\<lambda>e. internal (''postcard key: '' @ e)) (decode K b)"

section \<open>The watch router\<close>

text \<open>
  One broadcast channel per subscribed prefix. A channel is the sequence of events sent on it; a
  receiver is its prefix and the position it subscribed at.
\<close>

type_synonym watch_router = "(storage_key \<times> storage_event list) list"

record receiver =
  rx_prefix :: storage_key
  rx_from :: nat

definition prefix_matches :: "storage_key \<Rightarrow> storage_key \<Rightarrow> bool" where
  "prefix_matches pre candidate \<longleftrightarrow> namespace pre = namespace candidate
     \<and> key_run pre = key_run candidate \<and> prefix (path pre) (path candidate)"

definition channel :: "watch_router \<Rightarrow> storage_key \<Rightarrow> storage_event list" where
  "channel w p = (case map_of w p of None \<Rightarrow> [] | Some evs \<Rightarrow> evs)"

definition subscribe :: "storage_key \<Rightarrow> watch_router \<Rightarrow> receiver \<times> watch_router" where
  "subscribe p w = (\<lparr>rx_prefix = p, rx_from = length (channel w p)\<rparr>, AList.update p (channel w p) w)"

definition publish :: "storage_event \<Rightarrow> watch_router \<Rightarrow> watch_router" where
  "publish ev w = map (\<lambda>(p, evs). (p, if prefix_matches p (event_key ev) then evs @ [ev] else evs)) w"

section \<open>The transaction\<close>

record embedded_txn =
  wtxn :: "redb_db option"
  pending :: "storage_event list"

record embedded_storage =
  db :: redb_db
  watchers :: watch_router

text \<open>
  The common part of the staging methods: take the redb transaction out of \<open>self\<close>, run the closure
  in \<open>spawn_blocking\<close> and put the transaction back, on the error path too.
\<close>

definition spawn_stage :: "redb \<Rightarrow> (redb_db, 'a) io \<Rightarrow> (embedded_txn, 'a) io" where
  "spawn_stage R m = (\<lambda>t. case wtxn t of
       None \<Rightarrow> (Inl (internal ''txn already consumed''), t)
     | Some w \<Rightarrow> (case join_error R w of
         Some e \<Rightarrow> (Inl (internal (''join: '' @ e)), t\<lparr>wtxn := None\<rparr>)
       | None \<Rightarrow> (case m w of (r, w') \<Rightarrow> (r, t\<lparr>wtxn := Some w'\<rparr>))))"

definition push_event :: "storage_event option \<Rightarrow> (embedded_txn, unit) io" where
  "push_event ev = (\<lambda>t. (Inr (), case ev of None \<Rightarrow> t | Some e \<Rightarrow> t\<lparr>pending := pending t @ [e]\<rparr>))"

definition embedded_put_bytes :: "redb \<Rightarrow> key_codec \<Rightarrow> storage_key \<Rightarrow> bytes \<Rightarrow> (embedded_txn, unit) io" where
  "embedded_put_bytes R K key value =
     bindS (liftE (table_for (namespace key))) (\<lambda>ns.
     bindS (liftE (encode_key K key)) (\<lambda>k.
     bindS (spawn_stage R (bindS (open_write R ns) (\<lambda>_. redb_insert R ns k value))) (\<lambda>_.
     push_event (Some (PutEvent key)))))"

definition embedded_delete :: "redb \<Rightarrow> key_codec \<Rightarrow> storage_key \<Rightarrow> (embedded_txn, unit) io" where
  "embedded_delete R K key =
     bindS (liftE (table_for (namespace key))) (\<lambda>ns.
     bindS (liftE (encode_key K key)) (\<lambda>k.
     bindS (spawn_stage R (bindS (open_write R ns) (\<lambda>_. redb_remove R ns k))) (\<lambda>prev.
     push_event (if prev \<noteq> None then Some (DeleteEvent key) else None))))"

text \<open>The closure of \<open>cas_bytes\<close>: whether the swap was applied, and whether it removed a row.\<close>

definition cas_stage :: "redb \<Rightarrow> string \<Rightarrow> bytes \<Rightarrow> bytes option \<Rightarrow> bytes option \<Rightarrow> (redb_db, bool \<times> bool) io" where
  "cas_stage R ns k expected new =
     bindS (open_write R ns) (\<lambda>_.
     bindS (readS (redb_get R ns k)) (\<lambda>current.
       if current \<noteq> expected then returnS (False, False)
       else (case new of
           Some v \<Rightarrow> bindS (redb_insert R ns k v) (\<lambda>_. returnS (True, False))
         | None \<Rightarrow> if current \<noteq> None then bindS (redb_remove R ns k) (\<lambda>_. returnS (True, True))
                   else returnS (True, False))))"

definition embedded_cas_bytes ::
  "redb \<Rightarrow> key_codec \<Rightarrow> storage_key \<Rightarrow> bytes option \<Rightarrow> bytes option \<Rightarrow> (embedded_txn, bool) io" where
  "embedded_cas_bytes R K key expected new =
     bindS (liftE (table_for (namespace key))) (\<lambda>ns.
     bindS (liftE (encode_key K key)) (\<lambda>k.
     bindS (spawn_stage R (cas_stage R ns k expected new)) (\<lambda>(applied, was_delete).
     bindS (push_event (if \<not> applied then None else if was_delete then Some (DeleteEvent key)
                        else if new \<noteq> None then Some (PutEvent key) else None)) (\<lambda>_.
     returnS applied))))"

definition embedded_commit :: "redb \<Rightarrow> embedded_txn \<Rightarrow> (embedded_storage, unit) io" where
  "embedded_commit R t = (\<lambda>s. case wtxn t of
       None \<Rightarrow> (Inl (internal ''txn already consumed''), s)
     | Some w \<Rightarrow> (case join_error R w of
         Some e \<Rightarrow> (Inl (internal (''join: '' @ e)), s)
       | None \<Rightarrow> (case redb_call R ''commit'' Commit w of
           Inl e \<Rightarrow> (Inl e, s)
         | Inr _ \<Rightarrow> (Inr (), \<lparr>db = w, watchers = fold publish (pending t) (watchers s)\<rparr>))))"

definition embedded_abort :: "redb \<Rightarrow> embedded_txn \<Rightarrow> (embedded_storage, unit) io" where
  "embedded_abort R t = (\<lambda>s. case wtxn t of
       None \<Rightarrow> (Inr (), s)
     | Some w \<Rightarrow> (case join_error R w of
         Some e \<Rightarrow> (Inl (internal (''join: '' @ e)), s)
       | None \<Rightarrow> (Inr (), s)))"

section \<open>The store\<close>

text \<open>\<open>spawn_blocking\<close> around a read: a panic of the closure is a join error of the caller.\<close>

definition spawn_read :: "redb \<Rightarrow> (redb_db \<Rightarrow> 'a res) \<Rightarrow> embedded_storage \<Rightarrow> 'a res" where
  "spawn_read R m s = (case join_error R (db s) of
       Some e \<Rightarrow> Inl (internal (''join: '' @ e))
     | None \<Rightarrow> (case m (db s) of
         Inl (Panic msg) \<Rightarrow> Inl (internal (''join: task panicked: '' @ msg))
       | r \<Rightarrow> r))"

definition embedded_begin :: "redb \<Rightarrow> embedded_storage \<Rightarrow> embedded_txn res" where
  "embedded_begin R s =
     bindE (spawn_read R (\<lambda>d. bindE (redb_call R ''begin_write'' BeginWrite d) (\<lambda>_. Inr d)) s) (\<lambda>w.
     Inr \<lparr>wtxn = Some w, pending = []\<rparr>)"

definition embedded_get_bytes :: "redb \<Rightarrow> key_codec \<Rightarrow> storage_key \<Rightarrow> embedded_storage \<Rightarrow> bytes option res" where
  "embedded_get_bytes R K key s =
     bindE (table_for (namespace key)) (\<lambda>ns.
     bindE (encode_key K key) (\<lambda>k.
     spawn_read R (\<lambda>d.
       bindE (redb_call R ''begin_read'' BeginRead d) (\<lambda>_.
       case d ns of
         None \<Rightarrow> Inr None
       | Some _ \<Rightarrow> bindE (redb_call R ''open_table'' (OpenTable ns) d) (\<lambda>_. redb_get R ns k d))) s))"

text \<open>
  \<open>get_many_bytes\<close> first sorts the indices by table; the hand-written list of table names in that
  loop lacks \<open>eval_reports\<close> and its last arm is \<open>unreachable!\<close>. Tables are then visited in the
  iteration order of a \<open>HashMap\<close>.
\<close>

definition static_ns :: "string \<Rightarrow> string res" where
  "static_ns ns = (if ns \<in> set (butlast table_names) then Inr ns
     else Inl (Panic ''internal error: entered unreachable code: table_for would have errored''))"

fun group_by_table :: "nat \<Rightarrow> storage_key list \<Rightarrow> (string \<times> nat list) list \<Rightarrow> (string \<times> nat list) list res" where
  "group_by_table i [] acc = Inr acc"
| "group_by_table i (k # ks) acc =
     bindE (table_for (namespace k)) (\<lambda>_.
     bindE (static_ns (namespace k)) (\<lambda>ns.
     group_by_table (Suc i) ks
       (AList.update ns ((case map_of acc ns of None \<Rightarrow> [] | Some is \<Rightarrow> is) @ [i]) acc)))"

fun read_indices :: "redb \<Rightarrow> key_codec \<Rightarrow> redb_db \<Rightarrow> string \<Rightarrow> storage_key list \<Rightarrow> nat list
    \<Rightarrow> bytes option list \<Rightarrow> bytes option list res" where
  "read_indices R K d ns owned [] out = Inr out"
| "read_indices R K d ns owned (i # is) out =
     bindE (encode_key K (owned ! i)) (\<lambda>kb.
     bindE (redb_get R ns kb d) (\<lambda>g.
     read_indices R K d ns owned is (case g of Some v \<Rightarrow> out[i := Some v] | None \<Rightarrow> out)))"

fun read_tables :: "redb \<Rightarrow> key_codec \<Rightarrow> redb_db \<Rightarrow> storage_key list \<Rightarrow> (string \<times> nat list) list
    \<Rightarrow> bytes option list \<Rightarrow> bytes option list res" where
  "read_tables R K d owned [] out = Inr out"
| "read_tables R K d owned ((ns, is) # rest) out =
     bindE (table_for ns) (\<lambda>_.
     case d ns of
       None \<Rightarrow> read_tables R K d owned rest out
     | Some _ \<Rightarrow> bindE (redb_call R ''open_table'' (OpenTable ns) d) (\<lambda>_.
                 bindE (read_indices R K d ns owned is out) (read_tables R K d owned rest)))"

definition embedded_get_many_bytes ::
  "redb \<Rightarrow> key_codec \<Rightarrow> storage_key list \<Rightarrow> embedded_storage \<Rightarrow> bytes option list res" where
  "embedded_get_many_bytes R K keys s =
     spawn_read R (\<lambda>d.
       bindE (redb_call R ''begin_read'' BeginRead d) (\<lambda>_.
       bindE (group_by_table 0 keys []) (\<lambda>by_table.
       read_tables R K d keys
         (map (\<lambda>ns. (ns, the (map_of by_table ns))) (hash_iter R (map fst by_table)))
         (replicate (length keys) None)))) s"

fun scan_rows :: "redb \<Rightarrow> key_codec \<Rightarrow> redb_db \<Rightarrow> storage_key \<Rightarrow> nat option \<Rightarrow> redb_table
    \<Rightarrow> (storage_key \<times> bytes) list \<Rightarrow> (storage_key \<times> bytes) list res" where
  "scan_rows R K d pre limit [] out = Inr out"
| "scan_rows R K d pre limit ((kb, v) # rows) out =
     bindE (redb_call R ''iter step'' (IterStep kb) d) (\<lambda>_.
     bindE (decode_key_payload K kb) (\<lambda>(run, p).
       let candidate = \<lparr>namespace = namespace pre, key_run = run, path = p\<rparr>
       in if key_has_prefix candidate pre then
            (let out' = out @ [(candidate, v)]
             in case limit of
                  Some n \<Rightarrow> if n \<le> length out' then Inr out' else scan_rows R K d pre limit rows out'
                | None \<Rightarrow> scan_rows R K d pre limit rows out')
          else scan_rows R K d pre limit rows out))"

definition embedded_scan_bytes ::
  "redb \<Rightarrow> key_codec \<Rightarrow> key_range \<Rightarrow> embedded_storage \<Rightarrow> (storage_key \<times> bytes) list res" where
  "embedded_scan_bytes R K rng s =
     bindE (table_for (namespace (range_prefix rng))) (\<lambda>ns.
     spawn_read R (\<lambda>d.
       bindE (redb_call R ''begin_read'' BeginRead d) (\<lambda>_.
       case d ns of
         None \<Rightarrow> Inr []
       | Some rows \<Rightarrow>
           bindE (redb_call R ''open_table'' (OpenTable ns) d) (\<lambda>_.
           bindE (redb_call R ''iter'' (Iter ns) d) (\<lambda>_.
           scan_rows R K d (range_prefix rng) (range_limit rng) (redb_iter rows) [])))) s)"

definition embedded_watch :: "storage_key \<Rightarrow> (embedded_storage, receiver) io" where
  "embedded_watch p = (\<lambda>s. case subscribe p (watchers s) of (rx, w) \<Rightarrow> (Inr rx, s\<lparr>watchers := w\<rparr>))"

definition embedded_ping :: "redb \<Rightarrow> embedded_storage \<Rightarrow> unit res" where
  "embedded_ping R = spawn_read R (redb_call R ''begin_read'' BeginRead)"

definition embedded_ops :: "redb \<Rightarrow> key_codec \<Rightarrow> (embedded_storage, embedded_txn) storage_ops" where
  "embedded_ops R K = \<lparr>begin_txn = embedded_begin R, get_bytes = embedded_get_bytes R K,
     get_many_bytes = embedded_get_many_bytes R K, scan_bytes = embedded_scan_bytes R K,
     put_bytes = embedded_put_bytes R K, delete_key = embedded_delete R K,
     cas_bytes = embedded_cas_bytes R K, commit_txn = embedded_commit R, abort_txn = embedded_abort R\<rparr>"

lemma embedded_ops_simps [simp]:
  "begin_txn (embedded_ops R K) = embedded_begin R"
  "get_bytes (embedded_ops R K) = embedded_get_bytes R K"
  "get_many_bytes (embedded_ops R K) = embedded_get_many_bytes R K"
  "scan_bytes (embedded_ops R K) = embedded_scan_bytes R K"
  "put_bytes (embedded_ops R K) = embedded_put_bytes R K"
  "delete_key (embedded_ops R K) = embedded_delete R K"
  "cas_bytes (embedded_ops R K) = embedded_cas_bytes R K"
  "commit_txn (embedded_ops R K) = embedded_commit R"
  "abort_txn (embedded_ops R K) = embedded_abort R"
  by (simp_all add: embedded_ops_def)


section \<open>The map a database stands for\<close>

text \<open>
  A key is representable when its namespace has a table and its encoding decodes to it; postcard
  promises the latter for every key. The invariant says that every row key of every table is the
  encoding of such a key and occurs once.
\<close>

definition key_bytes :: "key_codec \<Rightarrow> storage_key \<Rightarrow> bytes" where
  "key_bytes K k = (case encode K (key_run k, path k) of Inl _ \<Rightarrow> [] | Inr b \<Rightarrow> b)"

definition embedded_okk :: "key_codec \<Rightarrow> storage_key \<Rightarrow> bool" where
  "embedded_okk K k \<longleftrightarrow> namespace k \<in> set table_names
     \<and> encode K (key_run k, path k) = Inr (key_bytes K k)
     \<and> decode K (key_bytes K k) = Inr (key_run k, path k)"

definition db_view :: "key_codec \<Rightarrow> redb_db \<Rightarrow> store_view" where
  "db_view K d k = (if embedded_okk K k then map_of (table_rows d (namespace k)) (key_bytes K k) else None)"

definition canonical :: "key_codec \<Rightarrow> bytes \<Rightarrow> bool" where
  "canonical K kb \<longleftrightarrow> (case decode K kb of Inl _ \<Rightarrow> False | Inr x \<Rightarrow> encode K x = Inr kb)"

definition rows_inv :: "key_codec \<Rightarrow> redb_table \<Rightarrow> bool" where
  "rows_inv K rows \<longleftrightarrow> distinct (map fst rows) \<and> (\<forall>kb \<in> fst ` set rows. canonical K kb)"

definition db_inv :: "key_codec \<Rightarrow> redb_db \<Rightarrow> bool" where
  "db_inv K d \<longleftrightarrow> (\<forall>ns \<in> set table_names. rows_inv K (table_rows d ns))"

definition embedded_view :: "key_codec \<Rightarrow> embedded_storage \<Rightarrow> store_view" where
  "embedded_view K s = db_view K (db s)"

definition embedded_tview :: "key_codec \<Rightarrow> embedded_txn \<Rightarrow> store_view" where
  "embedded_tview K t = (case wtxn t of None \<Rightarrow> Map.empty | Some w \<Rightarrow> db_view K w)"

definition embedded_inv :: "key_codec \<Rightarrow> embedded_storage \<Rightarrow> bool" where
  "embedded_inv K s \<longleftrightarrow> db_inv K (db s)"

definition embedded_tinv :: "key_codec \<Rightarrow> embedded_txn \<Rightarrow> bool" where
  "embedded_tinv K t \<longleftrightarrow> (case wtxn t of None \<Rightarrow> True | Some w \<Rightarrow> db_inv K w)"

lemmas embedded_abs = embedded_view_def embedded_tview_def embedded_inv_def embedded_tinv_def

lemma codec_okk:
  "codec_ok K \<Longrightarrow> namespace k \<in> set table_names \<Longrightarrow> encode K (key_run k, path k) = Inr b \<Longrightarrow> embedded_okk K k"
  by (simp add: embedded_okk_def key_bytes_def codec_okD)

lemma okk_steps:
  "embedded_okk K k \<Longrightarrow> table_for (namespace k) = Inr (namespace k)"
  "embedded_okk K k \<Longrightarrow> encode_key K k = Inr (key_bytes K k)"
  by (auto simp: embedded_okk_def table_for_def encode_key_def)

lemma okk_key_bytes_inj:
  assumes "embedded_okk K k" "embedded_okk K k'" "namespace k = namespace k'" "key_bytes K k = key_bytes K k'"
  shows "k = k'"
  using assms by (auto simp: embedded_okk_def)

lemma table_rows_upd [simp]: "table_rows (d(ns \<mapsto> rows)) ns' = (if ns' = ns then rows else table_rows d ns')"
  by (simp add: table_rows_def)

lemma table_rows_touch [simp]: "d ns = None \<Longrightarrow> table_rows (d(ns \<mapsto> [])) = table_rows d"
  by (auto simp: table_rows_def)

lemma db_view_update:
  "embedded_okk K k \<Longrightarrow>
     db_view K (d(namespace k \<mapsto> AList.update (key_bytes K k) v (table_rows d (namespace k)))) = (db_view K d)(k \<mapsto> v)"
  by (rule ext) (auto simp: db_view_def update_conv' dest: okk_key_bytes_inj)

lemma db_view_delete:
  "embedded_okk K k \<Longrightarrow>
     db_view K (d(namespace k \<mapsto> AList.delete (key_bytes K k) (table_rows d (namespace k)))) = (db_view K d)(k := None)"
  by (rule ext) (auto simp: db_view_def delete_conv' dest: okk_key_bytes_inj)

lemma rows_inv_update: "rows_inv K rows \<Longrightarrow> canonical K kb \<Longrightarrow> rows_inv K (AList.update kb v rows)"
  by (simp add: rows_inv_def distinct_update dom_update)

lemma rows_inv_delete: "rows_inv K rows \<Longrightarrow> rows_inv K (AList.delete kb rows)"
  using dom_delete_subset[of kb rows] unfolding rows_inv_def by (blast intro: distinct_delete)

lemma canonical_key_bytes: "embedded_okk K k \<Longrightarrow> canonical K (key_bytes K k)"
  by (simp add: embedded_okk_def canonical_def)

lemma db_inv_update:
  "db_inv K d \<Longrightarrow> embedded_okk K k \<Longrightarrow>
     db_inv K (d(ns \<mapsto> AList.update (key_bytes K k) v (table_rows d ns)))"
  by (simp add: db_inv_def rows_inv_update canonical_key_bytes)

lemma db_inv_delete: "db_inv K d \<Longrightarrow> db_inv K (d(ns \<mapsto> AList.delete kb (table_rows d ns)))"
  by (simp add: db_inv_def rows_inv_delete)

text \<open>What the staging primitives do to the map, whenever they succeed.\<close>

lemma redb_call_Inr [comp_iff]: "redb_call R what c d = Inr u \<longleftrightarrow> redb_error R c d = None"
  by (auto simp: redb_call_def split: option.splits)

lemma open_write_Inr [comp_iff]:
  "open_write R ns d = (Inr u, d') \<longleftrightarrow>
     redb_error R (OpenTable ns) d = None \<and> d' = create_table ns d"
  by (auto simp: open_write_def redb_call_def split: option.splits sum.splits)

lemma touched_table:
  "table_rows (create_table ns d) = table_rows d"
  by (auto simp: create_table_def split: option.splits)

lemma create_table_upd [simp]: "(create_table ns d)(ns \<mapsto> rows) = d(ns \<mapsto> rows)"
  by (auto simp: create_table_def split: option.splits)

lemma db_view_cong: "table_rows d = table_rows d' \<Longrightarrow> db_view K d = db_view K d'"
  and db_inv_cong: "table_rows d = table_rows d' \<Longrightarrow> db_inv K d = db_inv K d'"
  by (auto simp: db_view_def db_inv_def)

lemmas touched = touched_table db_view_cong[OF touched_table] db_inv_cong[OF touched_table]

lemma redb_insert_Inr [comp_iff]:
  "redb_insert R ns k v d = (Inr u, d') \<longleftrightarrow>
     redb_error R (Insert k v) d = None \<and> d' = d(ns \<mapsto> AList.update k v (table_rows d ns))"
  by (auto simp: redb_insert_def redb_call_def split: option.splits)

lemma redb_remove_Inr [comp_iff]:
  "redb_remove R ns k d = (Inr prev, d') \<longleftrightarrow> redb_error R (Remove k) d = None
     \<and> prev = map_of (table_rows d ns) k \<and> d' = d(ns \<mapsto> AList.delete k (table_rows d ns))"
  by (auto simp: redb_remove_def redb_call_def split: option.splits)

lemma redb_get_Inr [comp_iff]:
  "redb_get R ns k d = Inr v \<longleftrightarrow> redb_error R (Get k) d = None \<and> v = map_of (table_rows d ns) k"
  by (auto simp: redb_get_def comp_iff)

lemma spawn_stage_Inr [comp_iff]:
  "spawn_stage R m t = (Inr a, t') \<longleftrightarrow>
     (\<exists>w w'. wtxn t = Some w \<and> join_error R w = None \<and> m w = (Inr a, w') \<and> t' = t\<lparr>wtxn := Some w'\<rparr>)"
  by (auto simp: spawn_stage_def split: option.splits prod.splits)

section \<open>The laws of the contract\<close>

lemma embedded_put_law:
  assumes "embedded_tinv K t" "embedded_okk K k" "embedded_put_bytes R K k b t = (Inr (), t')"
  shows "embedded_tinv K t' \<and> embedded_tview K t' = (embedded_tview K t)(k \<mapsto> b)
     \<and> pending t' = pending t @ [PutEvent k]"
  using assms
  by (auto simp: embedded_put_bytes_def okk_steps comp_iff embedded_abs touched push_event_def
      db_inv_update db_view_update)

lemma embedded_delete_law:
  assumes "embedded_tinv K t" "embedded_okk K k" "embedded_delete R K k t = (Inr (), t')"
  shows "embedded_tinv K t' \<and> embedded_tview K t' = (embedded_tview K t)(k := None)
     \<and> pending t' = pending t @ (if embedded_tview K t k = None then [] else [DeleteEvent k])"
  using assms
  by (auto simp: embedded_delete_def okk_steps comp_iff embedded_abs touched push_event_def
      db_inv_delete db_view_delete db_view_def split: option.splits if_splits)


lemma embedded_cas_law:
  assumes "embedded_tinv K t" "embedded_okk K k" "embedded_cas_bytes R K k expected new t = (Inr ok, t')"
  shows "embedded_tinv K t' \<and> ok = (embedded_tview K t k = expected)
     \<and> embedded_tview K t' = (if ok then (embedded_tview K t)(k := new) else embedded_tview K t)
     \<and> pending t' = pending t @ (if \<not> ok then []
          else if new \<noteq> None then [PutEvent k] else if expected \<noteq> None then [DeleteEvent k] else [])"
  using assms
  by (auto simp: embedded_cas_bytes_def cas_stage_def okk_steps comp_iff embedded_abs touched push_event_def
      db_inv_update db_view_update db_inv_delete db_view_delete db_view_def fun_upd_idem
      split: option.splits if_splits prod.splits)

lemma embedded_commit_law:
  assumes "embedded_commit R t s = (r, s')"
  shows "r = Inr () \<and> (\<exists>w. wtxn t = Some w \<and> db s' = w
       \<and> watchers s' = fold publish (pending t) (watchers s)) \<or> (\<exists>e. r = Inl e) \<and> s' = s"
  using assms by (auto simp: embedded_commit_def redb_call_def split: option.splits)

lemma embedded_abort_law: "embedded_abort R t s = (r, s') \<Longrightarrow> s' = s"
  by (auto simp: embedded_abort_def split: option.splits)

lemma spawn_read_Inr [comp_iff]:
  "spawn_read R m s = Inr a \<longleftrightarrow> join_error R (db s) = None \<and> m (db s) = Inr a"
  by (auto simp: spawn_read_def split: option.splits sum.splits fault.splits)

lemma embedded_begin_law:
  "embedded_begin R s = Inr t \<Longrightarrow> t = \<lparr>wtxn = Some (db s), pending = []\<rparr>"
  by (auto simp: embedded_begin_def comp_iff)

lemma embedded_get_law:
  "embedded_okk K k \<Longrightarrow> embedded_get_bytes R K k s = Inr g \<Longrightarrow> g = embedded_view K s k"
  by (auto simp: embedded_get_bytes_def okk_steps comp_iff embedded_abs db_view_def table_rows_def
      split: option.splits)

text \<open>The loop of a scan without limit keeps the rows below the prefix, in iteration order.\<close>

definition row_key :: "key_codec \<Rightarrow> string \<Rightarrow> bytes \<Rightarrow> storage_key" where
  "row_key K ns kb = (case decode K kb of
       Inl _ \<Rightarrow> \<lparr>namespace = ns, key_run = None, path = []\<rparr>
     | Inr (run, p) \<Rightarrow> \<lparr>namespace = ns, key_run = run, path = p\<rparr>)"

definition rows_in :: "key_codec \<Rightarrow> storage_key \<Rightarrow> redb_table \<Rightarrow> (storage_key \<times> bytes) list" where
  "rows_in K p rows = filter (\<lambda>(k, v). key_has_prefix k p) (map (\<lambda>(kb, v). (row_key K (namespace p) kb, v)) rows)"

lemma scan_rows_Inr:
  assumes "scan_rows R K d p limit rows out = Inr res" "\<And>n. limit = Some n \<Longrightarrow> length out < n"
  shows "res = out @ (case limit of None \<Rightarrow> rows_in K p rows | Some n \<Rightarrow> take (n - length out) (rows_in K p rows))"
  using assms
proof (induction rows arbitrary: out)
  case Nil
  then show ?case by (simp add: rows_in_def split: option.splits)
next
  case (Cons row rows)
  obtain kb v where row: "row = (kb, v)" by (cases row)
  from Cons.prems(1) obtain run q where dec: "decode K kb = Inr (run, q)"
    by (auto simp: row comp_iff decode_key_payload_def)
  then have key: "row_key K (namespace p) kb = \<lparr>namespace = namespace p, key_run = run, path = q\<rparr>"
    by (simp add: row_key_def)
  show ?case
    using Cons.prems Cons.IH[of out] Cons.IH[of "out @ [(row_key K (namespace p) kb, v)]"]
    by (auto simp: row dec key rows_in_def Let_def comp_iff decode_key_payload_def take_Cons' Suc_diff_Suc
        split: option.splits if_splits)
qed

lemma row_key_canonical:
  assumes "canonical K kb" "ns \<in> set table_names"
  shows "embedded_okk K (row_key K ns kb)" "key_bytes K (row_key K ns kb) = kb" "namespace (row_key K ns kb) = ns"
  using assms by (auto simp: canonical_def row_key_def embedded_okk_def key_bytes_def split: sum.splits prod.splits)

lemma row_key_key_bytes: "embedded_okk K k \<Longrightarrow> row_key K (namespace k) (key_bytes K k) = k"
  by (auto simp: embedded_okk_def row_key_def)

lemma db_view_rows:
  assumes "db_inv K d" "ns \<in> set table_names"
  shows "set (map (\<lambda>(kb, v). (row_key K ns kb, v)) (table_rows d ns)) = {(k, v). namespace k = ns \<and> db_view K d k = Some v}"
    (is "?L = ?R")
proof
  from assms have rows: "distinct (map fst (table_rows d ns))" "\<And>kb v. (kb, v) \<in> set (table_rows d ns) \<Longrightarrow> canonical K kb"
    by (force simp: db_inv_def rows_inv_def)+
  show "?L \<subseteq> ?R"
    using rows assms(2) by (auto simp: db_view_def row_key_canonical)
  show "?R \<subseteq> ?L"
  proof
    fix row assume "row \<in> ?R"
    then obtain k v where row: "row = (k, v)" and ns: "ns = namespace k" and "db_view K d k = Some v" by auto
    then have "embedded_okk K k" "(key_bytes K k, v) \<in> set (table_rows d ns)"
      by (auto simp: db_view_def map_of_SomeD split: if_splits)
    then show "row \<in> ?L" unfolding row using ns row_key_key_bytes[of K k] by force
  qed
qed

lemma rows_in_set:
  assumes "db_inv K d" "namespace p \<in> set table_names" "set rows = set (table_rows d (namespace p))"
  shows "set (rows_in K p rows) = {(k, v). db_view K d k = Some v \<and> key_has_prefix k p}"
  using db_view_rows[OF assms(1,2)] assms(3) by (auto simp: rows_in_def key_has_prefix_def)

lemma rows_in_distinct:
  assumes "rows_inv K rows" "namespace p \<in> set table_names"
  shows "distinct (map fst (rows_in K p rows))"
proof -
  have "inj_on (row_key K (namespace p)) (fst ` set rows)"
    using assms by (metis (mono_tags, lifting) inj_onI rows_inv_def row_key_canonical(2))
  then have "distinct (map (row_key K (namespace p)) (map fst rows))"
    using assms(1) unfolding rows_inv_def distinct_map[of "row_key K (namespace p)"] by simp
  then have "distinct (map fst (map (\<lambda>(kb, v). (row_key K (namespace p) kb, v)) rows))"
    by (simp add: comp_def split_def)
  then show ?thesis
    unfolding rows_in_def by (rule distinct_map_filter)
qed

lemma embedded_scan_Inr:
  assumes "embedded_inv K s" "embedded_scan_bytes R K rng s = Inr rows"
  shows "namespace (range_prefix rng) \<in> set table_names"
    and "range_limit rng \<noteq> Some 0 \<Longrightarrow> rows = (let all = rows_in K (range_prefix rng) (redb_iter (table_rows (db s) (namespace (range_prefix rng))))
       in case range_limit rng of None \<Rightarrow> all | Some n \<Rightarrow> take n all)"
proof -
  let ?p = "range_prefix rng"
  from assms(2) show "namespace ?p \<in> set table_names"
    by (auto simp: embedded_scan_bytes_def comp_iff table_for_def split: if_splits)
  with assms(2) show "range_limit rng \<noteq> Some 0 \<Longrightarrow> rows = (let all = rows_in K ?p (redb_iter (table_rows (db s) (namespace ?p)))
       in case range_limit rng of None \<Rightarrow> all | Some n \<Rightarrow> take n all)"
    by (auto simp: embedded_scan_bytes_def comp_iff table_for_def table_rows_def redb_iter_def rows_in_def
        split: option.splits if_splits dest!: scan_rows_Inr)
qed

lemma embedded_scan_law:
  assumes "embedded_inv K s" "embedded_scan_bytes R K \<lparr>range_prefix = p, range_limit = None\<rparr> s = Inr rows"
  shows "distinct (map fst rows) \<and> set rows = {(k, v). embedded_view K s k = Some v \<and> key_has_prefix k p}"
proof -
  note scan = embedded_scan_Inr[OF assms, simplified]
  let ?rows = "redb_iter (table_rows (db s) (namespace p))"
  have inv: "db_inv K (db s)" using assms(1) by (simp add: embedded_inv_def)
  then have "rows_inv K (table_rows (db s) (namespace p))" using scan(1) by (simp add: db_inv_def)
  then have "rows_inv K ?rows" by (simp add: rows_inv_def redb_iter_def distinct_map)
  then show ?thesis
    using rows_in_distinct[OF _ scan(1)] rows_in_set[OF inv scan(1), of ?rows] scan(2)
    by (simp add: embedded_view_def redb_iter_def)
qed

lemma embedded_begin_view:
  "embedded_inv K s \<Longrightarrow> embedded_begin R s = Inr t \<Longrightarrow> embedded_tinv K t \<and> embedded_tview K t = embedded_view K s"
  by (auto simp: embedded_abs dest: embedded_begin_law)

lemma embedded_commit_view:
  assumes "embedded_inv K s" "embedded_tinv K t" "embedded_commit R t s = (r, s')"
  shows "embedded_inv K s' \<and> (r = Inr () \<longrightarrow> embedded_view K s' = embedded_tview K t)
    \<and> (embedded_view K s' = embedded_view K s \<or> embedded_view K s' = embedded_tview K t)"
  using assms embedded_commit_law[OF assms(3)] by (auto simp: embedded_abs)

lemma embedded_view_okk: "embedded_view K s k = Some v \<Longrightarrow> embedded_okk K k"
  by (simp add: embedded_view_def db_view_def split: if_splits)

text \<open>The redb backend is a store in the sense of the contract, whatever redb, tokio and postcard do.\<close>

interpretation redb: storage "embedded_ops R K" "embedded_view K" "embedded_tview K" "embedded_okk K"
  "embedded_inv K" "embedded_tinv K" key_has_prefix for R K
  by unfold_locales
    (auto simp: embedded_get_law embedded_view_okk
      dest: embedded_begin_view embedded_scan_law embedded_put_law embedded_delete_law embedded_cas_law
        embedded_commit_view embedded_abort_law)

section \<open>Transactions of the redb backend\<close>

lemma embedded_run_op:
  assumes "embedded_tinv K t" "embedded_okk K (op_key x)" "run_op (embedded_ops R K) x t = (Inr ok, t')"
  shows "pending t' = pending t @ spec_events x (embedded_tview K t)"
proof (cases x)
  case (PutOp k b)
  then show ?thesis using assms embedded_put_law[of K t k R b t'] by (simp add: comp_iff)
next
  case (DeleteOp k)
  then show ?thesis using assms embedded_delete_law[of K t k R t'] by (simp add: comp_iff)
next
  case (CasOp k expected new)
  then show ?thesis using assms embedded_cas_law[of K t k R expected new ok t'] by auto
qed

lemma embedded_run_ops:
  assumes "embedded_tinv K t" "\<And>x. x \<in> set ops \<Longrightarrow> embedded_okk K (op_key x)"
    and "run_ops (embedded_ops R K) ops t = (Inr oks, t')"
  shows "\<exists>evs. spec_run ops (embedded_tview K t) = (oks, evs, embedded_tview K t') \<and> pending t' = pending t @ evs"
  using assms
proof (induction ops arbitrary: t oks)
  case Nil
  then show ?case by simp
next
  case (Cons x xs)
  then obtain ok oks' t1 where x: "run_op (embedded_ops R K) x t = (Inr ok, t1)"
    and xs: "run_ops (embedded_ops R K) xs t1 = (Inr oks', t')" and oks: "oks = ok # oks'"
    by (auto simp: comp_iff)
  from redb.run_op_law[OF _ _ x] embedded_run_op[OF _ _ x] Cons.prems
  have "embedded_tinv K t1" "spec_op x (embedded_tview K t) = (ok, embedded_tview K t1)"
    "pending t1 = pending t @ spec_events x (embedded_tview K t)" by auto
  with Cons.IH[OF _ _ xs] Cons.prems show ?case by (fastforce simp: oks)
qed

lemma embedded_transaction_Inr:
  assumes "embedded_inv K s" "\<And>x. x \<in> set ops \<Longrightarrow> embedded_okk K (op_key x)"
    and "transaction (embedded_ops R K) ops s = (Inr oks, s')"
  shows "\<exists>evs. spec_run ops (embedded_view K s) = (oks, evs, embedded_view K s')
     \<and> watchers s' = fold publish evs (watchers s)"
proof -
  obtain t t' where t: "embedded_begin R s = Inr t" and ops: "run_ops (embedded_ops R K) ops t = (Inr oks, t')"
    and c: "embedded_commit R t' s = (Inr (), s')"
    using assms(3) by (auto simp: transaction_def comp_iff)
  have "embedded_tinv K t" "embedded_tview K t = embedded_view K s" "pending t = []"
    using assms(1) embedded_begin_law[OF t] by (auto simp: embedded_abs)
  with embedded_run_ops[OF _ assms(2) ops] embedded_commit_law[OF c] show ?thesis
    by (auto simp: embedded_abs)
qed

lemma embedded_transaction_Inl:
  "transaction (embedded_ops R K) ops s = (Inl e, s') \<Longrightarrow> s' = s"
  by (auto simp: transaction_def bindS_eq_Inl within_eq_Inl dest: embedded_commit_law)

text \<open>
  C1. Transactions of the redb backend are atomic and mean what the trait says. Opening a
  transaction, staging any sequence of puts, deletes and compare-and-swaps and committing either
  returns \<open>Ok\<close>, and then every call answered as on a finite map and the store now holds exactly
  the map with all the calls applied; or returns an error, from whichever call, and then the
  store, its watchers included, is exactly what it was.
\<close>
theorem embedded_transaction_refines:
  assumes "embedded_inv K s" and "\<forall>x \<in> set ops. embedded_okk K (op_key x)"
    and "transaction (embedded_ops R K) ops s = (r, s')"
  shows "embedded_inv K s' \<and>
    (case r of
       Inr oks \<Rightarrow> (\<exists>evs. spec_run ops (embedded_view K s) = (oks, evs, embedded_view K s'))
     | Inl e \<Rightarrow> s' = s)"
proof (cases r)
  case (Inl e)
  then show ?thesis using assms embedded_transaction_Inl[of R K ops s e s'] by simp
next
  case (Inr oks)
  then show ?thesis using redb.transaction_law[of K s ops R oks s'] assms by auto
qed

lemma channel_publish:
  "channel (publish ev w) p = channel w p @
     (if map_of w p \<noteq> None \<and> prefix_matches p (event_key ev) then [ev] else [])"
  by (induction w) (auto simp: publish_def channel_def split: option.splits if_splits)

lemma map_of_publish: "(\<exists>evs. map_of (publish ev w) p = Some evs) \<longleftrightarrow> (\<exists>evs. map_of w p = Some evs)"
  by (induction w) (auto simp: publish_def)

lemma channel_publish_all:
  "channel (fold publish evs w) p = channel w p @
     (if map_of w p \<noteq> None then filter (\<lambda>ev. prefix_matches p (event_key ev)) evs else [])"
  by (induction evs arbitrary: w) (simp_all add: channel_publish map_of_publish)


text \<open>A database, a key codec and a redb that never fails, for the witnesses.\<close>

definition demo_key :: "string \<Rightarrow> string \<Rightarrow> storage_key" where
  "demo_key ns p = \<lparr>namespace = ns, key_run = Some (RunId 1), path = [p]\<rparr>"

definition demo_keys :: key_codec where
  "demo_keys = table_codec [(Some (RunId 1), [''a'']), (Some (RunId 1), [''b'']), (Some (RunId 1), [''c'']), (None, [''a''])]"

definition faultless :: redb where
  "faultless = \<lparr>redb_error = (\<lambda>_ _. None), join_error = (\<lambda>_. None), hash_iter = (\<lambda>ns. ns)\<rparr>"

definition demo_store :: embedded_storage where
  "demo_store = \<lparr>db = [''work'' \<mapsto> [([1], [7]), ([0], [9])]], watchers = [(demo_key ''work'' ''a'', [])]\<rparr>"

lemmas demo_defs = demo_key_def demo_keys_def faultless_def demo_store_def table_codec_def

lemma demo_inv: "embedded_inv demo_keys demo_store"
  by code_simp

definition demo_script :: "txn_op list" where
  "demo_script = [CasOp (demo_key ''work'' ''a'') (Some [9]) (Some [8]), DeleteOp (demo_key ''work'' ''b''),
     PutOp (demo_key ''runs'' ''c'') [5], CasOp (demo_key ''work'' ''a'') None None]"

definition demo_run :: "bool list res \<times> embedded_storage" where
  "demo_run = transaction (embedded_ops faultless demo_keys) demo_script demo_store"

lemma demo_run_ok: "fst demo_run = Inr [True, True, True, False]"
  by code_simp

lemma demo_script_keys: "\<forall>x \<in> set demo_script. embedded_okk demo_keys (op_key x)"
  by code_simp

lemma demo_run_eq:
  "transaction (embedded_ops faultless demo_keys) demo_script demo_store = (Inr [True, True, True, False], snd demo_run)"
  using demo_run_ok by (metis demo_run_def prod.collapse)

theorem embedded_transaction_refines_witness:
  "\<exists>evs. spec_run demo_script (embedded_view demo_keys demo_store)
     = ([True, True, True, False], evs, embedded_view demo_keys (snd demo_run))"
  using embedded_transaction_refines[OF demo_inv demo_script_keys demo_run_eq] by simp


section \<open>Scans and batched reads\<close>

lemma rows_in_sorted:
  assumes "rows_inv K rows" "sorted (map fst rows)" "namespace p \<in> set table_names"
  shows "sorted_wrt (\<lambda>x y. key_bytes K (fst x) < key_bytes K (fst y)) (rows_in K p rows)"
proof -
  have rows: "\<And>kb v. (kb, v) \<in> set rows \<Longrightarrow> canonical K kb" "sorted_wrt (\<lambda>x y. fst x < fst y) rows"
    using assms(1,2) by (force simp: rows_inv_def, simp add: rows_inv_def strict_sorted_iff flip: sorted_wrt_map)
  then have "sorted_wrt (\<lambda>x y. key_bytes K (row_key K (namespace p) (fst x)) < key_bytes K (row_key K (namespace p) (fst y))) rows"
    by (auto elim!: sorted_wrt_mono_rel[rotated] simp: row_key_canonical assms(3))
  then show ?thesis
    unfolding rows_in_def by (intro sorted_wrt_filter) (simp add: sorted_wrt_map split_def)
qed

text \<open>
  A prefix scan returns the right rows in the right order. A scan that succeeds, without limit
  or with a positive one, returns the first \<open>limit\<close> rows of the list of all stored rows whose key
  extends the prefix (same namespace, same run unless the prefix leaves it open, path below the
  prefix's), in strictly ascending order of the encoded key, without duplicates or omissions.
\<close>
theorem embedded_scan_exact:
  assumes "embedded_inv K s" and "lim \<noteq> Some 0"
    and "embedded_scan_bytes R K \<lparr>range_prefix = p, range_limit = lim\<rparr> s = Inr rows"
  shows "\<exists>all. set all = {(k, v). embedded_view K s k = Some v \<and> key_has_prefix k p}
     \<and> sorted_wrt (\<lambda>x y. key_bytes K (fst x) < key_bytes K (fst y)) all
     \<and> rows = (case lim of None \<Rightarrow> all | Some n \<Rightarrow> take n all)"
proof -
  let ?rows = "redb_iter (table_rows (db s) (namespace p))"
  note scan = embedded_scan_Inr[OF assms(1,3), simplified]
  have inv: "db_inv K (db s)" using assms(1) by (simp add: embedded_inv_def)
  then have "rows_inv K ?rows" using scan(1) by (simp add: db_inv_def rows_inv_def redb_iter_def distinct_map)
  moreover have "sorted (map fst ?rows)" by (simp add: redb_iter_def)
  ultimately have "sorted_wrt (\<lambda>x y. key_bytes K (fst x) < key_bytes K (fst y)) (rows_in K p ?rows)"
    by (rule rows_in_sorted[OF _ _ scan(1)])
  moreover have "set ?rows = set (table_rows (db s) (namespace p))" by (simp add: redb_iter_def)
  ultimately show ?thesis
    using rows_in_set[OF inv scan(1), of ?rows] scan(2) assms(2)
    by (intro exI[of _ "rows_in K p ?rows"]) (simp add: embedded_view_def Let_def)
qed

theorem embedded_scan_exact_witness:
  "\<exists>all. set all = {(k, v). embedded_view demo_keys demo_store k = Some v
        \<and> key_has_prefix k \<lparr>namespace = ''work'', key_run = None, path = []\<rparr>}
     \<and> take 1 all = [(demo_key ''work'' ''a'', [9])]"
proof -
  have "embedded_scan_bytes faultless demo_keys
      \<lparr>range_prefix = \<lparr>namespace = ''work'', key_run = None, path = []\<rparr>, range_limit = Some 1\<rparr> demo_store
    = Inr [(demo_key ''work'' ''a'', [9])]" by code_simp
  from embedded_scan_exact[OF demo_inv _ this] obtain all where
    "set all = {(k, v). embedded_view demo_keys demo_store k = Some v
        \<and> key_has_prefix k \<lparr>namespace = ''work'', key_run = None, path = []\<rparr>}"
    "take 1 all = [(demo_key ''work'' ''a'', [9])]" by auto
  then show ?thesis by blast
qed

text \<open>Batched reads: the value every index should get, and what each loop writes.\<close>

definition row_value :: "key_codec \<Rightarrow> redb_db \<Rightarrow> storage_key \<Rightarrow> bytes option" where
  "row_value K d k = map_of (table_rows d (namespace k)) (key_bytes K k)"

definition groups_ok :: "storage_key list \<Rightarrow> (string \<times> nat list) list \<Rightarrow> bool" where
  "groups_ok owned groups \<longleftrightarrow> (\<forall>ns is. (ns, is) \<in> set groups \<longrightarrow> (\<forall>i \<in> set is. i < length owned \<and> namespace (owned ! i) = ns))"

definition grouped :: "(string \<times> nat list) list \<Rightarrow> nat \<Rightarrow> bool" where
  "grouped groups i \<longleftrightarrow> (\<exists>ns is. (ns, is) \<in> set groups \<and> i \<in> set is)"

lemma encode_key_Inr: "encode_key K k = Inr b \<Longrightarrow> b = key_bytes K k"
  by (auto simp: encode_key_def comp_iff key_bytes_def)

lemma read_indices_Inr:
  assumes "read_indices R K d ns owned is out = Inr out'" "length out = length owned"
    and "\<forall>i \<in> set is. i < length owned \<and> namespace (owned ! i) = ns" "j < length owned"
  shows "length out' = length owned \<and>
    out' ! j = (if j \<in> set is \<and> row_value K d (owned ! j) \<noteq> None then row_value K d (owned ! j) else out ! j)"
  using assms
proof (induction "is" arbitrary: out)
  case Nil
  then show ?case by simp
next
  case (Cons i "is")
  let ?out = "case row_value K d (owned ! i) of Some v \<Rightarrow> out[i := Some v] | None \<Rightarrow> out"
  from Cons.prems have "read_indices R K d ns owned is ?out = Inr out'"
    by (auto simp: comp_iff row_value_def dest!: encode_key_Inr)
  moreover have "length ?out = length owned" using Cons.prems(2) by (simp split: option.splits)
  moreover have "?out ! j = (if j = i \<and> row_value K d (owned ! j) \<noteq> None then row_value K d (owned ! j) else out ! j)"
    using Cons.prems(2-4) by (cases "row_value K d (owned ! i)") auto
  ultimately show ?case
    using Cons.IH[of ?out] Cons.prems(3,4) by auto
qed

lemma read_tables_Inr:
  assumes "read_tables R K d owned groups out = Inr out'" "length out = length owned" "groups_ok owned groups" "j < length owned"
  shows "length out' = length owned \<and>
    out' ! j = (if grouped groups j \<and> row_value K d (owned ! j) \<noteq> None then row_value K d (owned ! j) else out ! j)"
  using assms
proof (induction groups arbitrary: out)
  case Nil
  then show ?case by (simp add: grouped_def)
next
  case (Cons g groups)
  obtain ns "is" where g: "g = (ns, is)" by (cases g)
  have ok: "\<forall>i \<in> set is. i < length owned \<and> namespace (owned ! i) = ns" "groups_ok owned groups"
    using Cons.prems(3) by (auto simp: g groups_ok_def)
  show ?case
  proof (cases "d ns")
    case None
    then have "j \<in> set is \<Longrightarrow> row_value K d (owned ! j) = None"
      using ok(1) by (simp add: row_value_def table_rows_def)
    with None Cons.IH[of out] Cons.prems ok(2) show ?thesis
      by (auto simp: g grouped_def comp_iff)
  next
    case (Some rows)
    with Cons.prems(1) obtain out1 where out1: "read_indices R K d ns owned is out = Inr out1"
      and rest: "read_tables R K d owned groups out1 = Inr out'" by (auto simp: g comp_iff)
    with read_indices_Inr[OF out1 Cons.prems(2) ok(1) Cons.prems(4)] Cons.IH[of out1] ok(2) Cons.prems(4)
    show ?thesis by (auto simp: g grouped_def)
  qed
qed

definition by_table_ok :: "storage_key list \<Rightarrow> (string \<times> nat list) list \<Rightarrow> bool" where
  "by_table_ok ks acc \<longleftrightarrow> distinct (map fst acc) \<and> groups_ok ks acc \<and> (\<forall>i < length ks. grouped acc i)"

lemma map_of_update_group:
  assumes "distinct (map fst acc)"
  shows "set (AList.update ns is acc) = {(n, x) \<in> set acc. n \<noteq> ns} \<union> {(ns, is)}"
  using assms by (induction acc) (auto simp: image_iff)

lemma group_step:
  assumes "by_table_ok ks acc"
  shows "by_table_ok (ks @ [k]) (AList.update (namespace k)
    ((case map_of acc (namespace k) of None \<Rightarrow> [] | Some is \<Rightarrow> is) @ [length ks]) acc)"
proof -
  define cur where "cur = (case map_of acc (namespace k) of None \<Rightarrow> [] | Some is \<Rightarrow> is)"
  have dist: "distinct (map fst acc)" and ok: "groups_ok ks acc" and all: "\<And>i. i < length ks \<Longrightarrow> grouped acc i"
    using assms by (auto simp: by_table_ok_def)
  have cur: "\<And>is. (namespace k, is) \<in> set acc \<Longrightarrow> is = cur"
    using dist by (auto simp: cur_def)
  have curI: "\<And>i. i \<in> set cur \<Longrightarrow> i < length ks \<and> namespace (ks ! i) = namespace k"
    using ok unfolding cur_def groups_ok_def by (cases "map_of acc (namespace k)") (auto dest: map_of_SomeD)
  let ?acc = "AList.update (namespace k) (cur @ [length ks]) acc"
  note upd = map_of_update_group[OF dist, of "namespace k" "cur @ [length ks]"]
  have "groups_ok (ks @ [k]) ?acc"
    using ok curI by (fastforce simp: groups_ok_def upd nth_append)
  moreover have "grouped ?acc i" if "i < length (ks @ [k])" for i
  proof (cases "i = length ks")
    case True
    then show ?thesis
      unfolding grouped_def upd by (intro exI[of _ "namespace k"] exI[of _ "cur @ [length ks]"]) simp
  next
    case False
    with that obtain n "is" where "(n, is) \<in> set acc" "i \<in> set is" using all[of i] by (auto simp: grouped_def)
    then have "(n, is) \<in> set ?acc \<or> n = namespace k \<and> i \<in> set (cur @ [length ks])"
      using cur[of "is"] unfolding upd by auto
    then show ?thesis using \<open>i \<in> set is\<close> unfolding grouped_def upd by blast
  qed
  ultimately show ?thesis using distinct_update[OF dist] by (simp add: by_table_ok_def cur_def)
qed

lemma group_by_table_Cons:
  assumes "group_by_table i (k # ks) acc = Inr acc'"
  shows "namespace k \<in> set (butlast table_names)" "namespace k \<in> set table_names"
    and "group_by_table (Suc i) ks (AList.update (namespace k)
      ((case map_of acc (namespace k) of None \<Rightarrow> [] | Some is \<Rightarrow> is) @ [i]) acc) = Inr acc'"
  using assms by (auto simp: comp_iff table_for_def static_ns_def split: if_splits)

lemma group_by_table_Inr:
  assumes "group_by_table (length done) ks acc = Inr acc'" "by_table_ok done acc"
  shows "by_table_ok (done @ ks) acc' \<and> (\<forall>k \<in> set ks. namespace k \<in> set (butlast table_names))"
  using assms
proof (induction ks arbitrary: "done" acc)
  case Nil
  then show ?case by simp
next
  case (Cons k ks)
  note step = group_by_table_Cons[OF Cons.prems(1)]
  from Cons.IH[of "done @ [k]", OF _ group_step[OF Cons.prems(2)]] step(1,3) show ?case by simp
qed

lemma group_by_table_runs:
  "(\<forall>k \<in> set ks. namespace k \<in> set (butlast table_names)) \<Longrightarrow> \<exists>acc'. group_by_table i ks acc = Inr acc'"
proof (induction ks arbitrary: i acc)
  case (Cons k ks)
  then have "namespace k \<in> set table_names" by (auto dest: in_set_butlastD)
  with Cons show ?case by (simp add: table_for_def static_ns_def)
qed simp

definition hash_iter_ok :: "redb \<Rightarrow> bool" where
  "hash_iter_ok R \<longleftrightarrow> (\<forall>ns. set (hash_iter R ns) = set ns)"

lemma groups_reordered:
  assumes "by_table_ok ks acc" "set order = set (map fst acc)"
  defines "groups \<equiv> map (\<lambda>ns. (ns, the (map_of acc ns))) order"
  shows "groups_ok ks groups" "\<And>i. i < length ks \<Longrightarrow> grouped groups i"
proof -
  have "set groups = set acc"
  proof -
    have "set groups = (\<lambda>ns. (ns, the (map_of acc ns))) ` fst ` set acc" using assms(2) by (simp add: groups_def)
    also have "\<dots> = set acc" using assms(1) by (force simp: by_table_ok_def image_iff)
    finally show ?thesis .
  qed
  then show "groups_ok ks groups" "\<And>i. i < length ks \<Longrightarrow> grouped groups i"
    using assms(1) by (simp_all add: by_table_ok_def groups_ok_def grouped_def)
qed

lemma embedded_get_many_Inr:
  assumes "hash_iter_ok R" "\<forall>k \<in> set ks. embedded_okk K k" "embedded_get_many_bytes R K ks s = Inr vs"
  shows "vs = map (embedded_view K s) ks"
proof -
  obtain acc where acc: "group_by_table 0 ks [] = Inr acc"
    and vs: "read_tables R K (db s) ks (map (\<lambda>ns. (ns, the (map_of acc ns))) (hash_iter R (map fst acc)))
       (replicate (length ks) None) = Inr vs"
    using assms(3) by (auto simp: embedded_get_many_bytes_def comp_iff)
  have "by_table_ok ks acc"
    using group_by_table_Inr[of "[]" ks "[]" acc] acc by (simp add: by_table_ok_def groups_ok_def)
  note groups = groups_reordered[OF this, of "hash_iter R (map fst acc)"]
  have "length vs = length ks \<and> vs ! j = row_value K (db s) (ks ! j)" if "j < length ks" for j
    using read_tables_Inr[OF vs _ _ that] groups that assms(1) by (auto simp: hash_iter_ok_def)
  moreover have "row_value K (db s) (ks ! j) = embedded_view K s (ks ! j)" if "j < length ks" for j
    using that assms(2) by (simp add: row_value_def embedded_view_def db_view_def)
  ultimately have nth: "length vs = length ks \<and> vs ! j = embedded_view K s (ks ! j)" if "j < length ks" for j
    using that by simp
  have "hash_iter R [] = []" using assms(1) by (metis hash_iter_ok_def set_empty)
  then have "ks = [] \<Longrightarrow> vs = []" using vs acc by auto
  then have "length vs = length ks" using nth[of 0] by (cases ks) auto
  then show ?thesis using nth by (intro nth_equalityI) simp_all
qed

definition never_fails :: "redb \<Rightarrow> bool" where
  "never_fails R \<longleftrightarrow> (\<forall>c d. redb_error R c d = None) \<and> (\<forall>d. join_error R d = None)"

lemma never_fails_call: "never_fails R \<Longrightarrow> redb_call R what c d = Inr ()"
  by (simp add: never_fails_def redb_call_def)

lemma read_indices_runs:
  assumes "never_fails R" "\<forall>i \<in> set is. embedded_okk K (owned ! i)"
  shows "\<exists>out'. read_indices R K d ns owned is out = Inr out'"
  using assms by (induction "is" arbitrary: out) (auto simp: okk_steps redb_get_def never_fails_call)

lemma read_tables_runs:
  assumes "never_fails R" "\<forall>k \<in> set owned. embedded_okk K k" "groups_ok owned groups"
    and "fst ` set groups \<subseteq> set table_names"
  shows "\<exists>out'. read_tables R K d owned groups out = Inr out'"
  using assms(3,4)
proof (induction groups arbitrary: out)
  case (Cons g groups)
  obtain ns "is" where g: "g = (ns, is)" by (cases g)
  have "\<forall>i \<in> set is. embedded_okk K (owned ! i)" using Cons.prems assms(2) by (force simp: g groups_ok_def)
  from read_indices_runs[OF assms(1) this, of d ns out] obtain out1 where
    "read_indices R K d ns owned is out = Inr out1" by blast
  moreover have "groups_ok owned groups" using Cons.prems(1) by (simp add: groups_ok_def g)
  ultimately show ?case
    using Cons by (auto simp: g table_for_def never_fails_call[OF assms(1)] split: option.splits)
qed simp

lemma group_names:
  "group_by_table i ks acc = Inr acc' \<Longrightarrow> fst ` set acc' \<subseteq> fst ` set acc \<union> set table_names"
proof (induction ks arbitrary: i acc)
  case (Cons k ks)
  note step = group_by_table_Cons[OF Cons.prems]
  note Cons.IH[OF step(3)]
  also have "fst ` set (AList.update (namespace k) ((case map_of acc (namespace k) of None \<Rightarrow> [] | Some is \<Rightarrow> is) @ [i]) acc)
      \<union> set table_names \<subseteq> fst ` set acc \<union> set table_names"
    using step(2) by (simp only: dom_update) auto
  finally show ?case .
qed simp

lemma embedded_get_many_runs:
  assumes "never_fails R" "hash_iter_ok R" "\<forall>k \<in> set ks. embedded_okk K k \<and> namespace k \<noteq> ''eval_reports''"
  shows "\<exists>vs. embedded_get_many_bytes R K ks s = Inr vs"
proof -
  have "\<forall>k \<in> set ks. namespace k \<in> set (butlast table_names)"
    using assms(3) by (auto simp: embedded_okk_def table_names_def)
  then obtain acc where acc: "group_by_table 0 ks [] = Inr acc" using group_by_table_runs by blast
  then have "by_table_ok ks acc"
    using group_by_table_Inr[of "[]" ks "[]" acc] by (simp add: by_table_ok_def groups_ok_def)
  note groups = groups_reordered(1)[OF this, of "hash_iter R (map fst acc)"]
  have "fst ` set acc \<subseteq> set table_names" using group_names[OF acc] by simp
  with read_tables_runs[OF assms(1) _ groups, of K] assms(2,3) obtain vs where
    "read_tables R K (db s) ks (map (\<lambda>ns. (ns, the (map_of acc ns))) (hash_iter R (map fst acc)))
       (replicate (length ks) None) = Inr vs"
    by (fastforce simp: hash_iter_ok_def image_image)
  then show ?thesis
    using acc assms(1) by (simp add: embedded_get_many_bytes_def spawn_read_def never_fails_def redb_call_def)
qed

text \<open>
  A batched read is the sequence of its point reads. When redb and the runtime do not fail,
  \<open>get_many_bytes\<close> returns, in the order of the keys asked for, duplicates included, what the
  store holds at each of them, in whatever order the \<open>HashMap\<close> visits the tables; the keys must
  lie in registered namespaces other than \<open>eval_reports\<close>.
\<close>
theorem embedded_get_many_exact:
  assumes "never_fails R" "hash_iter_ok R" "\<forall>k \<in> set ks. embedded_okk K k \<and> namespace k \<noteq> ''eval_reports''"
  shows "embedded_get_many_bytes R K ks s = Inr (map (embedded_view K s) ks)"
  using embedded_get_many_runs[OF assms] embedded_get_many_Inr[OF assms(2)] assms(3) by blast

theorem embedded_get_many_exact_witness:
  "embedded_get_many_bytes faultless demo_keys [demo_key ''work'' ''b'', demo_key ''runs'' ''a'', demo_key ''work'' ''b''] demo_store
     = Inr (map (embedded_view demo_keys demo_store) [demo_key ''work'' ''b'', demo_key ''runs'' ''a'', demo_key ''work'' ''b''])"
proof (rule embedded_get_many_exact)
  show "never_fails faultless" "hash_iter_ok faultless"
    by (simp_all add: never_fails_def hash_iter_ok_def faultless_def)
  show "\<forall>k \<in> set [demo_key ''work'' ''b'', demo_key ''runs'' ''a'', demo_key ''work'' ''b''].
      embedded_okk demo_keys k \<and> namespace k \<noteq> ''eval_reports''"
    by code_simp
qed

text \<open>
  The namespace \<open>eval_reports\<close> has a table, so point reads of it work, but a batched read that
  contains one of its keys panics in the grouping loop and comes back as a join error.
\<close>

theorem embedded_get_many_eval_reports:
  assumes "never_fails R" "namespace k = ''eval_reports''"
  shows "\<exists>msg. embedded_get_many_bytes R K [k] s = Inl (internal (''join: task panicked: '' @ msg))"
  using assms
  by (simp add: embedded_get_many_bytes_def spawn_read_def never_fails_call table_for_def static_ns_def table_names_def)
    (simp add: never_fails_def)

end
