(* ===== verification/Lease.thy ===== *)
theory Lease
  imports Storage_Embedded
begin

text \<open>
  The coordinator lease (\<open>rollout-coordinator/src/lease.rs\<close>), the authoritative epoch row and the
  worker's epoch guard (\<open>epoch.rs\<close>) and the self-fence decision (\<open>fence.rs\<close>), over an arbitrary
  backend. A claim is one compare-and-swap transaction on the bytes read earlier, so an
  interleaving of coordinators is a sequence of claims, each with bytes that may be stale:
  \<open>lease_step\<close>. Clocks are arbitrary, so none of the safety results depends on their skew.
\<close>

section \<open>Keys and codecs\<close>

definition lease_key :: "run_id \<Rightarrow> storage_key" where
  "lease_key run = \<lparr>namespace = ''coordinator_lease'', key_run = Some run, path = []\<rparr>"

definition epoch_key :: "run_id \<Rightarrow> storage_key" where
  "epoch_key run = \<lparr>namespace = ''epoch'', key_run = Some run, path = []\<rparr>"

lemma lease_epoch_keys [simp]: "lease_key run \<noteq> epoch_key run'" "epoch_key run' \<noteq> lease_key run"
  by (simp_all add: lease_key_def epoch_key_def)

definition encode_lease :: "lease_record codec \<Rightarrow> lease_record \<Rightarrow> bytes res" where
  "encode_lease L rec = map_err internal (encode L rec)"

definition decode_lease :: "lease_record codec \<Rightarrow> bytes \<Rightarrow> lease_record res" where
  "decode_lease L b = map_err internal (decode L b)"

section \<open>The lease\<close>

definition commit_claim :: "('s, 't) storage_ops \<Rightarrow> lease_record codec \<Rightarrow> coord_epoch codec \<Rightarrow> run_id
    \<Rightarrow> bytes option \<Rightarrow> lease_record \<Rightarrow> ('s, bool) io" where
  "commit_claim S L E run expected next =
     bindS (liftE (encode_lease L next)) (\<lambda>new.
     bindS (readS (begin_txn S)) (\<lambda>txn.
     within (cas_bytes S (lease_key run) expected (Some new)) txn (\<lambda>won txn.
       if won then
         bindS (liftE (map_err internal (encode E (epoch next)))) (\<lambda>epoch_bytes.
         within (put_bytes S (epoch_key run) epoch_bytes) txn (\<lambda>_ txn.
         bindS (commit_txn S txn) (\<lambda>_. returnS won)))
       else bindS (abort_txn S txn) (\<lambda>_. returnS won))))"

text \<open>
  \<open>try_acquire\<close> reads the row and then claims on what it read. The second part is a definition of
  its own: it is what runs after another coordinator may have moved the row.
\<close>

definition acquire_from :: "('s, 't) storage_ops \<Rightarrow> lease_record codec \<Rightarrow> coord_epoch codec \<Rightarrow> run_id
    \<Rightarrow> u128 \<Rightarrow> worker_id \<Rightarrow> duration \<Rightarrow> bytes option \<Rightarrow> ('s, lease_record option) io" where
  "acquire_from S L E run now me ttl cur_bytes =
     (case cur_bytes of
        None \<Rightarrow>
          (let next = \<lparr>holder = me, epoch = CoordEpoch 0, expires_at_ms = now + as_millis ttl\<rparr>
           in bindS (commit_claim S L E run None next) (\<lambda>won. returnS (if won then Some next else None)))
      | Some prior \<Rightarrow>
          bindS (liftE (decode_lease L prior)) (\<lambda>cur.
            if expires_at_ms cur < now then
              (let next = \<lparr>holder = me, epoch = CoordEpoch (epoch_num (epoch cur) + 1),
                           expires_at_ms = now + as_millis ttl\<rparr>
               in bindS (commit_claim S L E run (Some prior) next) (\<lambda>won. returnS (if won then Some next else None)))
            else returnS None))"

definition try_acquire :: "('s, 't) storage_ops \<Rightarrow> lease_record codec \<Rightarrow> coord_epoch codec \<Rightarrow> run_id
    \<Rightarrow> u128 \<Rightarrow> worker_id \<Rightarrow> duration \<Rightarrow> ('s, lease_record option) io" where
  "try_acquire S L E run now me ttl =
     bindS (readS (get_bytes S (lease_key run))) (acquire_from S L E run now me ttl)"

definition renew :: "('s, 't) storage_ops \<Rightarrow> lease_record codec \<Rightarrow> coord_epoch codec \<Rightarrow> run_id
    \<Rightarrow> u128 \<Rightarrow> lease_record \<Rightarrow> duration \<Rightarrow> ('s, bool) io" where
  "renew S L E run now held ttl =
     (let next = \<lparr>holder = holder held, epoch = epoch held, expires_at_ms = now + as_millis ttl\<rparr>
      in bindS (liftE (encode_lease L held)) (\<lambda>expected. commit_claim S L E run (Some expected) next))"

definition current_lease :: "('s, 't) storage_ops \<Rightarrow> lease_record codec \<Rightarrow> run_id \<Rightarrow> 's \<Rightarrow> lease_record option res" where
  "current_lease S L run s =
     bindE (get_bytes S (lease_key run) s) (\<lambda>b. case b of
       Some bytes \<Rightarrow> bindE (decode_lease L bytes) (\<lambda>r. Inr (Some r))
     | None \<Rightarrow> Inr None)"

section \<open>Epochs\<close>

definition current_epoch :: "('s, 't) storage_ops \<Rightarrow> coord_epoch codec \<Rightarrow> run_id \<Rightarrow> 's \<Rightarrow> coord_epoch res" where
  "current_epoch S E run s =
     bindE (get_bytes S (epoch_key run) s) (\<lambda>b. case b of
       Some bytes \<Rightarrow> map_err (\<lambda>e. internal (''postcard CoordEpoch decode: '' @ e)) (decode E bytes)
     | None \<Rightarrow> Inr (CoordEpoch 0))"

definition stamp_epoch :: "'a \<Rightarrow> coord_epoch \<Rightarrow> 'a \<times> coord_epoch" where
  "stamp_epoch resp ep = (resp, ep)"

record epoch_guard =
  seen_max :: coord_epoch

definition epoch_guard_default :: epoch_guard where
  "epoch_guard_default = \<lparr>seen_max = CoordEpoch 0\<rparr>"

definition accept :: "coord_epoch \<Rightarrow> (epoch_guard, unit) io" where
  "accept resp_epoch = (\<lambda>g.
     if resp_epoch < seen_max g then
       (Inl (transient (''stale coord_epoch '' @ decimal (unat (epoch_num resp_epoch)) @ '' < seen_max ''
          @ decimal (unat (epoch_num (seen_max g))) @ '' (deposed coordinator)'') Never), g)
     else (Inr (), g\<lparr>seen_max := max (seen_max g) resp_epoch\<rparr>))"

section \<open>Self-fencing\<close>

text \<open>The observability sink is a trait object: its state and \<open>emit\<close> are parameters.\<close>

type_synonym 'm emitter = "event \<Rightarrow> ('m, unit) io"

datatype fence_decision = Abort

definition fence_event :: "systime \<Rightarrow> worker_id \<Rightarrow> run_id \<Rightarrow> coord_epoch \<Rightarrow> coord_epoch \<Rightarrow> event" where
  "fence_event ts coord_id run stale observed =
     \<lparr>ev_ts = ts, ev_kind = EvDomain ''coordinator_fenced'', ev_level = LError, ev_run = Some run,
      ev_worker = Some coord_id, ev_trace = None, ev_span = None, ev_plugin = None, ev_algorithm = None,
      ev_message = Some (''coordinator fenced: stale_epoch='' @ decimal (unat (epoch_num stale))
        @ '' < observed_epoch='' @ decimal (unat (epoch_num observed))),
      ev_attrs = JObj [(''stale_epoch'', JInt (uint (epoch_num stale))),
        (''observed_epoch'', JInt (uint (epoch_num observed)))]\<rparr>"

definition fence_old_coordinator :: "'m emitter \<Rightarrow> systime \<Rightarrow> worker_id \<Rightarrow> run_id \<Rightarrow> coord_epoch \<Rightarrow> coord_epoch
    \<Rightarrow> 'm \<Rightarrow> fence_decision \<times> 'm" where
  "fence_old_coordinator emit ts coord_id run stale observed m =
     (Abort, snd (emit (fence_event ts coord_id run stale observed) m))"

section \<open>Coordinators racing for the lease\<close>

text \<open>
  One step of the store under any number of coordinators and other clients of it: a claim with
  whatever row bytes its caller once read, a renewal of whatever record its caller believes to
  hold, or any transaction that leaves the two rows alone.
\<close>

inductive lease_step :: "('s, 't) storage_ops \<Rightarrow> ('s \<Rightarrow> store_view) \<Rightarrow> ('s \<Rightarrow> bool) \<Rightarrow> lease_record codec \<Rightarrow> coord_epoch codec
    \<Rightarrow> run_id \<Rightarrow> 's \<Rightarrow> 's \<Rightarrow> bool"
  for S view inv L E run where
  step_acquire: "acquire_from S L E run now me ttl cur s = (r, s') \<Longrightarrow> lease_step S view inv L E run s s'"
| step_renew: "renew S L E run now held ttl s = (r, s') \<Longrightarrow> lease_step S view inv L E run s s'"
| step_other: "inv s' \<Longrightarrow> view s' (lease_key run) = view s (lease_key run) \<Longrightarrow>
    view s' (epoch_key run) = view s (epoch_key run) \<Longrightarrow> lease_step S view inv L E run s s'"

definition lease_row :: "lease_record codec \<Rightarrow> run_id \<Rightarrow> store_view \<Rightarrow> lease_record option" where
  "lease_row L run v = (case v (lease_key run) of None \<Rightarrow> None
     | Some b \<Rightarrow> (case decode L b of Inl _ \<Rightarrow> None | Inr r \<Rightarrow> Some r))"

text \<open>The lease and the epoch row agree: both absent, or both present with the same epoch.\<close>

definition rows_in_sync :: "lease_record codec \<Rightarrow> coord_epoch codec \<Rightarrow> run_id \<Rightarrow> store_view \<Rightarrow> bool" where
  "rows_in_sync L E run v \<longleftrightarrow> (case (v (lease_key run), v (epoch_key run)) of
       (None, None) \<Rightarrow> True
     | (Some lb, Some eb) \<Rightarrow> (case (decode L lb, decode E eb) of (Inr r, Inr e) \<Rightarrow> epoch r = e | _ \<Rightarrow> False)
     | _ \<Rightarrow> False)"

text \<open>What one claim can do to the two rows.\<close>

definition claimed :: "lease_record codec \<Rightarrow> coord_epoch codec \<Rightarrow> run_id \<Rightarrow> bytes option \<Rightarrow> lease_record
    \<Rightarrow> store_view \<Rightarrow> store_view \<Rightarrow> bool" where
  "claimed L E run expected next v v' \<longleftrightarrow> v (lease_key run) = expected \<and>
     (\<exists>new eb. encode L next = Inr new \<and> encode E (epoch next) = Inr eb
        \<and> v' = v(lease_key run \<mapsto> new, epoch_key run \<mapsto> eb))"

lemma claimed_expected: "claimed L E run expected next v v' \<Longrightarrow> v (lease_key run) = expected"
  by (simp add: claimed_def)

context storage
begin

lemma commit_claim_outcomes:
  assumes "inv s" "okk (lease_key run)" "okk (epoch_key run)" "commit_claim S L E run expected next s = (r, s')"
  shows "inv s' \<and> (view s' = view s \<or> claimed L E run expected next (view s) (view s'))
     \<and> (r = Inr True \<longrightarrow> claimed L E run expected next (view s) (view s'))
     \<and> (r = Inr False \<longrightarrow> view s (lease_key run) \<noteq> expected \<and> view s' = view s)"
proof -
  consider (err) e where "r = Inl e" "s' = s"
    | (txn) new t won t1 where "encode L next = Inr new" "begin_txn S s = Inr t"
        "cas_bytes S (lease_key run) expected (Some new) t = (Inr won, t1)"
        "(if won then
           bindS (liftE (map_err internal (encode E (epoch next)))) (\<lambda>epoch_bytes.
           within (put_bytes S (epoch_key run) epoch_bytes) t1 (\<lambda>_ txn.
           bindS (commit_txn S txn) (\<lambda>_. returnS won)))
         else bindS (abort_txn S t1) (\<lambda>_. returnS won)) s = (r, s')"
    using assms(4) by (cases r)
      (auto simp: commit_claim_def encode_lease_def comp_iff bindS_eq_Inl within_eq_Inl map_err_eq_Inl)
  then show ?thesis
  proof cases
    case err
    with assms(1) show ?thesis by simp
  next
    case txn
    note t = begin_law[OF assms(1) txn(2)]
    then have t1: "tinv t1" "won = (view s (lease_key run) = expected)"
      "tview t1 = (if won then (view s)(lease_key run \<mapsto> new) else view s)"
      using cas_law[OF _ assms(2) txn(3)] by auto
    show ?thesis
    proof (cases won)
      case False
      with txn(4) obtain r0 where "abort_txn S t1 s = (r0, s')" "r = Inr False \<or> (\<exists>e. r = Inl e)"
        by (cases "abort_txn S t1 s") (auto simp: bindS_def split: sum.splits)
      with abort_law[OF assms(1)] t1 False show ?thesis by auto
    next
      case True
      then consider (err) e where "r = Inl e" "s' = s"
        | (commit) eb t2 r0 where "encode E (epoch next) = Inr eb" "put_bytes S (epoch_key run) eb t1 = (Inr (), t2)"
          "commit_txn S t2 s = (r0, s')" "r = Inr True \<and> r0 = Inr () \<or> (\<exists>e. r = Inl e)"
        using txn(4) by (cases r) (auto simp: comp_iff bindS_eq_Inl within_eq_Inl map_err_eq_Inl)
      then show ?thesis
      proof cases
        case err
        with assms(1) show ?thesis by simp
      next
        case commit
        note t2 = put_law[OF t1(1) assms(3) commit(2)]
        have "claimed L E run expected next (view s) (tview t2)"
          using t1 t2 True txn(1) commit(1) by (auto simp: claimed_def)
        with commit_law[OF assms(1) _ commit(3)] t2 commit(4) show ?thesis by auto
      qed
    qed
  qed
qed

lemma acquire_outcomes:
  assumes "inv s" "okk (lease_key run)" "okk (epoch_key run)" "acquire_from S L E run now me ttl cur s = (r, s')"
  shows "inv s' \<and> (view s' = view s \<or> (\<exists>next. claimed L E run cur next (view s) (view s')
     \<and> (case cur of None \<Rightarrow> epoch next = CoordEpoch 0
        | Some b \<Rightarrow> (\<exists>r0. decode L b = Inr r0 \<and> epoch next = CoordEpoch (epoch_num (epoch r0) + 1)))))"
proof (cases cur)
  case None
  then show ?thesis
    using assms(4) commit_claim_outcomes[OF assms(1-3)]
    by (cases r) (fastforce simp: acquire_from_def Let_def comp_iff bindS_eq_Inl)+
next
  case (Some prior)
  then show ?thesis
    using assms(4) assms(1) commit_claim_outcomes[OF assms(1-3)]
    by (cases r) (fastforce simp: acquire_from_def decode_lease_def Let_def comp_iff bindS_eq_Inl map_err_eq_Inl split: if_splits)+
qed

lemma renew_outcomes:
  assumes "inv s" "okk (lease_key run)" "okk (epoch_key run)" "renew S L E run now held ttl s = (r, s')"
  shows "inv s' \<and> (view s' = view s \<or> (\<exists>b next. encode L held = Inr b \<and> claimed L E run (Some b) next (view s) (view s')
     \<and> epoch next = epoch held \<and> holder next = holder held))"
    and "r = Inr True \<Longrightarrow> \<exists>b. encode L held = Inr b \<and> view s (lease_key run) = Some b"
proof -
  let ?next = "\<lparr>holder = holder held, epoch = epoch held, expires_at_ms = now + as_millis ttl\<rparr>"
  consider (err) e where "r = Inl e" "s' = s"
    | (claim) b where "encode L held = Inr b" "commit_claim S L E run (Some b) ?next s = (r, s')"
    using assms(4) by (cases "encode L held") (auto simp: renew_def encode_lease_def Let_def bindS_def)
  then have "(\<exists>e. r = Inl e) \<and> s' = s \<or> (\<exists>b. encode L held = Inr b \<and> inv s'
      \<and> (view s' = view s \<or> claimed L E run (Some b) ?next (view s) (view s'))
      \<and> (r = Inr True \<longrightarrow> view s (lease_key run) = Some b))"
  proof cases
    case claim
    note commit_claim_outcomes[OF assms(1-3) claim(2)]
    with claim(1) show ?thesis using claimed_expected by blast
  qed blast
  then show "inv s' \<and> (view s' = view s \<or> (\<exists>b next. encode L held = Inr b \<and> claimed L E run (Some b) next (view s) (view s')
     \<and> epoch next = epoch held \<and> holder next = holder held))"
    and "r = Inr True \<Longrightarrow> \<exists>b. encode L held = Inr b \<and> view s (lease_key run) = Some b"
    using assms(1) by fastforce+
qed

end

text \<open>What a claim that is not raced returns.\<close>

definition acquire_spec :: "lease_record option \<Rightarrow> u128 \<Rightarrow> worker_id \<Rightarrow> duration \<Rightarrow> lease_record option" where
  "acquire_spec row now me ttl = (case row of
       None \<Rightarrow> Some \<lparr>holder = me, epoch = CoordEpoch 0, expires_at_ms = now + as_millis ttl\<rparr>
     | Some r \<Rightarrow> if now \<le> expires_at_ms r then None
                 else Some \<lparr>holder = me, epoch = CoordEpoch (epoch_num (epoch r) + 1), expires_at_ms = now + as_millis ttl\<rparr>)"

text \<open>How the lease row of a run may move in one step.\<close>

definition row_move :: "lease_record option \<Rightarrow> lease_record option \<Rightarrow> bool" where
  "row_move x y \<longleftrightarrow> y = x \<or> (\<exists>r'. y = Some r' \<and>
     (case x of None \<Rightarrow> epoch r' = CoordEpoch 0
      | Some r \<Rightarrow> epoch r' = epoch r \<and> holder r' = holder r \<or> epoch r' = CoordEpoch (epoch_num (epoch r) + 1)))"

lemma claimed_rows:
  assumes "codec_ok L" "claimed L E run expected next v v'"
  shows "lease_row L run v' = Some next" "lease_row L run v = (case expected of None \<Rightarrow> None
     | Some b \<Rightarrow> (case decode L b of Inl _ \<Rightarrow> None | Inr r \<Rightarrow> Some r))"
    and "codec_ok E \<Longrightarrow> rows_in_sync L E run v'"
proof -
  from assms(2) obtain new eb where v: "v (lease_key run) = expected" "v' = v(lease_key run \<mapsto> new, epoch_key run \<mapsto> eb)"
    and enc: "encode L next = Inr new" "encode E (epoch next) = Inr eb" by (auto simp: claimed_def)
  have dec: "decode L new = Inr next" "codec_ok E \<Longrightarrow> decode E eb = Inr (epoch next)"
    using assms(1) enc by (auto intro: codec_okD)
  show "lease_row L run v' = Some next" "lease_row L run v = (case expected of None \<Rightarrow> None
     | Some b \<Rightarrow> (case decode L b of Inl _ \<Rightarrow> None | Inr r \<Rightarrow> Some r))" "codec_ok E \<Longrightarrow> rows_in_sync L E run v'"
    using v dec by (auto simp: lease_row_def rows_in_sync_def)
qed

context storage
begin

lemma lease_step_moves:
  assumes "codec_ok L" "codec_ok E" "okk (lease_key run)" "okk (epoch_key run)" "inv s"
    and "lease_step S view inv L E run s s'"
  shows "inv s' \<and> (view s (lease_key run) = None \<or> lease_row L run (view s) \<noteq> None
        \<longrightarrow> row_move (lease_row L run (view s)) (lease_row L run (view s')))
     \<and> (rows_in_sync L E run (view s) \<longrightarrow> rows_in_sync L E run (view s'))"
  using assms(6)
proof cases
  case (step_acquire now me ttl cur r)
  note out = acquire_outcomes[OF assms(5,3,4) this]
  show ?thesis
  proof (cases "view s' = view s")
    case True
    with out show ?thesis by (simp add: row_move_def)
  next
    case False
    with out obtain nxt where c: "claimed L E run cur nxt (view s) (view s')"
      and e: "case cur of None \<Rightarrow> epoch nxt = CoordEpoch 0
        | Some b \<Rightarrow> (\<exists>r0. decode L b = Inr r0 \<and> epoch nxt = CoordEpoch (epoch_num (epoch r0) + 1))" by blast
    with out claimed_rows[OF assms(1) c] assms(2) show ?thesis
      by (auto simp: row_move_def split: option.splits)
  qed
next
  case (step_renew now held ttl r)
  note out = renew_outcomes(1)[OF assms(5,3,4) this]
  show ?thesis
  proof (cases "view s' = view s")
    case True
    with out show ?thesis by (simp add: row_move_def)
  next
    case False
    with out obtain b nxt where "encode L held = Inr b" and c: "claimed L E run (Some b) nxt (view s) (view s')"
      and "epoch nxt = epoch held" "holder nxt = holder held" by blast
    with out claimed_rows[OF assms(1) c] assms(1,2) show ?thesis
      by (auto simp: row_move_def codec_okD)
  qed
next
  case step_other
  then show ?thesis by (auto simp: row_move_def lease_row_def rows_in_sync_def)
qed

lemma lease_steps_moves:
  assumes "codec_ok L" "codec_ok E" "okk (lease_key run)" "okk (epoch_key run)"
    and "(lease_step S view inv L E run ^^ n) s s'" "inv s" "lease_row L run (view s) = Some r"
    and "unat (epoch_num (epoch r)) + n < 2 ^ 64"
  shows "inv s' \<and> (\<exists>r'. lease_row L run (view s') = Some r' \<and> epoch r \<le> epoch r'
     \<and> unat (epoch_num (epoch r')) \<le> unat (epoch_num (epoch r)) + n \<and> (epoch r' = epoch r \<longrightarrow> holder r' = holder r))"
  using assms(5,8)
proof (induction n arbitrary: s')
  case 0
  then show ?case using assms by simp
next
  case (Suc n)
  then obtain s1 where s1: "(lease_step S view inv L E run ^^ n) s s1" and st: "lease_step S view inv L E run s1 s'"
    by auto
  from Suc.IH[OF s1] Suc.prems(2) obtain r1 where r1: "inv s1" "lease_row L run (view s1) = Some r1"
    "epoch r \<le> epoch r1" "unat (epoch_num (epoch r1)) \<le> unat (epoch_num (epoch r)) + n"
    "epoch r1 = epoch r \<longrightarrow> holder r1 = holder r" by auto
  have "unat (epoch_num (epoch r1) + 1) = unat (epoch_num (epoch r1)) + 1"
    using r1(4) Suc.prems(2) by (subst unat_word_ariths) simp
  moreover from lease_step_moves[OF assms(1-4) r1(1) st] r1(2)
  have "inv s'" "row_move (Some r1) (lease_row L run (view s'))" by auto
  ultimately show ?case
    using r1 by (auto simp: row_move_def coord_epoch_order word_le_nat_alt)
qed

lemma lease_steps_sync:
  assumes "codec_ok L" "codec_ok E" "okk (lease_key run)" "okk (epoch_key run)"
    and "(lease_step S view inv L E run)\<^sup>*\<^sup>* s s'" "inv s" "rows_in_sync L E run (view s)"
  shows "inv s' \<and> rows_in_sync L E run (view s')"
  using assms(5)
proof induction
  case base
  then show ?case using assms by simp
next
  case (step y z)
  then show ?case using lease_step_moves[OF assms(1-4), of y z] by blast
qed

lemma try_acquire_law:
  assumes "codec_ok L" "inv s" "okk (lease_key run)" "okk (epoch_key run)"
    and "try_acquire S L E run now me ttl s = (Inr res, s')"
  shows "inv s' \<and> res = acquire_spec (lease_row L run (view s)) now me ttl
     \<and> lease_row L run (view s') = (case res of None \<Rightarrow> lease_row L run (view s) | Some r \<Rightarrow> Some r)"
proof -
  from assms(5) have run: "acquire_from S L E run now me ttl (view s (lease_key run)) s = (Inr res, s')"
    using get_law[OF assms(2,3)] by (auto simp: try_acquire_def comp_iff)
  have claim: "acquire_spec (lease_row L run (view s)) now me ttl = Some nxt \<Longrightarrow> res = (if won then Some nxt else None) \<Longrightarrow>
      commit_claim S L E run (view s (lease_key run)) nxt s = (Inr won, s') \<Longrightarrow> ?thesis" for nxt won
    using commit_claim_outcomes[OF assms(2-4), of L E "view s (lease_key run)" nxt "Inr won" s']
      claimed_rows(1)[OF assms(1)] by (cases won) auto
  show ?thesis
  proof (cases "view s (lease_key run)")
    case None
    let ?next = "\<lparr>holder = me, epoch = CoordEpoch 0, expires_at_ms = now + as_millis ttl\<rparr>"
    from None run obtain won where "commit_claim S L E run None ?next s = (Inr won, s')" "res = (if won then Some ?next else None)"
      by (auto simp: acquire_from_def Let_def comp_iff)
    with None claim show ?thesis by (simp add: acquire_spec_def lease_row_def)
  next
    case (Some prior)
    with run obtain cur where "decode L prior = Inr cur" by (auto simp: acquire_from_def decode_lease_def comp_iff)
    with Some have row: "lease_row L run (view s) = Some cur" by (simp add: lease_row_def)
    show ?thesis
    proof (cases "expires_at_ms cur < now")
      case True
      let ?next = "\<lparr>holder = me, epoch = CoordEpoch (epoch_num (epoch cur) + 1), expires_at_ms = now + as_millis ttl\<rparr>"
      from True Some run \<open>decode L prior = Inr cur\<close> obtain won where
        "commit_claim S L E run (Some prior) ?next s = (Inr won, s')" "res = (if won then Some ?next else None)"
        by (auto simp: acquire_from_def decode_lease_def Let_def comp_iff)
      with True Some row claim show ?thesis by (simp add: acquire_spec_def not_le)
    next
      case False
      with run Some row \<open>decode L prior = Inr cur\<close> assms(2) show ?thesis
        by (auto simp: acquire_from_def acquire_spec_def decode_lease_def comp_iff)
    qed
  qed
qed

lemma renew_deposed:
  assumes "codec_ok L" "inv s" "okk (lease_key run)" "okk (epoch_key run)"
    and "lease_row L run (view s) = Some r" "epoch r \<noteq> epoch held"
    and "renew S L E run now held ttl s = (res, s')"
  shows "res \<noteq> Inr True \<and> view s' = view s"
proof -
  have "view s (lease_key run) \<noteq> Some b" if "encode L held = Inr b" for b
    using codec_okD[OF assms(1) that] assms(5,6) by (auto simp: lease_row_def)
  then show ?thesis using renew_outcomes[OF assms(2-4,7)] claimed_expected by blast
qed

end

section \<open>The lease over the redb backend\<close>

abbreviation embedded_lease_step ::
  "redb \<Rightarrow> key_codec \<Rightarrow> lease_record codec \<Rightarrow> coord_epoch codec \<Rightarrow> run_id \<Rightarrow> embedded_storage \<Rightarrow> embedded_storage \<Rightarrow> bool" where
  "embedded_lease_step R K L E run \<equiv> lease_step (embedded_ops R K) (embedded_view K) (embedded_inv K) L E run"

definition lease_keys_ok :: "key_codec \<Rightarrow> run_id \<Rightarrow> bool" where
  "lease_keys_ok K run \<longleftrightarrow> embedded_okk K (lease_key run) \<and> embedded_okk K (epoch_key run)"

text \<open>
  C2. One coordinator per epoch. Whatever coordinators do, in any interleaving, with stale reads,
  with clocks that disagree arbitrarily and with storage calls that fail anywhere, the lease row
  never disappears once written, its epoch never decreases, and at a given epoch the holder is
  always the same worker: a takeover is visible as a strictly higher epoch. (The epoch is a 64-bit
  counter; the hypothesis bounds the number of steps so that it cannot wrap.)
\<close>
theorem lease_one_holder_per_epoch:
  assumes "codec_ok L" "codec_ok E" "lease_keys_ok K run" "embedded_inv K s"
    and "(embedded_lease_step R K L E run ^^ n) s s'"
    and "lease_row L run (embedded_view K s) = Some r" "unat (epoch_num (epoch r)) + n < 2 ^ 64"
  shows "\<exists>r'. lease_row L run (embedded_view K s') = Some r' \<and> epoch r \<le> epoch r'
     \<and> (epoch r' = epoch r \<longrightarrow> holder r' = holder r)"
  using redb.lease_steps_moves[OF assms(1,2) _ _ assms(5,4,6,7)] assms(3) by (auto simp: lease_keys_ok_def)

text \<open>
  C9. A deposed coordinator stays deposed. Once the lease row carries a higher epoch than the
  record a coordinator holds, then after any further steps of any participants its renewal
  cannot succeed and cannot change the store: it returns \<open>false\<close> or an error, upon which the
  coordinator fences itself.
\<close>
theorem deposed_coordinator_cannot_renew:
  assumes "codec_ok L" "codec_ok E" "lease_keys_ok K run" "embedded_inv K s"
    and "lease_row L run (embedded_view K s) = Some r" "epoch held < epoch r"
    and "(embedded_lease_step R K L E run ^^ n) s s1" "unat (epoch_num (epoch r)) + n < 2 ^ 64"
    and "renew (embedded_ops R K) L E run now held ttl s1 = (res, s2)"
  shows "res \<noteq> Inr True \<and> embedded_view K s2 = embedded_view K s1"
proof -
  from redb.lease_steps_moves[OF assms(1,2) _ _ assms(7,4,5,8)] assms(3) obtain r1
    where "embedded_inv K s1" "lease_row L run (embedded_view K s1) = Some r1" "epoch r \<le> epoch r1"
    by (auto simp: lease_keys_ok_def)
  with assms(6) redb.renew_deposed[OF assms(1) _ _ _ _ _ assms(9)] assms(3) show ?thesis
    by (auto simp: lease_keys_ok_def)
qed

text \<open>
  C20. The epoch row is the lease's epoch. From a store in which the run has neither row, after any
  interleaving of coordinators, \<open>current_epoch\<close> reads the epoch of the record that
  \<open>CoordinatorLease::current\<close> reads, and zero while there is none: a restarted coordinator that
  reads the epoch row and one that reads the lease never disagree.
\<close>
theorem epoch_row_matches_lease:
  assumes "codec_ok L" "codec_ok E" "lease_keys_ok K run" "embedded_inv K s"
    and "embedded_view K s (lease_key run) = None" "embedded_view K s (epoch_key run) = None"
    and "(embedded_lease_step R K L E run)\<^sup>*\<^sup>* s s'"
    and "current_lease (embedded_ops R K) L run s' = Inr l" "current_epoch (embedded_ops R K) E run s' = Inr e"
  shows "e = (case l of None \<Rightarrow> CoordEpoch 0 | Some r \<Rightarrow> epoch r)"
proof -
  have ok: "embedded_okk K (lease_key run)" "embedded_okk K (epoch_key run)"
    using assms(3) by (simp_all add: lease_keys_ok_def)
  have "rows_in_sync L E run (embedded_view K s)" using assms(5,6) by (simp add: rows_in_sync_def)
  from redb.lease_steps_sync[OF assms(1,2) ok assms(7,4) this]
  have "rows_in_sync L E run (embedded_view K s')" by simp
  then show ?thesis
    using assms(8,9) by (auto simp: current_lease_def current_epoch_def decode_lease_def comp_iff rows_in_sync_def
        dest!: embedded_get_law[OF ok(1)] embedded_get_law[OF ok(2)] split: option.splits sum.splits)
qed

text \<open>
  What \<open>try_acquire\<close> does when nobody interferes. On an absent row it returns a fresh record at
  epoch zero, on an expired one a record with the epoch advanced by one, and on a live one nothing;
  what it returns is what the row now holds, and a row it did not win is as before.
\<close>
theorem try_acquire_behaviour:
  assumes "codec_ok L" "lease_keys_ok K run" "embedded_inv K s"
    and "try_acquire (embedded_ops R K) L E run now me ttl s = (Inr res, s')"
  shows "res = acquire_spec (lease_row L run (embedded_view K s)) now me ttl
     \<and> lease_row L run (embedded_view K s') = (case res of None \<Rightarrow> lease_row L run (embedded_view K s) | Some r \<Rightarrow> Some r)"
  using redb.try_acquire_law[OF assms(1,3) _ _ assms(4)] assms(2) by (simp add: lease_keys_ok_def)

text \<open>A store, its codecs and two coordinators, for the witnesses: the second steals the first's expired lease.\<close>

definition lease_demo_keys :: key_codec where
  "lease_demo_keys = table_codec [(Some (RunId 1), [])]"

definition lease_demo_codec :: "lease_record codec" where
  "lease_demo_codec = table_codec [\<lparr>holder = WorkerId 1, epoch = CoordEpoch 0, expires_at_ms = 50\<rparr>,
     \<lparr>holder = WorkerId 2, epoch = CoordEpoch 1, expires_at_ms = 110\<rparr>,
     \<lparr>holder = WorkerId 1, epoch = CoordEpoch 0, expires_at_ms = 130\<rparr>]"

definition epoch_demo_codec :: "coord_epoch codec" where
  "epoch_demo_codec = table_codec [CoordEpoch 0, CoordEpoch 1]"

definition empty_store :: embedded_storage where
  "empty_store = \<lparr>db = Map.empty, watchers = []\<rparr>"

abbreviation lease_demo_ops :: "(embedded_storage, embedded_txn) storage_ops" where
  "lease_demo_ops \<equiv> embedded_ops faultless lease_demo_keys"

definition lease_demo1 :: embedded_storage where
  "lease_demo1 = snd (acquire_from lease_demo_ops lease_demo_codec epoch_demo_codec (RunId 1) 40 (WorkerId 1) (from_millis 10) None empty_store)"

definition lease_demo2 :: embedded_storage where
  "lease_demo2 = snd (acquire_from lease_demo_ops lease_demo_codec epoch_demo_codec (RunId 1) 100 (WorkerId 2) (from_millis 10) (Some [0]) lease_demo1)"

lemma lease_demo_hyps:
  "codec_ok lease_demo_codec" "codec_ok epoch_demo_codec" "lease_keys_ok lease_demo_keys (RunId 1)"
  "embedded_inv lease_demo_keys empty_store" "embedded_inv lease_demo_keys lease_demo1"
  "lease_row lease_demo_codec (RunId 1) (embedded_view lease_demo_keys lease_demo1)
     = Some \<lparr>holder = WorkerId 1, epoch = CoordEpoch 0, expires_at_ms = 50\<rparr>"
  "lease_row lease_demo_codec (RunId 1) (embedded_view lease_demo_keys lease_demo2)
     = Some \<lparr>holder = WorkerId 2, epoch = CoordEpoch 1, expires_at_ms = 110\<rparr>"
  by (simp add: lease_demo_codec_def, simp add: epoch_demo_codec_def, code_simp+)

lemma lease_demo_step:
  "embedded_lease_step faultless lease_demo_keys lease_demo_codec epoch_demo_codec (RunId 1) lease_demo1 lease_demo2"
  unfolding lease_demo2_def by (rule lease_step.step_acquire[OF prod.collapse[symmetric]])

theorem lease_one_holder_per_epoch_witness:
  "\<exists>r'. lease_row lease_demo_codec (RunId 1) (embedded_view lease_demo_keys lease_demo2) = Some r'
     \<and> CoordEpoch 0 \<le> epoch r' \<and> (epoch r' = CoordEpoch 0 \<longrightarrow> holder r' = WorkerId 1)"
proof -
  have "(embedded_lease_step faultless lease_demo_keys lease_demo_codec epoch_demo_codec (RunId 1) ^^ 1) lease_demo1 lease_demo2"
    using lease_demo_step by (simp only: relpowp_1)
  from lease_one_holder_per_epoch[OF lease_demo_hyps(1-3,5) this lease_demo_hyps(6)] show ?thesis by simp
qed

lemma lease_demo2_inv: "embedded_inv lease_demo_keys lease_demo2"
  by code_simp

theorem deposed_coordinator_cannot_renew_witness:
  "fst (renew lease_demo_ops lease_demo_codec epoch_demo_codec (RunId 1) 120
     \<lparr>holder = WorkerId 1, epoch = CoordEpoch 0, expires_at_ms = 50\<rparr> (from_millis 10) lease_demo2) \<noteq> Inr True"
  using deposed_coordinator_cannot_renew[OF lease_demo_hyps(1-3) lease_demo2_inv lease_demo_hyps(7),
      where n = 0, OF _ _ _ prod.collapse[symmetric]]
  by (simp add: coord_epoch_order)

theorem epoch_row_matches_lease_witness:
  "current_epoch lease_demo_ops epoch_demo_codec (RunId 1) lease_demo1 = Inr (CoordEpoch 0)"
proof -
  let ?l = "Some \<lparr>holder = WorkerId 1, epoch = CoordEpoch 0, expires_at_ms = 50\<rparr>"
  have rows: "embedded_view lease_demo_keys empty_store (lease_key (RunId 1)) = None"
    "embedded_view lease_demo_keys empty_store (epoch_key (RunId 1)) = None" by code_simp+
  have steps: "(embedded_lease_step faultless lease_demo_keys lease_demo_codec epoch_demo_codec (RunId 1))\<^sup>*\<^sup>* empty_store lease_demo1"
    unfolding lease_demo1_def by (rule r_into_rtranclp) (rule lease_step.step_acquire[OF prod.collapse[symmetric]])
  have lease: "current_lease lease_demo_ops lease_demo_codec (RunId 1) lease_demo1 = Inr ?l" by code_simp
  have "isl (current_epoch lease_demo_ops epoch_demo_codec (RunId 1) lease_demo1) = False" by code_simp
  then obtain e where e: "current_epoch lease_demo_ops epoch_demo_codec (RunId 1) lease_demo1 = Inr e"
    by (cases "current_epoch lease_demo_ops epoch_demo_codec (RunId 1) lease_demo1") auto
  from epoch_row_matches_lease[OF lease_demo_hyps(1-4) rows steps lease e] e show ?thesis by simp
qed

theorem try_acquire_behaviour_witness:
  "Some \<lparr>holder = WorkerId 1, epoch = CoordEpoch 0, expires_at_ms = 50\<rparr>
     = acquire_spec (lease_row lease_demo_codec (RunId 1) (embedded_view lease_demo_keys empty_store)) 40 (WorkerId 1) (from_millis 10)"
proof -
  let ?run = "try_acquire lease_demo_ops lease_demo_codec epoch_demo_codec (RunId 1) 40 (WorkerId 1) (from_millis 10) empty_store"
  have "fst ?run = Inr (Some \<lparr>holder = WorkerId 1, epoch = CoordEpoch 0, expires_at_ms = 50\<rparr>)" by code_simp
  then have "?run = (Inr (Some \<lparr>holder = WorkerId 1, epoch = CoordEpoch 0, expires_at_ms = 50\<rparr>), snd ?run)"
    by (metis prod.collapse)
  from try_acquire_behaviour[OF lease_demo_hyps(1,3,4) this] show ?thesis by simp
qed

section \<open>The worker's epoch guard\<close>

text \<open>The guard after it has seen a sequence of responses, stale ones rejected.\<close>

definition after_responses :: "coord_epoch list \<Rightarrow> epoch_guard \<Rightarrow> epoch_guard" where
  "after_responses es g = fold (\<lambda>e g. snd (accept e g)) es g"

lemma accept_seen_max: "seen_max (snd (accept e g)) = max (seen_max g) e"
  by (auto simp: accept_def max_def)

lemma after_responses_max: "seen_max (after_responses es g) = fold max es (seen_max g)"
  unfolding after_responses_def
  by (induction es arbitrary: g) (simp_all add: accept_seen_max max.commute)

lemma fold_max_le: "fold max es (x :: 'a::linorder) \<le> e \<longleftrightarrow> x \<le> e \<and> (\<forall>y \<in> set es. y \<le> e)"
  by (induction es arbitrary: x) auto

text \<open>
  A worker believes no deposed coordinator. After any sequence of responses, a response is
  accepted exactly when its epoch is at least every epoch ever seen, rejected ones included, and
  at least the guard's seed; a response from a lower epoch is rejected with the guard unchanged.
\<close>
theorem epoch_guard_accepts_iff:
  "fst (accept e (after_responses es g)) = Inr () \<longleftrightarrow> (\<forall>x \<in> insert (seen_max g) (set es). x \<le> e)"
  using after_responses_max[of es g] fold_max_le[of es "seen_max g" e]
  by (auto simp: accept_def not_less)

theorem epoch_guard_accepts_iff_witness:
  "fst (accept (CoordEpoch 2) (after_responses [CoordEpoch 1, CoordEpoch 3] epoch_guard_default)) \<noteq> Inr ()"
  using epoch_guard_accepts_iff[of "CoordEpoch 2" "[CoordEpoch 1, CoordEpoch 3]" epoch_guard_default]
  by (simp add: coord_epoch_order epoch_guard_default_def)

end
