(* ===== verification/Work_Item.thy ===== *)
theory Work_Item
  imports Lease
begin

text \<open>
  The work-item state machine of \<open>rollout-coordinator/src/work_item.rs\<close>: every transition is one
  compare-and-swap on the exact bytes of the record the caller read earlier. Callers run it in a
  transaction that they commit when the swap won and abort otherwise (\<open>commit_if\<close>, the shape of
  \<open>steal.rs\<close> and \<open>mock_run.rs\<close>). Interleavings are sequences of such calls with arbitrary, possibly
  stale records.
\<close>

section \<open>Records and keys\<close>

datatype work_state =
    Pending
  | Running (running_worker: worker_id) (started_at_ms: u128)
  | Done (result_id: content_id)
  | Failed (reason: string)

record work_item_record =
  work_id :: content_id
  work_st :: work_state

definition work_key :: "run_id \<Rightarrow> content_id \<Rightarrow> storage_key" where
  "work_key run wid = \<lparr>namespace = ''work'', key_run = Some run, path = [''item'', content_id_to_string wid]\<rparr>"

definition work_prefix :: "run_id \<Rightarrow> key_range" where
  "work_prefix run = \<lparr>range_prefix = \<lparr>namespace = ''work'', key_run = Some run, path = [''item'']\<rparr>, range_limit = None\<rparr>"

definition encode_record :: "work_item_record codec \<Rightarrow> work_item_record \<Rightarrow> bytes res" where
  "encode_record W rec = map_err (\<lambda>e. internal (''postcard WorkItemRecord encode: '' @ e)) (encode W rec)"

definition decode_record :: "work_item_record codec \<Rightarrow> bytes \<Rightarrow> work_item_record res" where
  "decode_record W b = map_err (\<lambda>e. internal (''postcard WorkItemRecord decode: '' @ e)) (decode W b)"

definition is_pending :: "work_state \<Rightarrow> bool" where
  "is_pending st \<longleftrightarrow> (case st of Pending \<Rightarrow> True | _ \<Rightarrow> False)"

definition is_running :: "work_state \<Rightarrow> bool" where
  "is_running st \<longleftrightarrow> (case st of Running _ _ \<Rightarrow> True | _ \<Rightarrow> False)"

definition running_on :: "worker_id \<Rightarrow> work_item_record \<Rightarrow> bool" where
  "running_on w rec \<longleftrightarrow> (case work_st rec of Running w' _ \<Rightarrow> w' = w | _ \<Rightarrow> False)"

section \<open>Transitions\<close>

text \<open>The common tail of the three transitions: encode the prior and the next record, then swap.\<close>

definition cas_record :: "('s, 't) storage_ops \<Rightarrow> work_item_record codec \<Rightarrow> run_id \<Rightarrow> work_item_record
    \<Rightarrow> work_state \<Rightarrow> ('t, bool) io" where
  "cas_record S W run rec st =
     bindS (liftE (encode_record W rec)) (\<lambda>expected.
     bindS (liftE (encode_record W (rec\<lparr>work_st := st\<rparr>))) (\<lambda>new.
     cas_bytes S (work_key run (work_id rec)) (Some expected) (Some new)))"

definition try_claim :: "('s, 't) storage_ops \<Rightarrow> work_item_record codec \<Rightarrow> run_id \<Rightarrow> work_item_record
    \<Rightarrow> worker_id \<Rightarrow> u128 \<Rightarrow> ('t, bool) io" where
  "try_claim S W run rec w now_ms =
     (if \<not> is_pending (work_st rec) then returnS False
      else cas_record S W run rec (Running w now_ms))"

definition try_complete :: "('s, 't) storage_ops \<Rightarrow> work_item_record codec \<Rightarrow> run_id \<Rightarrow> work_item_record
    \<Rightarrow> content_id \<Rightarrow> ('t, bool) io" where
  "try_complete S W run rec result =
     (if \<not> is_running (work_st rec) then returnS False
      else cas_record S W run rec (Done result))"

definition try_repending :: "('s, 't) storage_ops \<Rightarrow> work_item_record codec \<Rightarrow> run_id \<Rightarrow> work_item_record
    \<Rightarrow> ('t, bool) io" where
  "try_repending S W run rec =
     (if \<not> is_running (work_st rec) then returnS False
      else cas_record S W run rec Pending)"

text \<open>The two swaps of one reassignment in \<open>handle_steal_request\<close>.\<close>

definition reassign :: "('s, 't) storage_ops \<Rightarrow> work_item_record codec \<Rightarrow> run_id \<Rightarrow> worker_id \<Rightarrow> u128
    \<Rightarrow> work_item_record \<Rightarrow> ('t, bool) io" where
  "reassign S W run thief now_ms rec =
     bindS (try_repending S W run rec) (\<lambda>ok.
       if \<not> ok then returnS False
       else try_claim S W run \<lparr>work_id = work_id rec, work_st = Pending\<rparr> thief now_ms)"

datatype work_op =
    ClaimOp work_item_record worker_id u128
  | CompleteOp work_item_record content_id
  | RependOp work_item_record
  | StealOp work_item_record worker_id u128

fun op_record :: "work_op \<Rightarrow> work_item_record" where
  "op_record (ClaimOp rec w n) = rec"
| "op_record (CompleteOp rec r) = rec"
| "op_record (RependOp rec) = rec"
| "op_record (StealOp rec w n) = rec"

fun op_txn :: "('s, 't) storage_ops \<Rightarrow> work_item_record codec \<Rightarrow> run_id \<Rightarrow> work_op \<Rightarrow> ('t, bool) io" where
  "op_txn S W run (ClaimOp rec w n) = try_claim S W run rec w n"
| "op_txn S W run (CompleteOp rec r) = try_complete S W run rec r"
| "op_txn S W run (RependOp rec) = try_repending S W run rec"
| "op_txn S W run (StealOp rec w n) = reassign S W run w n rec"

text \<open>Where an operation takes the record it was given, and from which states.\<close>

fun op_next :: "work_op \<Rightarrow> work_state" where
  "op_next (ClaimOp rec w n) = Running w n"
| "op_next (CompleteOp rec r) = Done r"
| "op_next (RependOp rec) = Pending"
| "op_next (StealOp rec w n) = Running w n"

fun op_guard :: "work_op \<Rightarrow> bool" where
  "op_guard (ClaimOp rec w n) = is_pending (work_st rec)"
| "op_guard (CompleteOp rec r) = is_running (work_st rec)"
| "op_guard (RependOp rec) = is_running (work_st rec)"
| "op_guard (StealOp rec w n) = is_running (work_st rec)"

definition work_row :: "work_item_record codec \<Rightarrow> run_id \<Rightarrow> content_id \<Rightarrow> store_view \<Rightarrow> work_item_record option" where
  "work_row W run wid v = (case v (work_key run wid) of None \<Rightarrow> None
     | Some b \<Rightarrow> (case decode W b of Inl _ \<Rightarrow> None | Inr r \<Rightarrow> Some r))"

definition swapped :: "work_item_record codec \<Rightarrow> run_id \<Rightarrow> work_item_record \<Rightarrow> work_state \<Rightarrow> store_view \<Rightarrow> store_view \<Rightarrow> bool" where
  "swapped W run rec st v v' \<longleftrightarrow> (\<exists>old new. encode W rec = Inr old \<and> v (work_key run (work_id rec)) = Some old
     \<and> encode W (rec\<lparr>work_st := st\<rparr>) = Inr new \<and> v' = v(work_key run (work_id rec) \<mapsto> new))"

lemma work_key_inj [simp]: "work_key run a = work_key run b \<longleftrightarrow> a = b"
  by (simp add: work_key_def)

lemma swapped_row:
  assumes "codec_ok W" "swapped W run rec st v v'"
  shows "work_row W run (work_id rec) v = Some rec" "work_row W run (work_id rec) v' = Some (rec\<lparr>work_st := st\<rparr>)"
    and "wid \<noteq> work_id rec \<Longrightarrow> work_row W run wid v' = work_row W run wid v"
  using assms by (auto simp: swapped_def work_row_def codec_okD)

lemma swapped_trans:
  assumes "swapped W run rec st v v'" "swapped W run (rec\<lparr>work_st := st\<rparr>) st' v' v''"
  shows "swapped W run rec st' v v''"
  using assms by (auto simp: swapped_def)

context storage
begin

lemma cas_record_law:
  assumes "tinv t" "okk (work_key run (work_id rec))" "cas_record S W run rec st t = (Inr won, t')"
  shows "tinv t' \<and> (if won then swapped W run rec st (tview t) (tview t') else tview t' = tview t)"
  using assms cas_law[OF assms(1,2)]
  by (fastforce simp: cas_record_def encode_record_def comp_iff swapped_def)

lemma op_txn_law:
  assumes "tinv t" "okk (work_key run (work_id (op_record op)))" "op_txn S W run op t = (Inr won, t')"
  shows "won \<longrightarrow> tinv t' \<and> op_guard op \<and> swapped W run (op_record op) (op_next op) (tview t) (tview t')"
proof (cases op)
  case (ClaimOp rec w n)
  then show ?thesis using assms cas_record_law[of t run rec W "Running w n" won t']
    by (auto simp: try_claim_def split: if_splits)
next
  case (CompleteOp rec r)
  then show ?thesis using assms cas_record_law[of t run rec W "Done r" won t']
    by (auto simp: try_complete_def split: if_splits)
next
  case (RependOp rec)
  then show ?thesis using assms cas_record_law[of t run rec W Pending won t']
    by (auto simp: try_repending_def split: if_splits)
next
  case (StealOp rec w n)
  show ?thesis
  proof
    assume won
    with assms(3) StealOp obtain t1 where run1: "is_running (work_st rec)" "cas_record S W run rec Pending t = (Inr True, t1)"
      and run2: "cas_record S W run \<lparr>work_id = work_id rec, work_st = Pending\<rparr> (Running w n) t1 = (Inr True, t')"
      by (auto simp: reassign_def try_repending_def try_claim_def is_pending_def comp_iff split: if_splits)
    have eq: "\<lparr>work_id = work_id rec, work_st = Pending\<rparr> = rec\<lparr>work_st := Pending\<rparr>" by (cases rec) simp
    from cas_record_law[OF assms(1) _ run1(2)] assms(2) StealOp
    have t1: "tinv t1" "swapped W run rec Pending (tview t) (tview t1)" by auto
    from cas_record_law[OF t1(1) _ run2] assms(2) StealOp
    have "tinv t'" "swapped W run (rec\<lparr>work_st := Pending\<rparr>) (Running w n) (tview t1) (tview t')" by (auto simp: eq)
    with swapped_trans[OF t1(2)] run1(1) StealOp
    show "tinv t' \<and> op_guard op \<and> swapped W run (op_record op) (op_next op) (tview t) (tview t')" by simp
  qed
qed

lemma work_call_outcomes:
  assumes "inv s" "okk (work_key run (work_id (op_record op)))" "commit_if S (op_txn S W run op) s = (r, s')"
  shows "inv s' \<and> (view s' = view s \<or> op_guard op \<and> swapped W run (op_record op) (op_next op) (view s) (view s'))
     \<and> (r = Inr True \<longrightarrow> op_guard op \<and> swapped W run (op_record op) (op_next op) (view s) (view s'))
     \<and> (r = Inr False \<longrightarrow> view s' = view s)"
  by (rule commit_if_outcomes[OF assms(1,3)]) (use op_txn_law[OF _ assms(2)] in metis)

end

section \<open>Interleavings\<close>

text \<open>
  A labelled step of the store: a call of the state machine with its result, or any transaction
  that leaves the work rows of the run alone. \<open>work_trace\<close> is a sequence of them.
\<close>

inductive work_step :: "('s, 't) storage_ops \<Rightarrow> ('s \<Rightarrow> store_view) \<Rightarrow> ('s \<Rightarrow> bool) \<Rightarrow> work_item_record codec \<Rightarrow> run_id
    \<Rightarrow> (work_op \<times> bool res) option \<Rightarrow> 's \<Rightarrow> 's \<Rightarrow> bool"
  for S view inv W run where
  step_call: "commit_if S (op_txn S W run op) s = (r, s') \<Longrightarrow> work_step S view inv W run (Some (op, r)) s s'"
| step_rest: "inv s' \<Longrightarrow> (\<And>wid. view s' (work_key run wid) = view s (work_key run wid)) \<Longrightarrow> work_step S view inv W run None s s'"

inductive work_trace :: "('s, 't) storage_ops \<Rightarrow> ('s \<Rightarrow> store_view) \<Rightarrow> ('s \<Rightarrow> bool) \<Rightarrow> work_item_record codec \<Rightarrow> run_id
    \<Rightarrow> (work_op \<times> bool res) option list \<Rightarrow> 's \<Rightarrow> 's \<Rightarrow> bool"
  for S view inv W run where
  trace_nil: "work_trace S view inv W run [] s s"
| trace_cons: "work_step S view inv W run l s s1 \<Longrightarrow> work_trace S view inv W run ls s1 s' \<Longrightarrow>
    work_trace S view inv W run (l # ls) s s'"

inductive_simps work_trace_simps: "work_trace S view ok W run [] s s'" "work_trace S view ok W run (l # ls) s s'"

fun label_key_ok :: "(storage_key \<Rightarrow> bool) \<Rightarrow> run_id \<Rightarrow> (work_op \<times> bool res) option \<Rightarrow> bool" where
  "label_key_ok okk run None = True"
| "label_key_ok okk run (Some (op, r)) = okk (work_key run (work_id (op_record op)))"

text \<open>The labels of calls that completed an item, and with which result.\<close>

fun completes :: "content_id \<Rightarrow> (work_op \<times> bool res) option \<Rightarrow> bool" where
  "completes wid (Some (CompleteOp rec res, Inr True)) = (work_id rec = wid)"
| "completes wid l = False"

text \<open>The edges of the state machine.\<close>

fun work_edge :: "work_state \<Rightarrow> work_state \<Rightarrow> bool" where
  "work_edge Pending (Running w n) = True"
| "work_edge (Running w n) (Done r) = True"
| "work_edge (Running w n) Pending = True"
| "work_edge (Running w n) (Running w' n') = True"
| "work_edge st st' = (st = st')"

lemma op_edge: "op_guard op \<Longrightarrow> work_edge (work_st (op_record op)) (op_next op)"
  by (cases op) (auto simp: is_pending_def is_running_def split: work_state.splits)

context storage
begin

lemma work_step_row:
  assumes "codec_ok W" "inv s" "label_key_ok okk run l" "work_step S view inv W run l s s'"
  shows "inv s' \<and> (work_row W run wid (view s') = work_row W run wid (view s)
     \<or> (\<exists>rec st. work_row W run wid (view s) = Some rec \<and> work_row W run wid (view s') = Some (rec\<lparr>work_st := st\<rparr>)
          \<and> work_edge (work_st rec) st \<and> work_id rec = wid))"
    and "completes wid l \<Longrightarrow> (\<exists>rec res. l = Some (CompleteOp rec res, Inr True) \<and> work_id rec = wid
       \<and> work_row W run wid (view s) = Some rec \<and> is_running (work_st rec)
       \<and> work_row W run wid (view s') = Some (rec\<lparr>work_st := Done res\<rparr>))"
proof -
  show "inv s' \<and> (work_row W run wid (view s') = work_row W run wid (view s)
     \<or> (\<exists>rec st. work_row W run wid (view s) = Some rec \<and> work_row W run wid (view s') = Some (rec\<lparr>work_st := st\<rparr>)
          \<and> work_edge (work_st rec) st \<and> work_id rec = wid))"
    using assms(4)
  proof cases
    case (step_call op r)
    from work_call_outcomes[OF assms(2) _ this(2)] assms(3) step_call(1) have inv: "inv s'"
      and "view s' = view s \<or> op_guard op \<and> swapped W run (op_record op) (op_next op) (view s) (view s')" by auto
    then show ?thesis
    proof (elim disjE conjE)
      assume "op_guard op" and sw: "swapped W run (op_record op) (op_next op) (view s) (view s')"
      then show ?thesis
        using inv swapped_row[OF assms(1) sw] op_edge by (cases "wid = work_id (op_record op)") auto
    qed (use inv in simp)
  next
    case step_rest
    then show ?thesis by (simp add: work_row_def)
  qed
  show "\<exists>rec res. l = Some (CompleteOp rec res, Inr True) \<and> work_id rec = wid
       \<and> work_row W run wid (view s) = Some rec \<and> is_running (work_st rec)
       \<and> work_row W run wid (view s') = Some (rec\<lparr>work_st := Done res\<rparr>)" if "completes wid l"
  proof -
    from that obtain rec res where l: "l = Some (CompleteOp rec res, Inr True)" "work_id rec = wid"
      by (cases "(wid, l)" rule: completes.cases) auto
    with assms(4) have call: "commit_if S (op_txn S W run (CompleteOp rec res)) s = (Inr True, s')"
      by (auto elim: work_step.cases)
    from work_call_outcomes[OF assms(2) _ call] assms(3) l
    have "is_running (work_st rec)" "swapped W run rec (Done res) (view s) (view s')" by auto
    with swapped_row(1,2)[OF assms(1)] l show ?thesis by blast
  qed
qed

lemma work_trace_inv:
  assumes "codec_ok W" "work_trace S view inv W run ls s s'" "inv s" "\<forall>l \<in> set ls. label_key_ok okk run l"
  shows "inv s'"
  using assms(2-4)
proof induction
  case (trace_cons l s s1 ls s')
  then show ?case using work_step_row(1)[OF assms(1) _ _ trace_cons.hyps(1)] by simp
qed

lemma done_is_final:
  assumes "codec_ok W" "work_trace S view inv W run ls s s'" "inv s" "\<forall>l \<in> set ls. label_key_ok okk run l"
    and "work_row W run wid (view s) = Some rec" "work_st rec = Done res"
  shows "work_row W run wid (view s') = Some rec \<and> filter (completes wid) ls = []"
  using assms(2-5)
proof induction
  case (trace_nil s)
  then show ?case by simp
next
  case (trace_cons l s s1 ls s')
  from work_step_row[OF assms(1) trace_cons.prems(1) _ trace_cons.hyps(1), of wid] trace_cons.prems
  have "inv s1" "work_row W run wid (view s1) = Some rec" and not: "\<not> completes wid l"
    using assms(6) by (auto simp: is_running_def split: work_state.splits)
  with trace_cons.IH trace_cons.prems(2) show ?case by simp
qed

lemma completions_le_one:
  assumes "codec_ok W" "work_trace S view inv W run ls s s'" "inv s" "\<forall>l \<in> set ls. label_key_ok okk run l"
  shows "filter (completes wid) ls = [] \<or> (\<exists>rec res. filter (completes wid) ls = [Some (CompleteOp rec res, Inr True)]
     \<and> work_id rec = wid \<and> work_row W run wid (view s') = Some (rec\<lparr>work_st := Done res\<rparr>))"
  using assms(2-4)
proof induction
  case (trace_nil s)
  then show ?case by simp
next
  case (trace_cons l s s1 ls s')
  note step = work_step_row[OF assms(1) trace_cons.prems(1) _ trace_cons.hyps(1), of wid]
  show ?case
  proof (cases "completes wid l")
    case True
    with step(2) trace_cons.prems(2) obtain rec res where l: "l = Some (CompleteOp rec res, Inr True)" "work_id rec = wid"
      and row: "work_row W run wid (view s1) = Some (rec\<lparr>work_st := Done res\<rparr>)" by auto
    from done_is_final[OF assms(1) trace_cons.hyps(2) _ _ row] step(1) trace_cons.prems(2)
    show ?thesis using True l by simp
  next
    case False
    with trace_cons.IH step(1) trace_cons.prems(2) show ?thesis by simp
  qed
qed

end

section \<open>The state machine over the redb backend\<close>

abbreviation embedded_work_trace :: "redb \<Rightarrow> key_codec \<Rightarrow> work_item_record codec \<Rightarrow> run_id
    \<Rightarrow> (work_op \<times> bool res) option list \<Rightarrow> embedded_storage \<Rightarrow> embedded_storage \<Rightarrow> bool" where
  "embedded_work_trace R K W run \<equiv> work_trace (embedded_ops R K) (embedded_view K) (embedded_inv K) W run"


text \<open>
  Done is terminal. Once the row of an item is \<open>Done\<close>, no sequence of state-machine calls by
  anybody changes the row or reports another completion.
\<close>
theorem work_done_is_terminal:
  assumes "codec_ok W" "embedded_inv K s" "\<forall>l \<in> set ls. label_key_ok (embedded_okk K) run l"
    and "work_row W run wid (embedded_view K s) = Some rec" "work_st rec = Done res"
    and "embedded_work_trace R K W run ls s s'"
  shows "work_row W run wid (embedded_view K s') = Some rec \<and> filter (completes wid) ls = []"
  using redb.done_is_final[OF assms(1,6,2,3,4,5)] .

text \<open>
  Calls follow the state machine and losers change nothing. A call in its transaction either
  leaves the store as it was, or moves exactly the row of its own item, from precisely the record
  it was given along an edge of the machine; \<open>Ok(true)\<close> means it did, \<open>Ok(false)\<close> that it did not.
\<close>
theorem work_call_follows_machine:
  assumes "codec_ok W" "embedded_inv K s" "embedded_okk K (work_key run (work_id (op_record op)))"
    and "commit_if (embedded_ops R K) (op_txn (embedded_ops R K) W run op) s = (r, s')"
  defines "moved \<equiv> work_row W run (work_id (op_record op)) (embedded_view K s) = Some (op_record op)
      \<and> work_row W run (work_id (op_record op)) (embedded_view K s') = Some ((op_record op)\<lparr>work_st := op_next op\<rparr>)
      \<and> work_edge (work_st (op_record op)) (op_next op)
      \<and> (\<forall>k. k \<noteq> work_key run (work_id (op_record op)) \<longrightarrow> embedded_view K s' k = embedded_view K s k)"
  shows "(embedded_view K s' = embedded_view K s \<or> moved) \<and> (r = Inr True \<longrightarrow> moved)
     \<and> (r = Inr False \<longrightarrow> embedded_view K s' = embedded_view K s)"
proof -
  have moved: "moved" if "op_guard op" "swapped W run (op_record op) (op_next op) (embedded_view K s) (embedded_view K s')"
    using swapped_row(1,2)[OF assms(1) that(2)] op_edge[OF that(1)] that(2) by (auto simp: moved_def swapped_def)
  then show ?thesis using redb.work_call_outcomes[OF assms(2,3,4)] by blast
qed

text \<open>An item claimed by one worker, stolen by another and acknowledged late by the first, for the witnesses.\<close>

definition work_demo_keys :: key_codec where
  "work_demo_keys = table_codec [(Some (RunId 1), [''item'', content_id_to_string (ContentId [5])])]"

definition work_demo_codec :: "work_item_record codec" where
  "work_demo_codec = table_codec [\<lparr>work_id = ContentId [5], work_st = Pending\<rparr>,
     \<lparr>work_id = ContentId [5], work_st = Running (WorkerId 1) 10\<rparr>,
     \<lparr>work_id = ContentId [5], work_st = Running (WorkerId 2) 20\<rparr>,
     \<lparr>work_id = ContentId [5], work_st = Done (ContentId [6])\<rparr>]"

definition work_demo_store :: embedded_storage where
  "work_demo_store = \<lparr>db = [''work'' \<mapsto> [([0], [1])]], watchers = []\<rparr>"

abbreviation work_demo_ops :: "(embedded_storage, embedded_txn) storage_ops" where
  "work_demo_ops \<equiv> embedded_ops faultless work_demo_keys"

definition work_demo_calls :: "work_op list" where
  "work_demo_calls =
     [StealOp \<lparr>work_id = ContentId [5], work_st = Running (WorkerId 1) 10\<rparr> (WorkerId 2) 20,
      CompleteOp \<lparr>work_id = ContentId [5], work_st = Running (WorkerId 1) 10\<rparr> (ContentId [6]),
      CompleteOp \<lparr>work_id = ContentId [5], work_st = Running (WorkerId 2) 20\<rparr> (ContentId [6])]"

text \<open>The states and labels of a sequence of calls.\<close>

fun run_calls :: "('s, 't) storage_ops \<Rightarrow> work_item_record codec \<Rightarrow> run_id \<Rightarrow> work_op list \<Rightarrow> 's
    \<Rightarrow> (work_op \<times> bool res) option list \<times> 's" where
  "run_calls S W run [] s = ([], s)"
| "run_calls S W run (op # ops) s =
     (case commit_if S (op_txn S W run op) s of (r, s1) \<Rightarrow>
        case run_calls S W run ops s1 of (ls, s') \<Rightarrow> (Some (op, r) # ls, s'))"

lemma run_calls_trace:
  "work_trace S view ok W run (fst (run_calls S W run ops s)) s (snd (run_calls S W run ops s))"
proof (induction ops arbitrary: s)
  case (Cons op ops)
  obtain r s1 where c: "commit_if S (op_txn S W run op) s = (r, s1)" by fastforce
  then have "work_step S view ok W run (Some (op, r)) s s1" by (rule step_call)
  with Cons[of s1] c show ?case by (auto simp: split_def intro: trace_cons)
qed (auto intro: trace_nil)

abbreviation work_demo_run :: "work_op list \<Rightarrow> embedded_storage \<Rightarrow> (work_op \<times> bool res) option list \<times> embedded_storage" where
  "work_demo_run \<equiv> run_calls work_demo_ops work_demo_codec (RunId 1)"

lemma work_demo_hyps:
  "codec_ok work_demo_codec" "embedded_inv work_demo_keys work_demo_store"
  "list_all (label_key_ok (embedded_okk work_demo_keys) (RunId 1)) (fst (work_demo_run work_demo_calls work_demo_store))"
  by (simp add: work_demo_codec_def, code_simp+)


theorem work_call_follows_machine_witness:
  "work_row work_demo_codec (RunId 1) (ContentId [5]) (embedded_view work_demo_keys work_demo_store)
     = Some \<lparr>work_id = ContentId [5], work_st = Running (WorkerId 1) 10\<rparr>"
proof -
  let ?op = "hd work_demo_calls"
  let ?c = "commit_if work_demo_ops (op_txn work_demo_ops work_demo_codec (RunId 1) ?op) work_demo_store"
  have "embedded_okk work_demo_keys (work_key (RunId 1) (work_id (op_record ?op)))" "fst ?c = Inr True" by code_simp+
  with work_call_follows_machine[OF work_demo_hyps(1,2) _ prod.collapse[symmetric], of "RunId 1" ?op faultless]
  show ?thesis by (simp add: work_demo_calls_def)
qed

theorem work_done_is_terminal_witness:
  "work_row work_demo_codec (RunId 1) (ContentId [5]) (embedded_view work_demo_keys
     (snd (work_demo_run work_demo_calls \<lparr>db = [''work'' \<mapsto> [([0], [3])]], watchers = []\<rparr>)))
     = Some \<lparr>work_id = ContentId [5], work_st = Done (ContentId [6])\<rparr>"
proof -
  let ?s = "\<lparr>db = [''work'' \<mapsto> [([0], [3])]], watchers = []\<rparr>"
  have "embedded_inv work_demo_keys ?s"
    "list_all (label_key_ok (embedded_okk work_demo_keys) (RunId 1)) (fst (work_demo_run work_demo_calls ?s))"
    "work_row work_demo_codec (RunId 1) (ContentId [5]) (embedded_view work_demo_keys ?s)
      = Some \<lparr>work_id = ContentId [5], work_st = Done (ContentId [6])\<rparr>"
    by code_simp+
  with work_done_is_terminal[OF work_demo_hyps(1) _ _ _ _ run_calls_trace] show ?thesis
    by (auto simp: list_all_iff)
qed

end
