(* ===== verification/Ledger.thy ===== *)
theory Ledger
  imports Work_Item
begin

text \<open>
  The dispatch queue and the backlog accounting (\<open>rollout-coordinator/src/ledger.rs\<close>), the steal
  protocol (\<open>steal.rs\<close>) and the replay of the ledger on boot (\<open>run.rs\<close>), over an arbitrary
  backend. Fresh ULIDs, the clock, blake3 and the iteration order of a \<open>HashMap\<close> are arguments.
\<close>

section \<open>The dispatch queue\<close>

definition queue_key :: "ulid_crate \<Rightarrow> run_id \<Rightarrow> ulid \<Rightarrow> storage_key" where
  "queue_key U run u = \<lparr>namespace = ''queue_items'', key_run = Some run, path = [''q'', ulid_to_string U u]\<rparr>"

definition queue_prefix :: "run_id \<Rightarrow> key_range" where
  "queue_prefix run = \<lparr>range_prefix = \<lparr>namespace = ''queue_items'', key_run = Some run, path = [''q'']\<rparr>, range_limit = None\<rparr>"

definition enqueue :: "('s, 't) storage_ops \<Rightarrow> ulid_crate \<Rightarrow> run_id \<Rightarrow> ulid \<Rightarrow> bytes \<Rightarrow> ('t, unit) io" where
  "enqueue S U run u payload = put_bytes S (queue_key U run u) payload"

text \<open>\<open>path.last()\<close>, the sort key of the two peeks; the sort is stable.\<close>

definition last_segment :: "storage_key \<Rightarrow> string option" where
  "last_segment k = (if path k = [] then None else Some (last (path k)))"

definition next_pending_entry :: "('s, 't) storage_ops \<Rightarrow> run_id \<Rightarrow> 's \<Rightarrow> (storage_key \<times> bytes) option res" where
  "next_pending_entry S run s =
     bindE (scan_bytes S (queue_prefix run) s) (\<lambda>entries.
     Inr (case sort_key (last_segment \<circ> fst) entries of [] \<Rightarrow> None | e # _ \<Rightarrow> Some e))"

definition next_pending :: "('s, 't) storage_ops \<Rightarrow> blake3 \<Rightarrow> run_id \<Rightarrow> 's \<Rightarrow> (content_id \<times> bytes) option res" where
  "next_pending S H run s =
     bindE (scan_bytes S (queue_prefix run) s) (\<lambda>entries.
     Inr (case sort_key (last_segment \<circ> fst) entries of
        [] \<Rightarrow> None
      | (_, payload) # _ \<Rightarrow> Some (content_id_of H payload, payload)))"

text \<open>\<open>dispatch\<close> stages into the caller's transaction and reads the committed store \<open>s\<close>.\<close>

definition dispatch :: "('s, 't) storage_ops \<Rightarrow> work_item_record codec \<Rightarrow> blake3 \<Rightarrow> run_id \<Rightarrow> worker_id \<Rightarrow> u128 \<Rightarrow> 's
    \<Rightarrow> ('t, content_id option) io" where
  "dispatch S W H run w now_ms s =
     bindS (liftE (next_pending_entry S run s)) (\<lambda>entry. case entry of
       None \<Rightarrow> returnS None
     | Some (entry_key, payload) \<Rightarrow>
         (let wid = content_id_of H payload; rec = \<lparr>work_id = wid, work_st = Pending\<rparr>
          in bindS (liftE (encode_record W rec)) (\<lambda>b.
             bindS (put_bytes S (work_key run wid) b) (\<lambda>_.
             bindS (try_claim S W run rec w now_ms) (\<lambda>won.
               if won then bindS (delete_key S entry_key) (\<lambda>_. returnS (Some wid))
               else returnS None)))))"

text \<open>The caller's side (\<open>mock_run.rs\<close>): commit when an item was dispatched, abort otherwise.\<close>

definition dispatch_txn :: "('s, 't) storage_ops \<Rightarrow> work_item_record codec \<Rightarrow> blake3 \<Rightarrow> run_id \<Rightarrow> worker_id \<Rightarrow> u128
    \<Rightarrow> ('s, content_id option) io" where
  "dispatch_txn S W H run w now_ms =
     bindS (readS (begin_txn S)) (\<lambda>txn.
     bindS (readS Inr) (\<lambda>s.
     within (dispatch S W H run w now_ms s) txn (\<lambda>r txn. case r of
       Some wid \<Rightarrow> bindS (commit_txn S txn) (\<lambda>_. returnS (Some wid))
     | None \<Rightarrow> bindS (abort_txn S txn) (\<lambda>_. returnS None))))"

section \<open>Backlogs\<close>

definition backlog :: "('s, 't) storage_ops \<Rightarrow> work_item_record codec \<Rightarrow> run_id \<Rightarrow> worker_id \<Rightarrow> 's \<Rightarrow> nat res" where
  "backlog S W run w s =
     bindE (scan_bytes S (work_prefix run) s) (\<lambda>entries.
     bindE (collectE (\<lambda>(_, b). decode_record W b) entries) (\<lambda>recs.
     Inr (length (filter (running_on w) recs))))"

text \<open>One iteration of the counting loop: \<open>*counts.entry(w).or_insert(0) += 1\<close>.\<close>

definition bump :: "worker_id \<Rightarrow> work_item_record \<Rightarrow> (worker_id \<times> nat) list \<Rightarrow> (worker_id \<times> nat) list" where
  "bump exclude rec counts = (case work_st rec of
       Running w _ \<Rightarrow> if w \<noteq> exclude
         then AList.update w ((case map_of counts w of None \<Rightarrow> 0 | Some n \<Rightarrow> n) + 1) counts else counts
     | _ \<Rightarrow> counts)"

text \<open>The comparison of \<open>busiest\<close>: by count, then by ULID.\<close>

definition busier :: "worker_id \<times> nat \<Rightarrow> worker_id \<times> nat \<Rightarrow> bool" where
  "busier a b \<longleftrightarrow> snd a < snd b \<or> snd a = snd b \<and> worker_ulid (fst a) \<le> worker_ulid (fst b)"

text \<open>\<open>Iterator::max_by\<close>: the last of the maximal elements.\<close>

fun max_by :: "('a \<Rightarrow> 'a \<Rightarrow> bool) \<Rightarrow> 'a list \<Rightarrow> 'a option" where
  "max_by le [] = None"
| "max_by le (x # xs) = Some (fold (\<lambda>y m. if le m y then y else m) xs x)"

definition busiest :: "('s, 't) storage_ops \<Rightarrow> work_item_record codec \<Rightarrow> ((worker_id \<times> nat) list \<Rightarrow> (worker_id \<times> nat) list)
    \<Rightarrow> run_id \<Rightarrow> worker_id \<Rightarrow> 's \<Rightarrow> (worker_id \<times> nat) option res" where
  "busiest S W iter run exclude s =
     bindE (scan_bytes S (work_prefix run) s) (\<lambda>entries.
     bindE (collectE (\<lambda>(_, b). decode_record W b) entries) (\<lambda>recs.
     Inr (max_by busier (iter (fold (bump exclude) recs [])))))"

section \<open>Stealing\<close>

definition max_steal_batch :: nat where
  "max_steal_batch = 32"

definition div_ceil :: "nat \<Rightarrow> nat \<Rightarrow> nat" where
  "div_ceil a b = (a + b - 1) div b"

fun steal_loop :: "('s, 't) storage_ops \<Rightarrow> work_item_record codec \<Rightarrow> run_id \<Rightarrow> worker_id \<Rightarrow> u128
    \<Rightarrow> work_item_record list \<Rightarrow> content_id list \<Rightarrow> ('s, content_id list) io" where
  "steal_loop S W run thief now_ms [] stolen = returnS stolen"
| "steal_loop S W run thief now_ms (rec # recs) stolen =
     bindS (commit_if S (reassign S W run thief now_ms rec)) (\<lambda>ok.
     steal_loop S W run thief now_ms recs (if ok then stolen @ [work_id rec] else stolen))"

definition victim_items :: "work_item_record codec \<Rightarrow> worker_id \<Rightarrow> (storage_key \<times> bytes) list \<Rightarrow> work_item_record list" where
  "victim_items W victim entries = sort_key (digest \<circ> work_id)
     (filter (running_on victim) (concat (map (\<lambda>(_, b). case decode W b of Inl _ \<Rightarrow> [] | Inr r \<Rightarrow> [r]) entries)))"

definition handle_steal_request :: "('s, 't) storage_ops \<Rightarrow> work_item_record codec
    \<Rightarrow> ((worker_id \<times> nat) list \<Rightarrow> (worker_id \<times> nat) list) \<Rightarrow> run_id \<Rightarrow> worker_id \<Rightarrow> u128 \<Rightarrow> ('s, content_id list) io" where
  "handle_steal_request S W iter run thief now_ms =
     bindS (readS (backlog S W run thief)) (\<lambda>n.
     if 0 < n then returnS [] else
     bindS (readS (busiest S W iter run thief)) (\<lambda>victim. case victim of
       None \<Rightarrow> returnS []
     | Some (victim, victim_backlog) \<Rightarrow>
         (let n = min (div_ceil victim_backlog 2) max_steal_batch
          in if n = 0 then returnS [] else
             bindS (readS (scan_bytes S (work_prefix run))) (\<lambda>entries.
             steal_loop S W run thief now_ms (take n (victim_items W victim entries)) []))))"

section \<open>Replay on boot\<close>

record replay_state =
  rs_epoch :: coord_epoch
  in_flight :: "content_id \<rightharpoonup> worker_id"
  rs_pending :: "content_id list"
  terminal :: nat

fun replay_row :: "work_item_record codec \<Rightarrow> storage_key \<times> bytes \<Rightarrow> replay_state \<Rightarrow> replay_state" where
  "replay_row W (_, b) st = (case decode W b of
       Inl _ \<Rightarrow> st
     | Inr rec \<Rightarrow> (case work_st rec of
         Running w _ \<Rightarrow> st\<lparr>in_flight := (in_flight st)(work_id rec \<mapsto> w)\<rparr>
       | Pending \<Rightarrow> st\<lparr>rs_pending := rs_pending st @ [work_id rec]\<rparr>
       | Done _ \<Rightarrow> st\<lparr>terminal := terminal st + 1\<rparr>
       | Failed _ \<Rightarrow> st\<lparr>terminal := terminal st + 1\<rparr>))"

definition replay_and_serve :: "('s, 't) storage_ops \<Rightarrow> work_item_record codec \<Rightarrow> lease_record codec \<Rightarrow> coord_epoch codec
    \<Rightarrow> run_id \<Rightarrow> u128 \<Rightarrow> worker_id \<Rightarrow> duration \<Rightarrow> ('s, replay_state option) io" where
  "replay_and_serve S W L E run now me ttl =
     bindS (try_acquire S L E run now me ttl) (\<lambda>held. case held of
       None \<Rightarrow> returnS None
     | Some held \<Rightarrow>
         (let st = \<lparr>rs_epoch = epoch held, in_flight = Map.empty, rs_pending = [], terminal = 0\<rparr>
          in bindS (readS (scan_bytes S (work_prefix run))) (\<lambda>entries.
             returnS (Some (fold (replay_row W) entries st)))))"

section \<open>The ledger a scan sees\<close>

text \<open>
  Every row below \<open>work/<run>/item\<close> is the encoding of a record, stored under the key of its own
  id: what \<open>dispatch\<close> and the state machine write.
\<close>

definition ledger_wf :: "work_item_record codec \<Rightarrow> run_id \<Rightarrow> store_view \<Rightarrow> bool" where
  "ledger_wf W run v \<longleftrightarrow> (\<forall>k b. v k = Some b \<longrightarrow> key_has_prefix k (range_prefix (work_prefix run)) \<longrightarrow>
     (\<exists>rec. encode W rec = Inr b \<and> k = work_key run (work_id rec)))"

lemma work_key_below_prefix [simp]: "key_has_prefix (work_key run wid) (range_prefix (work_prefix run))"
  by (simp add: work_key_def work_prefix_def key_has_prefix_def)

lemma ledger_wfD:
  assumes "codec_ok W" "ledger_wf W run v" "v k = Some b" "key_has_prefix k (range_prefix (work_prefix run))"
  shows "\<exists>rec. encode W rec = Inr b \<and> decode W b = Inr rec \<and> k = work_key run (work_id rec)"
  using assms codec_okD[OF assms(1)] unfolding ledger_wf_def by meson

text \<open>The items of the ledger that a worker runs.\<close>

definition running_ids :: "work_item_record codec \<Rightarrow> run_id \<Rightarrow> worker_id \<Rightarrow> store_view \<Rightarrow> content_id set" where
  "running_ids W run w v = {wid. \<exists>rec. work_row W run wid v = Some rec \<and> work_id rec = wid \<and> running_on w rec}"

definition decoded :: "work_item_record codec \<Rightarrow> (storage_key \<times> bytes) list \<Rightarrow> work_item_record list" where
  "decoded W rows = concat (map (\<lambda>(_, b). case decode W b of Inl _ \<Rightarrow> [] | Inr r \<Rightarrow> [r]) rows)"

lemma victim_items_decoded: "victim_items W victim rows = sort_key (digest \<circ> work_id) (filter (running_on victim) (decoded W rows))"
  by (simp add: victim_items_def decoded_def)

lemma decoded_all:
  assumes "\<And>k b. (k, b) \<in> set rows \<Longrightarrow> \<exists>rec. decode W b = Inr rec"
  shows "collectE (\<lambda>(_, b). decode_record W b) rows = Inr (decoded W rows)"
    and "decoded W rows = map (\<lambda>(_, b). projr (decode W b)) rows"
  using assms by (induction rows) (fastforce simp: decoded_def decode_record_def)+

context storage
begin

lemma ledger_scan:
  assumes "codec_ok W" "inv s" "ledger_wf W run (view s)" "scan_bytes S (work_prefix run) s = Inr rows"
  shows "collectE (\<lambda>(_, b). decode_record W b) rows = Inr (decoded W rows)"
    and "distinct (map work_id (decoded W rows))"
    and "rec \<in> set (decoded W rows) \<longleftrightarrow> work_row W run (work_id rec) (view s) = Some rec"
proof -
  have rows: "distinct (map fst rows)" "set rows = {(k, b). view s k = Some b \<and> key_has_prefix k (range_prefix (work_prefix run))}"
    using scan_rows[OF assms(2)] assms(4) by (simp_all add: work_prefix_def)
  have row: "\<exists>rec. encode W rec = Inr b \<and> decode W b = Inr rec \<and> k = work_key run (work_id rec)" if "(k, b) \<in> set rows" for k b
    using that rows(2) ledger_wfD[OF assms(1,3), of k b] by simp
  then have dec: "\<And>k b. (k, b) \<in> set rows \<Longrightarrow> \<exists>rec. decode W b = Inr rec" by blast
  note all = decoded_all[OF dec]
  show "collectE (\<lambda>(_, b). decode_record W b) rows = Inr (decoded W rows)" by (rule all(1))
  have keys: "fst x = work_key run (work_id (projr (decode W (snd x))))" if "x \<in> set rows" for x
    using row[of "fst x" "snd x"] that by auto
  then have "map fst rows = map (\<lambda>x. work_key run (work_id (projr (decode W (snd x))))) rows" by simp
  also have "\<dots> = map (work_key run) (map work_id (decoded W rows))" by (simp add: all(2) split_def comp_def)
  finally have "distinct (map (work_key run) (map work_id (decoded W rows)))" using rows(1) by (simp only:)
  then show "distinct (map work_id (decoded W rows))" unfolding distinct_map[of "work_key run"] by blast
  show "rec \<in> set (decoded W rows) \<longleftrightarrow> work_row W run (work_id rec) (view s) = Some rec"
  proof
    assume "rec \<in> set (decoded W rows)"
    then obtain k b where kb: "(k, b) \<in> set rows" "rec = projr (decode W b)" by (auto simp: all(2))
    from row[OF kb(1)] kb(2) have "decode W b = Inr rec" "k = work_key run (work_id rec)" by auto
    with kb(1) rows(2) show "work_row W run (work_id rec) (view s) = Some rec" by (auto simp: work_row_def)
  next
    assume "work_row W run (work_id rec) (view s) = Some rec"
    then obtain b where "view s (work_key run (work_id rec)) = Some b" "decode W b = Inr rec"
      by (auto simp: work_row_def split: option.splits sum.splits)
    then have "(work_key run (work_id rec), b) \<in> set rows" "rec = projr (decode W b)" using rows(2) by auto
    then show "rec \<in> set (decoded W rows)" by (force simp: all(2))
  qed
qed

lemma running_count:
  assumes "codec_ok W" "inv s" "ledger_wf W run (view s)" "scan_bytes S (work_prefix run) s = Inr rows"
  shows "card (running_ids W run w (view s)) = length (filter (running_on w) (decoded W rows))"
    and "running_ids W run w (view s) = work_id ` set (filter (running_on w) (decoded W rows))"
proof -
  note scan = ledger_scan[OF assms]
  show ids: "running_ids W run w (view s) = work_id ` set (filter (running_on w) (decoded W rows))"
    using scan(3) by (auto simp: running_ids_def)
  have "distinct (map work_id (filter (running_on w) (decoded W rows)))"
    using scan(2) by (rule distinct_map_filter)
  then show "card (running_ids W run w (view s)) = length (filter (running_on w) (decoded W rows))"
    unfolding ids by (metis distinct_card length_map list.set_map)
qed

lemma backlog_law:
  assumes "codec_ok W" "inv s" "ledger_wf W run (view s)" "backlog S W run w s = Inr n"
  shows "n = card (running_ids W run w (view s))"
  using assms(4) running_count(1)[OF assms(1-3)] ledger_scan(1)[OF assms(1-3)]
  by (auto simp: backlog_def comp_iff)

end

text \<open>Counting: after the loop the table maps every counted worker to its number of running records.\<close>

lemma running_on_iff: "running_on w rec \<longleftrightarrow> (\<exists>n. work_st rec = Running w n)"
  by (auto simp: running_on_def split: work_state.splits)

definition count_table :: "worker_id \<Rightarrow> work_item_record list \<Rightarrow> (worker_id \<times> nat) list \<Rightarrow> bool" where
  "count_table exclude recs counts \<longleftrightarrow> distinct (map fst counts) \<and>
     (\<forall>w. map_of counts w = (if w \<noteq> exclude \<and> filter (running_on w) recs \<noteq> []
        then Some (length (filter (running_on w) recs)) else None))"

lemma bump_table:
  assumes "count_table exclude recs counts"
  shows "count_table exclude (recs @ [rec]) (bump exclude rec counts)"
proof (cases "\<exists>w n. work_st rec = Running w n \<and> w \<noteq> exclude")
  case True
  then obtain w n where w: "work_st rec = Running w n" "w \<noteq> exclude" by blast
  let ?c = "case map_of counts w of None \<Rightarrow> 0 | Some n \<Rightarrow> n"
  have c: "?c = length (filter (running_on w) recs)" using assms w(2) by (auto simp: count_table_def)
  have "bump exclude rec counts = AList.update w (?c + 1) counts" using w by (simp add: bump_def)
  with assms w c show ?thesis by (auto simp: count_table_def distinct_update update_conv' running_on_iff)
next
  case False
  then have "bump exclude rec counts = counts" by (auto simp: bump_def split: work_state.splits)
  with False assms show ?thesis by (auto simp: count_table_def running_on_iff)
qed

lemma count_table_fold: "count_table exclude recs (fold (bump exclude) recs [])"
proof (induction recs rule: rev_induct)
  case Nil
  then show ?case by (simp add: count_table_def)
next
  case (snoc rec recs)
  then show ?case by (simp add: bump_table)
qed

lemma busier_total: "busier a b \<or> busier b a" and busier_trans: "busier a b \<Longrightarrow> busier b c \<Longrightarrow> busier a c"
  by (auto simp: busier_def)

lemma max_by_busier:
  assumes "max_by busier xs = Some m"
  shows "m \<in> set xs \<and> (\<forall>x \<in> set xs. busier x m)"
proof -
  have "(let r = fold (\<lambda>y m. if busier m y then y else m) ys x in r \<in> insert x (set ys) \<and> (\<forall>z \<in> insert x (set ys). busier z r))" for x ys
  proof (induction ys arbitrary: x)
    case Nil
    then show ?case by (simp add: busier_def)
  next
    case (Cons y ys)
    have "busier x (if busier x y then y else x)" "busier y (if busier x y then y else x)"
      using busier_total[of x y] by (auto simp: busier_def)
    with Cons[of "if busier x y then y else x"] show ?case
      by (auto simp: Let_def intro: busier_trans split: if_splits)
  qed
  with assms show ?thesis by (cases xs) (auto simp: Let_def)
qed

text \<open>A \<open>HashMap\<close> iterates over its entries in some order.\<close>

definition iter_ok :: "('a list \<Rightarrow> 'a list) \<Rightarrow> bool" where
  "iter_ok iter \<longleftrightarrow> (\<forall>xs. set (iter xs) = set xs)"

context storage
begin

lemma busiest_law:
  assumes "codec_ok W" "inv s" "ledger_wf W run (view s)" "iter_ok iter" "busiest S W iter run exclude s = Inr res"
  shows "case res of
      None \<Rightarrow> (\<forall>w. w \<noteq> exclude \<longrightarrow> running_ids W run w (view s) = {})
    | Some (w, n) \<Rightarrow> w \<noteq> exclude \<and> n = card (running_ids W run w (view s)) \<and> 0 < n
        \<and> (\<forall>w'. w' \<noteq> exclude \<longrightarrow> busier (w', card (running_ids W run w' (view s))) (w, n))"
proof -
  obtain rows where rows: "scan_bytes S (work_prefix run) s = Inr rows"
    and res: "res = max_by busier (iter (fold (bump exclude) (decoded W rows) []))"
    using assms(5) ledger_scan(1)[OF assms(1-3)] by (auto simp: busiest_def comp_iff)
  let ?counts = "fold (bump exclude) (decoded W rows) []"
  note count = running_count[OF assms(1-3) rows]
  have "count_table exclude (decoded W rows) ?counts" by (rule count_table_fold)
  then have dist: "distinct (map fst ?counts)" and tab: "map_of ?counts w = (if w \<noteq> exclude \<and> running_ids W run w (view s) \<noteq> {}
      then Some (card (running_ids W run w (view s))) else None)" for w
    using count[of w] by (auto simp: count_table_def)
  then have entries: "(w, n) \<in> set ?counts \<longleftrightarrow> w \<noteq> exclude \<and> running_ids W run w (view s) \<noteq> {} \<and> n = card (running_ids W run w (view s))" for w n
    using map_of_eq_Some_iff[OF dist, of w n] tab[of w] by (auto split: if_splits)
  have fin: "finite (running_ids W run w (view s))" for w unfolding count(2) by simp
  have set: "set (iter ?counts) = set ?counts" using assms(4) by (simp add: iter_ok_def)
  show ?thesis
  proof (cases res)
    case None
    then have "set ?counts = {}" using res set by (cases "iter ?counts") auto
    then show ?thesis using None entries by fastforce
  next
    case (Some m)
    obtain w n where m: "m = (w, n)" by (cases m)
    from max_by_busier[of "iter ?counts" m] Some res set have max: "(w, n) \<in> set ?counts" "\<forall>x \<in> set ?counts. busier x (w, n)"
      by (auto simp: m)
    then have n: "w \<noteq> exclude" "n = card (running_ids W run w (view s))" "0 < n" using entries fin by (auto simp: card_gt_0_iff)
    have "busier (w', card (running_ids W run w' (view s))) (w, n)" if "w' \<noteq> exclude" for w'
    proof (cases "running_ids W run w' (view s) = {}")
      case True
      then show ?thesis using n(3) by (simp add: busier_def)
    next
      case False
      then have "(w', card (running_ids W run w' (view s))) \<in> set ?counts" using entries that by simp
      then show ?thesis using max(2) by blast
    qed
    with n Some m show ?thesis by simp
  qed
qed

text \<open>What a finished steal did: each listed record went to the thief, everything else stayed.\<close>

lemma cas_record_wins:
  assumes "tinv t" "okk (work_key run (work_id rec))" "cas_record S W run rec st t = (Inr won, t')"
    and "tview t (work_key run (work_id rec)) = Some b" "encode W rec = Inr b"
  shows won
  using assms(3-5) cas_law[OF assms(1,2)] by (auto simp: cas_record_def encode_record_def comp_iff)

lemma reassign_call:
  assumes "codec_ok W" "inv s" "view s (work_key run (work_id rec)) = Some b" "encode W rec = Inr b"
    and "is_running (work_st rec)" "commit_if S (reassign S W run thief now rec) s = (Inr ok, s')"
  shows "inv s' \<and> ok \<and> swapped W run rec (Running thief now) (view s) (view s')"
proof -
  have okk: "okk (work_key run (work_id (op_record (StealOp rec thief now))))" using view_okk[OF assms(3)] by simp
  have call: "commit_if S (op_txn S W run (StealOp rec thief now)) s = (Inr ok, s')" using assms(6) by simp
  obtain t t1 where t: "begin_txn S s = Inr t" "op_txn S W run (StealOp rec thief now) t = (Inr ok, t1)"
    using call by (auto simp: commit_if_def comp_iff split: if_splits)
  note tv = begin_law[OF assms(2) t(1)]
  have eq: "\<lparr>work_id = work_id rec, work_st = Pending\<rparr> = rec\<lparr>work_st := Pending\<rparr>" by (cases rec) simp
  obtain c1 t2 where c1: "cas_record S W run rec Pending t = (Inr c1, t2)"
    and rest: "(if \<not> c1 then returnS False else try_claim S W run \<lparr>work_id = work_id rec, work_st = Pending\<rparr> thief now) t2 = (Inr ok, t1)"
    using t(2) assms(5) by (auto simp: reassign_def try_repending_def comp_iff)
  note rest = rest[unfolded eq]
  have "c1" using cas_record_wins[OF _ _ c1] tv okk assms(3,4) by simp
  then have t2: "tinv t2" "swapped W run rec Pending (view s) (tview t2)"
    using cas_record_law[OF _ _ c1] tv okk by auto
  have "cas_record S W run (rec\<lparr>work_st := Pending\<rparr>) (Running thief now) t2 = (Inr ok, t1)"
    using rest \<open>c1\<close> by (simp add: try_claim_def is_pending_def)
  from cas_record_wins[OF t2(1) _ this] t2(2) okk have ok by (auto simp: swapped_def)
  with work_call_outcomes[OF assms(2) okk call] show ?thesis by simp
qed

lemma swapped_ledger_wf:
  assumes "ledger_wf W run v" "swapped W run rec st v v'"
  shows "ledger_wf W run v'"
proof -
  from assms(2) obtain new where "encode W (rec\<lparr>work_st := st\<rparr>) = Inr new" "v' = v(work_key run (work_id rec) \<mapsto> new)"
    by (auto simp: swapped_def)
  then show ?thesis
    using assms(1) by (fastforce simp: ledger_wf_def)
qed

lemma steal_loop_law:
  assumes "codec_ok W" "inv s" "ledger_wf W run (view s)" "distinct (map work_id recs)"
    and "\<forall>rec \<in> set recs. work_row W run (work_id rec) (view s) = Some rec \<and> is_running (work_st rec)"
    and "steal_loop S W run thief now recs stolen s = (Inr res, s')"
  shows "inv s' \<and> ledger_wf W run (view s') \<and> res = stolen @ map work_id recs
    \<and> (\<forall>wid. work_row W run wid (view s') = (if wid \<in> work_id ` set recs
          then Some \<lparr>work_id = wid, work_st = Running thief now\<rparr> else work_row W run wid (view s)))
    \<and> (\<forall>k. k \<notin> work_key run ` work_id ` set recs \<longrightarrow> view s' k = view s k)"
  using assms(2-6)
proof (induction recs arbitrary: s stolen)
  case Nil
  then show ?case by simp
next
  case (Cons rec recs)
  obtain ok s1 where call: "commit_if S (reassign S W run thief now rec) s = (Inr ok, s1)"
    and rest: "steal_loop S W run thief now recs (if ok then stolen @ [work_id rec] else stolen) s1 = (Inr res, s')"
    using Cons.prems(5) by (auto simp: comp_iff)
  from Cons.prems(4) obtain b where b: "view s (work_key run (work_id rec)) = Some b" "decode W b = Inr rec"
    by (auto simp: work_row_def split: option.splits sum.splits)
  with ledger_wfD[OF assms(1) Cons.prems(2) b(1)] have "encode W rec = Inr b" by auto
  from reassign_call[OF assms(1) Cons.prems(1) b(1) this _ call] Cons.prems(4)
  have s1: "inv s1" ok "swapped W run rec (Running thief now) (view s) (view s1)" by auto
  note rows = swapped_row[OF assms(1) s1(3)]
  have wf1: "ledger_wf W run (view s1)" using swapped_ledger_wf[OF Cons.prems(2) s1(3)] .
  have "\<forall>r \<in> set recs. work_row W run (work_id r) (view s1) = Some r \<and> is_running (work_st r)"
    using Cons.prems(3,4) rows(3) by (fastforce simp: image_iff)
  note IH = Cons.IH[OF s1(1) wf1 _ this rest]
  have new: "rec\<lparr>work_st := Running thief now\<rparr> = \<lparr>work_id = work_id rec, work_st = Running thief now\<rparr>" by (cases rec) simp
  have frame: "view s1 k = view s k" if "k \<noteq> work_key run (work_id rec)" for k
    using s1(3) that by (auto simp: swapped_def)
  from IH Cons.prems(3) s1(2) rows(2,3) frame show ?case
    by (auto simp: new)
qed

lemma victim_items_law:
  fixes victim :: worker_id
  assumes "codec_ok W" "inv s" "ledger_wf W run (view s)" "scan_bytes S (work_prefix run) s = Inr rows"
  defines "items \<equiv> victim_items W victim rows"
  shows "distinct (map work_id items)" "work_id ` set items = running_ids W run victim (view s)"
    and "length items = card (running_ids W run victim (view s))" "sorted (map (digest \<circ> work_id) items)"
    and "\<forall>rec \<in> set items. work_row W run (work_id rec) (view s) = Some rec \<and> is_running (work_st rec)"
proof -
  note scan = ledger_scan[OF assms(1-4)] and count = running_count[OF assms(1-4), of victim]
  have items: "items = sort_key (digest \<circ> work_id) (filter (running_on victim) (decoded W rows))"
    by (simp add: items_def victim_items_decoded)
  have "distinct (map work_id (filter (running_on victim) (decoded W rows)))"
    using scan(2) by (rule distinct_map_filter)
  then have "distinct (filter (running_on victim) (decoded W rows)) \<and> inj_on work_id (set items)"
    unfolding distinct_map by (simp add: items)
  then show "distinct (map work_id items)" unfolding distinct_map by (simp add: items)
  show "work_id ` set items = running_ids W run victim (view s)" "length items = card (running_ids W run victim (view s))"
    using count by (simp_all add: items)
  show "sorted (map (digest \<circ> work_id) items)" by (simp only: items sorted_sort_key)
  show "\<forall>rec \<in> set items. work_row W run (work_id rec) (view s) = Some rec \<and> is_running (work_st rec)"
    using scan(3) by (auto simp: items running_on_def is_running_def split: work_state.splits)
qed

lemma handle_steal_request_law:
  assumes "codec_ok W" "inv s" "ledger_wf W run (view s)" "iter_ok iter"
    and "handle_steal_request S W iter run thief now s = (Inr stolen, s')"
  shows "inv s' \<and> (stolen = [] \<and> view s' = view s
        \<and> (running_ids W run thief (view s) \<noteq> {} \<or> (\<forall>w. w \<noteq> thief \<longrightarrow> running_ids W run w (view s) = {}))
    \<or> running_ids W run thief (view s) = {} \<and> (\<exists>victim. victim \<noteq> thief
        \<and> (\<forall>w. w \<noteq> thief \<longrightarrow> busier (w, card (running_ids W run w (view s))) (victim, card (running_ids W run victim (view s))))
        \<and> distinct stolen \<and> set stolen \<subseteq> running_ids W run victim (view s)
        \<and> length stolen = min (div_ceil (card (running_ids W run victim (view s))) 2) max_steal_batch
        \<and> (\<forall>wid. work_row W run wid (view s') = (if wid \<in> set stolen
              then Some \<lparr>work_id = wid, work_st = Running thief now\<rparr> else work_row W run wid (view s)))
        \<and> (\<forall>k. k \<notin> work_key run ` set stolen \<longrightarrow> view s' k = view s k)))"
proof -
  obtain n where n: "backlog S W run thief s = Inr n"
    and run: "(if 0 < n then returnS [] else
       bindS (readS (busiest S W iter run thief)) (\<lambda>victim. case victim of
         None \<Rightarrow> returnS []
       | Some (victim, victim_backlog) \<Rightarrow>
           (let n = min (div_ceil victim_backlog 2) max_steal_batch
            in if n = 0 then returnS [] else
               bindS (readS (scan_bytes S (work_prefix run))) (\<lambda>entries.
               steal_loop S W run thief now (take n (victim_items W victim entries)) [])))) s = (Inr stolen, s')"
    using assms(5) unfolding handle_steal_request_def by (auto simp: comp_iff)
  have n_card: "n = card (running_ids W run thief (view s))" using backlog_law[OF assms(1-3) n] .
  have fin: "finite (running_ids W run w (view s))" for w
    using n running_count(2)[OF assms(1-3)] by (auto simp: backlog_def comp_iff)
  show ?thesis
  proof (cases "0 < n")
    case True
    then show ?thesis using run n_card assms(2) by auto
  next
    case False
    then have idle: "running_ids W run thief (view s) = {}" using n_card fin by simp
    obtain v where v: "busiest S W iter run thief s = Inr v" using False run by (auto simp: comp_iff)
    note busy = busiest_law[OF assms(1-4) v]
    show ?thesis
    proof (cases v)
      case None
      then show ?thesis using False run v busy assms(2) by (auto simp: comp_iff)
    next
      case (Some vb)
      obtain victim b where vb: "vb = (victim, b)" by (cases vb)
      let ?n = "min (div_ceil b 2) max_steal_batch"
      have b: "victim \<noteq> thief" "b = card (running_ids W run victim (view s))" "0 < b"
        "\<forall>w. w \<noteq> thief \<longrightarrow> busier (w, card (running_ids W run w (view s))) (victim, b)"
        using busy Some vb by auto
      have "?n \<noteq> 0" using b(3) by (simp add: div_ceil_def max_steal_batch_def div_eq_0_iff)
      then obtain rows where rows: "scan_bytes S (work_prefix run) s = Inr rows"
        and loop: "steal_loop S W run thief now (take ?n (victim_items W victim rows)) [] s = (Inr stolen, s')"
        using False run v Some vb by (auto simp: comp_iff Let_def split: if_splits)
      note items = victim_items_law[OF assms(1-3) rows, of victim]
      let ?items = "take ?n (victim_items W victim rows)"
      have d: "distinct (map work_id ?items)" using items(1) by (metis distinct_take take_map)
      have r: "\<forall>rec \<in> set ?items. work_row W run (work_id rec) (view s) = Some rec \<and> is_running (work_st rec)"
        using items(5) by (auto dest: in_set_takeD)
      from steal_loop_law[OF assms(1-3) d r loop] have loop': "inv s'" "stolen = map work_id ?items"
        "\<forall>wid. work_row W run wid (view s') = (if wid \<in> set stolen
            then Some \<lparr>work_id = wid, work_st = Running thief now\<rparr> else work_row W run wid (view s))"
        "\<forall>k. k \<notin> work_key run ` set stolen \<longrightarrow> view s' k = view s k" by auto
      have "set stolen \<subseteq> running_ids W run victim (view s)"
        using items(2) loop'(2) set_take_subset[of ?n "victim_items W victim rows"] by auto
      moreover have "?n \<le> b" using b(3) by (simp add: div_ceil_def min_def) presburger
      then have "length stolen = ?n" using items(3) b(2) loop'(2) by simp
      ultimately show ?thesis using loop' d idle b by (intro conjI disjI2 exI[of _ victim]) auto
    qed
  qed
qed

text \<open>The queue rows a run has, and the effect of a dispatch.\<close>

lemma next_pending_entry_law:
  assumes "inv s" "next_pending_entry S run s = Inr e"
  shows "case e of
      None \<Rightarrow> {(k, p). view s k = Some p \<and> key_has_prefix k (range_prefix (queue_prefix run))} = {}
    | Some (k, p) \<Rightarrow> view s k = Some p \<and> key_has_prefix k (range_prefix (queue_prefix run))
        \<and> (\<forall>k' p'. view s k' = Some p' \<longrightarrow> key_has_prefix k' (range_prefix (queue_prefix run)) \<longrightarrow> last_segment k \<le> last_segment k')"
proof -
  obtain rows where rows: "scan_bytes S (queue_prefix run) s = Inr rows"
    and e: "e = (case sort_key (last_segment \<circ> fst) rows of [] \<Rightarrow> None | e # _ \<Rightarrow> Some e)"
    using assms(2) by (auto simp: next_pending_entry_def comp_iff)
  have set: "set rows = {(k, p). view s k = Some p \<and> key_has_prefix k (range_prefix (queue_prefix run))}"
    using scan_rows(2)[OF assms(1)] rows by (simp add: queue_prefix_def)
  show ?thesis
  proof (cases "sort_key (last_segment \<circ> fst) rows")
    case Nil
    then have "rows = []" by (metis length_0_conv length_sort)
    with set Nil e show ?thesis by simp
  next
    case (Cons x xs)
    have "sorted (map (last_segment \<circ> fst) (x # xs))" by (metis Cons sorted_sort_key)
    then have "\<forall>y \<in> set rows. last_segment (fst x) \<le> last_segment (fst y)"
      using set_sort[of "last_segment \<circ> fst" rows] unfolding Cons by auto
    moreover have "x \<in> set rows" using set_sort[of "last_segment \<circ> fst" rows] unfolding Cons by auto
    ultimately show ?thesis using set e Cons by (cases x) auto
  qed
qed

lemma dispatch_law:
  assumes "inv s" "tinv t" "tview t = view s"
    and "\<forall>k p. view s k = Some p \<longrightarrow> okk (work_key run (content_id_of H p))"
    and "dispatch S W H run w now s t = (Inr res, t')"
  shows "case res of
      None \<Rightarrow> {(k, p). view s k = Some p \<and> key_has_prefix k (range_prefix (queue_prefix run))} = {}
    | Some wid \<Rightarrow> tinv t' \<and> (\<exists>k p b. view s k = Some p \<and> key_has_prefix k (range_prefix (queue_prefix run))
        \<and> (\<forall>k' p'. view s k' = Some p' \<longrightarrow> key_has_prefix k' (range_prefix (queue_prefix run)) \<longrightarrow> last_segment k \<le> last_segment k')
        \<and> wid = content_id_of H p \<and> encode W \<lparr>work_id = wid, work_st = Running w now\<rparr> = Inr b
        \<and> tview t' = (view s)(work_key run wid \<mapsto> b, k := None))"
proof -
  obtain e where e: "next_pending_entry S run s = Inr e" using assms(5) by (auto simp: dispatch_def comp_iff)
  note entry = next_pending_entry_law[OF assms(1) e]
  show ?thesis
  proof (cases e)
    case None
    then show ?thesis using assms(5) e entry by (auto simp: dispatch_def comp_iff)
  next
    case (Some kp)
    obtain k p where kp: "kp = (k, p)" by (cases kp)
    let ?wid = "content_id_of H p"
    let ?rec = "\<lparr>work_id = ?wid, work_st = Pending\<rparr>"
    obtain b t1 won t2 where b: "encode W ?rec = Inr b" and t1: "put_bytes S (work_key run ?wid) b t = (Inr (), t1)"
      and t2: "cas_record S W run ?rec (Running w now) t1 = (Inr won, t2)"
      and rest: "(if won then bindS (delete_key S k) (\<lambda>_. returnS (Some ?wid)) else returnS None) t2 = (Inr res, t')"
      using assms(5) e Some kp by (auto simp: dispatch_def encode_record_def try_claim_def is_pending_def comp_iff Let_def)
    have okk: "okk (work_key run ?wid)" "okk k" using entry Some kp assms(4) view_okk by auto
    note put = put_law[OF assms(2) okk(1) t1]
    have won using cas_record_wins[OF _ _ t2] put okk(1) b by simp
    then have sw: "tinv t2" "swapped W run ?rec (Running w now) (tview t1) (tview t2)"
      using cas_record_law[OF _ _ t2] put okk(1) by auto
    from rest \<open>won\<close> have res: "res = Some ?wid" and del: "delete_key S k t2 = (Inr (), t')" by (auto simp: comp_iff)
    note gone = delete_law[OF sw(1) okk(2) del]
    from sw(2) put assms(3) gone obtain b' where "encode W \<lparr>work_id = ?wid, work_st = Running w now\<rparr> = Inr b'"
      "tview t' = (view s)(work_key run ?wid \<mapsto> b', k := None)" by (auto simp: swapped_def)
    then show ?thesis using res gone entry Some kp by auto
  qed
qed

lemma dispatch_txn_law:
  assumes "inv s" "\<forall>k p. view s k = Some p \<longrightarrow> okk (work_key run (content_id_of H p))"
    and "dispatch_txn S W H run w now s = (Inr res, s')"
  shows "inv s' \<and> (case res of
      None \<Rightarrow> view s' = view s \<and> {(k, p). view s k = Some p \<and> key_has_prefix k (range_prefix (queue_prefix run))} = {}
    | Some wid \<Rightarrow> (\<exists>k p b. view s k = Some p \<and> key_has_prefix k (range_prefix (queue_prefix run))
        \<and> (\<forall>k' p'. view s k' = Some p' \<longrightarrow> key_has_prefix k' (range_prefix (queue_prefix run)) \<longrightarrow> last_segment k \<le> last_segment k')
        \<and> wid = content_id_of H p \<and> encode W \<lparr>work_id = wid, work_st = Running w now\<rparr> = Inr b
        \<and> view s' = (view s)(work_key run wid \<mapsto> b, k := None)))"
proof -
  obtain t r t1 where t: "begin_txn S s = Inr t" and d: "dispatch S W H run w now s t = (Inr r, t1)"
    and rest: "(case r of Some wid \<Rightarrow> bindS (commit_txn S t1) (\<lambda>_. returnS (Some wid))
      | None \<Rightarrow> bindS (abort_txn S t1) (\<lambda>_. returnS None)) s = (Inr res, s')"
    using assms(3) by (auto simp: dispatch_txn_def comp_iff)
  note tv = begin_law[OF assms(1) t]
  note disp = dispatch_law[OF assms(1) _ _ assms(2) d]
  show ?thesis
  proof (cases r)
    case None
    then obtain u where "abort_txn S t1 s = (Inr u, s')" "res = None" using rest by (auto simp: comp_iff)
    with abort_law[OF assms(1)] disp tv None show ?thesis by auto
  next
    case (Some wid)
    then have c: "commit_txn S t1 s = (Inr (), s')" "res = Some wid" using rest by (auto simp: comp_iff)
    from disp tv Some have "tinv t1" by simp
    from commit_Inr[OF assms(1) this c(1)] disp tv Some c(2) show ?thesis by simp
  qed
qed

end

text \<open>Replaying decoded records.\<close>

definition is_terminal :: "work_state \<Rightarrow> bool" where
  "is_terminal st \<longleftrightarrow> (case st of Done _ \<Rightarrow> True | Failed _ \<Rightarrow> True | _ \<Rightarrow> False)"

lemma decoded_Cons:
  "decoded W ((k, b) # rows) = (case decode W b of Inl _ \<Rightarrow> [] | Inr r \<Rightarrow> [r]) @ decoded W rows"
  by (simp add: decoded_def)

lemma replay_lists:
  "rs_epoch (fold (replay_row W) rows st) = rs_epoch st"
  "rs_pending (fold (replay_row W) rows st) = rs_pending st @ map work_id (filter (is_pending \<circ> work_st) (decoded W rows))"
  "terminal (fold (replay_row W) rows st) = terminal st + length (filter (is_terminal \<circ> work_st) (decoded W rows))"
proof -
  have "rs_epoch (fold (replay_row W) rows st) = rs_epoch st
    \<and> rs_pending (fold (replay_row W) rows st) = rs_pending st @ map work_id (filter (is_pending \<circ> work_st) (decoded W rows))
    \<and> terminal (fold (replay_row W) rows st) = terminal st + length (filter (is_terminal \<circ> work_st) (decoded W rows))"
  proof (induction rows arbitrary: st)
    case Nil
    then show ?case by (simp add: decoded_def)
  next
    case (Cons row rows)
    obtain k b where row: "row = (k, b)" by (cases row)
    show ?case
      by (cases "decode W b")
        (simp_all add: row decoded_Cons Cons is_pending_def is_terminal_def split: work_state.split)
  qed
  then show "rs_epoch (fold (replay_row W) rows st) = rs_epoch st"
    "rs_pending (fold (replay_row W) rows st) = rs_pending st @ map work_id (filter (is_pending \<circ> work_st) (decoded W rows))"
    "terminal (fold (replay_row W) rows st) = terminal st + length (filter (is_terminal \<circ> work_st) (decoded W rows))"
    by simp_all
qed

lemma replay_in_flight:
  assumes "distinct (map work_id (decoded W rows))"
  shows "in_flight (fold (replay_row W) rows st) wid = Some w \<longleftrightarrow>
     (\<exists>rec \<in> set (decoded W rows). work_id rec = wid \<and> running_on w rec)
     \<or> in_flight st wid = Some w \<and> \<not> (\<exists>rec \<in> set (decoded W rows). work_id rec = wid \<and> is_running (work_st rec))"
  using assms
proof (induction rows arbitrary: st)
  case Nil
  then show ?case by (simp add: decoded_def)
next
  case (Cons row rows)
  obtain k b where row: "row = (k, b)" by (cases row)
  show ?case
  proof (cases "decode W b")
    case (Inl e)
    with Cons show ?thesis by (simp add: row decoded_Cons)
  next
    case (Inr rec)
    from Cons.prems have fresh: "\<And>r. r \<in> set (decoded W rows) \<Longrightarrow> work_id r \<noteq> work_id rec"
      "distinct (map work_id (decoded W rows))" by (auto simp: row decoded_Cons Inr image_iff)
    show ?thesis
      using Cons.IH[OF fresh(2), of "replay_row W row st"] fresh(1)
      by (cases "work_st rec") (auto simp: row decoded_Cons Inr running_on_def is_running_def)
  qed
qed

lemma ledger_wf_cong:
  assumes "\<And>k. namespace k = ''work'' \<Longrightarrow> v' k = v k"
  shows "ledger_wf W run v' = ledger_wf W run v" "work_row W run wid v' = work_row W run wid v"
    "running_ids W run w v' = running_ids W run w v"
proof -
  have ns: "namespace k = ''work''" if "key_has_prefix k (range_prefix (work_prefix run))" for k
    using that by (auto simp: key_has_prefix_def work_prefix_def split: if_splits)
  show "ledger_wf W run v' = ledger_wf W run v" unfolding ledger_wf_def using ns assms by metis
  have row: "work_row W run wid v' = work_row W run wid v" for wid
    using assms[of "work_key run wid"] by (simp add: work_row_def work_key_def)
  show "work_row W run wid v' = work_row W run wid v" by (rule row)
  show "running_ids W run w v' = running_ids W run w v" by (simp add: running_ids_def row)
qed

text \<open>The ids of the ledger whose record satisfies a predicate on states.\<close>

definition ids_where :: "(work_state \<Rightarrow> bool) \<Rightarrow> work_item_record codec \<Rightarrow> run_id \<Rightarrow> store_view \<Rightarrow> content_id set" where
  "ids_where P W run v = {wid. \<exists>rec. work_row W run wid v = Some rec \<and> work_id rec = wid \<and> P (work_st rec)}"

context storage
begin

lemma ids_where_scan:
  assumes "codec_ok W" "inv s" "ledger_wf W run (view s)" "scan_bytes S (work_prefix run) s = Inr rows"
  shows "ids_where P W run (view s) = set (map work_id (filter (P \<circ> work_st) (decoded W rows)))"
    and "distinct (map work_id (filter (P \<circ> work_st) (decoded W rows)))"
  using ledger_scan(3)[OF assms] distinct_map_filter[OF ledger_scan(2)[OF assms]]
  by (auto simp: ids_where_def)

lemma acquire_frame:
  assumes "inv s" "okk (lease_key run)" "okk (epoch_key run)" "try_acquire S L E run now me ttl s = (r, s')"
  shows "inv s' \<and> (\<forall>k. k \<noteq> lease_key run \<longrightarrow> k \<noteq> epoch_key run \<longrightarrow> view s' k = view s k)"
proof (cases "get_bytes S (lease_key run) s")
  case (Inl e)
  with assms(1,4) show ?thesis by (auto simp: try_acquire_def bindS_def)
next
  case (Inr b)
  with assms(4) have "acquire_from S L E run now me ttl b s = (r, s')" by (simp add: try_acquire_def bindS_def)
  from acquire_outcomes[OF assms(1-3) this] show ?thesis by (auto simp: claimed_def)
qed

lemma replay_law:
  assumes "codec_ok W" "codec_ok L" "inv s" "okk (lease_key run)" "okk (epoch_key run)" "ledger_wf W run (view s)"
    and "replay_and_serve S W L E run now me ttl s = (Inr (Some st), s')"
  shows "lease_row L run (view s') = Some \<lparr>holder = me, epoch = rs_epoch st, expires_at_ms = now + as_millis ttl\<rparr>
    \<and> (\<forall>wid w. in_flight st wid = Some w \<longleftrightarrow> wid \<in> running_ids W run w (view s))
    \<and> set (rs_pending st) = ids_where is_pending W run (view s) \<and> distinct (rs_pending st)
    \<and> terminal st = card (ids_where is_terminal W run (view s))
    \<and> (\<forall>k. k \<noteq> lease_key run \<longrightarrow> k \<noteq> epoch_key run \<longrightarrow> view s' k = view s k)"
proof -
  obtain held rows where acq: "try_acquire S L E run now me ttl s = (Inr (Some held), s')"
    and rows: "scan_bytes S (work_prefix run) s' = Inr rows"
    and st: "st = fold (replay_row W) rows \<lparr>rs_epoch = epoch held, in_flight = Map.empty, rs_pending = [], terminal = 0\<rparr>"
    using assms(7) by (auto simp: replay_and_serve_def comp_iff Let_def split: option.splits)
  have frame: "inv s'" "\<And>k. k \<noteq> lease_key run \<Longrightarrow> k \<noteq> epoch_key run \<Longrightarrow> view s' k = view s k"
    using acquire_frame[OF assms(3-5) acq] by auto
  have work: "namespace k = ''work'' \<Longrightarrow> view s' k = view s k" for k
    by (rule frame(2)) (auto simp: lease_key_def epoch_key_def)
  note same = ledger_wf_cong[of "view s'" "view s", OF work]
  have wf: "ledger_wf W run (view s')" using assms(6) same(1) by simp
  note scan = ledger_scan[OF assms(1) frame(1) wf rows] and ids = ids_where_scan[OF assms(1) frame(1) wf rows]
  have ids_eq: "ids_where P W run (view s') = ids_where P W run (view s)" for P
    by (simp add: ids_where_def same(2))
  have "lease_row L run (view s') = Some held" and "acquire_spec (lease_row L run (view s)) now me ttl = Some held"
    using try_acquire_law[OF assms(2-5) acq] by auto
  moreover from this(2) have "holder held = me" "expires_at_ms held = now + as_millis ttl"
    by (auto simp: acquire_spec_def split: option.splits if_splits)
  ultimately have lease: "lease_row L run (view s') = Some \<lparr>holder = me, epoch = rs_epoch st, expires_at_ms = now + as_millis ttl\<rparr>"
    using replay_lists(1)[of W rows] by (cases held) (simp add: st)
  have "in_flight st wid = Some w \<longleftrightarrow> wid \<in> running_ids W run w (view s)" for wid w
  proof -
    have "running_ids W run w (view s) = work_id ` set (filter (running_on w) (decoded W rows))"
      using running_count(2)[OF assms(1) frame(1) wf rows, of w] same(3)[of W run w] by simp
    then show ?thesis unfolding st replay_in_flight[OF scan(2)] by auto
  qed
  moreover have "set (rs_pending st) = ids_where is_pending W run (view s) \<and> distinct (rs_pending st)"
    using ids[of is_pending] ids_eq[of is_pending] by (simp add: st replay_lists(2))
  moreover have "terminal st = card (ids_where is_terminal W run (view s))"
    using distinct_card[OF ids(2)[of is_terminal]] ids(1)[of is_terminal] ids_eq[of is_terminal] by (simp add: st replay_lists(3))
  ultimately show ?thesis using lease frame(2) by blast
qed

end

section \<open>The ledger over the redb backend\<close>

text \<open>
  Dispatch hands out the oldest queue entry, whole. A dispatch transaction that succeeds with
  nothing means the queue of the run was empty and the store is unchanged. Otherwise it took the
  entry with the least ULID segment, its id is the hash of that entry's payload, and in one step
  the entry is gone and the item's row is \<open>Running\<close> for the asking worker: the claim inside the
  transaction never loses, and nothing else changes. The item's row is overwritten whatever it
  held before.
\<close>
theorem dispatch_takes_oldest:
  assumes "embedded_inv K s" "\<forall>k p. embedded_view K s k = Some p \<longrightarrow> embedded_okk K (work_key run (content_id_of H p))"
    and "dispatch_txn (embedded_ops R K) W H run w now s = (Inr res, s')"
  shows "case res of
      None \<Rightarrow> embedded_view K s' = embedded_view K s
        \<and> {(k, p). embedded_view K s k = Some p \<and> key_has_prefix k (range_prefix (queue_prefix run))} = {}
    | Some wid \<Rightarrow> (\<exists>k p b. embedded_view K s k = Some p \<and> key_has_prefix k (range_prefix (queue_prefix run))
        \<and> (\<forall>k' p'. embedded_view K s k' = Some p' \<longrightarrow> key_has_prefix k' (range_prefix (queue_prefix run))
             \<longrightarrow> last_segment k \<le> last_segment k')
        \<and> wid = content_id_of H p \<and> encode W \<lparr>work_id = wid, work_st = Running w now\<rparr> = Inr b
        \<and> embedded_view K s' = (embedded_view K s)(work_key run wid \<mapsto> b, k := None))"
  using redb.dispatch_txn_law[OF assms] by blast

text \<open>
  The backlog of a worker is the number of items its ledger rows say it runs.
\<close>
theorem backlog_counts_running:
  assumes "codec_ok W" "embedded_inv K s" "ledger_wf W run (embedded_view K s)"
    and "backlog (embedded_ops R K) W run w s = Inr n"
  shows "n = card (running_ids W run w (embedded_view K s))"
  using redb.backlog_law[OF assms] .

text \<open>
  The busiest peer is well defined. \<open>busiest\<close> returns nothing exactly when no worker but the
  excluded one runs anything; otherwise it returns another worker with its true, positive backlog,
  and every other worker has a smaller backlog, or the same one and a ULID that is not larger. The
  answer does not depend on the order in which the \<open>HashMap\<close> is iterated.
\<close>
theorem busiest_is_maximal:
  assumes "codec_ok W" "embedded_inv K s" "ledger_wf W run (embedded_view K s)" "iter_ok iter"
    and "busiest (embedded_ops R K) W iter run exclude s = Inr res"
  shows "case res of
      None \<Rightarrow> (\<forall>w. w \<noteq> exclude \<longrightarrow> running_ids W run w (embedded_view K s) = {})
    | Some (w, n) \<Rightarrow> w \<noteq> exclude \<and> n = card (running_ids W run w (embedded_view K s)) \<and> 0 < n
        \<and> (\<forall>w'. w' \<noteq> exclude \<longrightarrow> busier (w', card (running_ids W run w' (embedded_view K s))) (w, n))"
  using redb.busiest_law[OF assms] .

text \<open>
  C15. A steal moves the right items and only those. When a steal request succeeds, either it took
  nothing and the store is unchanged, because the thief was not idle or no other worker runs
  anything; or the thief was idle, the victim is a busiest other worker, and exactly half of the
  victim's items, rounded up and at most 32, all distinct and all the victim's, now run on the
  thief, while every other row of the store is as before.
\<close>
theorem steal_takes_half:
  assumes "codec_ok W" "embedded_inv K s" "ledger_wf W run (embedded_view K s)" "iter_ok iter"
    and "handle_steal_request (embedded_ops R K) W iter run thief now s = (Inr stolen, s')"
  shows "stolen = [] \<and> embedded_view K s' = embedded_view K s
        \<and> (running_ids W run thief (embedded_view K s) \<noteq> {} \<or> (\<forall>w. w \<noteq> thief \<longrightarrow> running_ids W run w (embedded_view K s) = {}))
    \<or> running_ids W run thief (embedded_view K s) = {} \<and> (\<exists>victim. victim \<noteq> thief
        \<and> (\<forall>w. w \<noteq> thief \<longrightarrow> busier (w, card (running_ids W run w (embedded_view K s))) (victim, card (running_ids W run victim (embedded_view K s))))
        \<and> distinct stolen \<and> set stolen \<subseteq> running_ids W run victim (embedded_view K s)
        \<and> length stolen = min (div_ceil (card (running_ids W run victim (embedded_view K s))) 2) max_steal_batch
        \<and> (\<forall>wid. work_row W run wid (embedded_view K s') = (if wid \<in> set stolen
              then Some \<lparr>work_id = wid, work_st = Running thief now\<rparr> else work_row W run wid (embedded_view K s)))
        \<and> (\<forall>k. k \<notin> work_key run ` set stolen \<longrightarrow> embedded_view K s' k = embedded_view K s k))"
  using redb.handle_steal_request_law[OF assms] by blast


text \<open>A ledger of three items, two of them run by the first worker, and a queue of two entries, for the witnesses.\<close>

definition ledger_item :: "u8 \<Rightarrow> work_state \<Rightarrow> work_item_record" where
  "ledger_item n st = \<lparr>work_id = ContentId [n], work_st = st\<rparr>"

definition ledger_demo_codec :: "work_item_record codec" where
  "ledger_demo_codec = table_codec [ledger_item 1 (Running (WorkerId 1) 10), ledger_item 2 (Running (WorkerId 1) 11),
     ledger_item 3 Pending, ledger_item 1 Pending, ledger_item 1 (Running (WorkerId 2) 20),
     ledger_item 9 Pending, ledger_item 9 (Running (WorkerId 2) 20)]"

definition ledger_demo_ulids :: ulid_crate where
  "ledger_demo_ulids = \<lparr>ulid_to_string = (\<lambda>u. decimal (unat u)), ulid_parse = (\<lambda>_. Inl ''unused'')\<rparr>"

definition ledger_demo_hash :: blake3 where
  "ledger_demo_hash b = b"

definition ledger_demo_keys :: key_codec where
  "ledger_demo_keys = table_codec ([(Some (RunId 1), [''item'', content_id_to_string (ContentId [1])]),
     (Some (RunId 1), [''item'', content_id_to_string (ContentId [2])]),
     (Some (RunId 1), [''item'', content_id_to_string (ContentId [3])]),
     (Some (RunId 1), [''item'', content_id_to_string (ContentId [9])]),
     (Some (RunId 1), [''q'', ''1'']), (Some (RunId 1), [''q'', ''2'']), (Some (RunId 1), []),
     (Some (RunId 1), [''item'', content_id_to_string (ContentId [0])])])"

definition ledger_demo_store :: embedded_storage where
  "ledger_demo_store = \<lparr>db = [''work'' \<mapsto> [([0], [0]), ([1], [1]), ([2], [2])]], watchers = []\<rparr>"

definition queue_demo_store :: embedded_storage where
  "queue_demo_store = \<lparr>db = [''queue_items'' \<mapsto> [([5], [9]), ([4], [9])]], watchers = []\<rparr>"

abbreviation ledger_demo_ops :: "(embedded_storage, embedded_txn) storage_ops" where
  "ledger_demo_ops \<equiv> embedded_ops faultless ledger_demo_keys"

text \<open>Executable checks of the hypotheses on a concrete database.\<close>

definition ledger_rows_ok :: "key_codec \<Rightarrow> work_item_record codec \<Rightarrow> run_id \<Rightarrow> redb_db \<Rightarrow> bool" where
  "ledger_rows_ok K W run d \<longleftrightarrow> list_all (\<lambda>(kb, b). case decode W b of Inl _ \<Rightarrow> False
     | Inr rec \<Rightarrow> encode W rec = Inr b \<and> row_key K ''work'' kb = work_key run (work_id rec)) (table_rows d ''work'')"

lemma ledger_wf_embedded:
  assumes "embedded_inv K s" "ledger_rows_ok K W run (db s)"
  shows "ledger_wf W run (embedded_view K s)"
  unfolding ledger_wf_def
proof (intro allI impI)
  fix k b assume v: "embedded_view K s k = Some b" and p: "key_has_prefix k (range_prefix (work_prefix run))"
  have "namespace k = ''work''" using p by (auto simp: key_has_prefix_def work_prefix_def split: if_splits)
  with v db_view_rows[of K "db s" "''work''"] assms(1)
  have "(k, b) \<in> set (map (\<lambda>(kb, v). (row_key K ''work'' kb, v)) (table_rows (db s) ''work''))"
    by (simp add: embedded_view_def embedded_inv_def table_names_def)
  then obtain kb where "(kb, b) \<in> set (table_rows (db s) ''work'')" "k = row_key K ''work'' kb" by auto
  then have "case decode W b of Inl _ \<Rightarrow> False | Inr rec \<Rightarrow> encode W rec = Inr b \<and> k = work_key run (work_id rec)"
    using assms(2) by (auto simp: ledger_rows_ok_def list_all_iff)
  then show "\<exists>rec. encode W rec = Inr b \<and> k = work_key run (work_id rec)" by (auto split: sum.splits)
qed

lemma embedded_view_value:
  assumes "embedded_view K s k = Some p" "list_all (\<lambda>ns. list_all (\<lambda>(kb, b). P b) (table_rows (db s) ns)) table_names"
  shows "P p"
  using assms by (force simp: embedded_view_def db_view_def embedded_okk_def list_all_iff split: if_splits dest!: map_of_SomeD)

lemma ledger_demo_hyps:
  "codec_ok ledger_demo_codec" "embedded_inv ledger_demo_keys ledger_demo_store"
  "ledger_wf ledger_demo_codec (RunId 1) (embedded_view ledger_demo_keys ledger_demo_store)" "iter_ok (\<lambda>x. x)"
proof -
  show "codec_ok ledger_demo_codec" "iter_ok (\<lambda>x. x)" by (simp_all add: ledger_demo_codec_def iter_ok_def)
  show inv: "embedded_inv ledger_demo_keys ledger_demo_store" by code_simp
  show "ledger_wf ledger_demo_codec (RunId 1) (embedded_view ledger_demo_keys ledger_demo_store)"
    by (rule ledger_wf_embedded[OF inv]) code_simp
qed

theorem backlog_counts_running_witness:
  "card (running_ids ledger_demo_codec (RunId 1) (WorkerId 1) (embedded_view ledger_demo_keys ledger_demo_store)) = 2"
proof -
  have "backlog ledger_demo_ops ledger_demo_codec (RunId 1) (WorkerId 1) ledger_demo_store = Inr 2" by code_simp
  from backlog_counts_running[OF ledger_demo_hyps(1-3) this] show ?thesis by simp
qed

theorem busiest_is_maximal_witness:
  "2 = card (running_ids ledger_demo_codec (RunId 1) (WorkerId 1) (embedded_view ledger_demo_keys ledger_demo_store))"
proof -
  have "busiest ledger_demo_ops ledger_demo_codec (\<lambda>x. x) (RunId 1) (WorkerId 2) ledger_demo_store = Inr (Some (WorkerId 1, 2))"
    by code_simp
  from busiest_is_maximal[OF ledger_demo_hyps this] show ?thesis by simp
qed

theorem steal_takes_half_witness:
  "work_row ledger_demo_codec (RunId 1) (ContentId [1]) (embedded_view ledger_demo_keys
     (snd (handle_steal_request ledger_demo_ops ledger_demo_codec (\<lambda>x. x) (RunId 1) (WorkerId 2) 20 ledger_demo_store)))
     = Some \<lparr>work_id = ContentId [1], work_st = Running (WorkerId 2) 20\<rparr>"
proof -
  let ?run = "handle_steal_request ledger_demo_ops ledger_demo_codec (\<lambda>x. x) (RunId 1) (WorkerId 2) 20 ledger_demo_store"
  have "fst ?run = Inr [ContentId [1]]" by code_simp
  then have "?run = (Inr [ContentId [1]], snd ?run)" by (metis prod.collapse)
  from steal_takes_half[OF ledger_demo_hyps this] show ?thesis by auto
qed


theorem dispatch_takes_oldest_witness:
  "\<exists>k b. last_segment k \<le> Some ''1'' \<and> embedded_view ledger_demo_keys
     (snd (dispatch_txn ledger_demo_ops ledger_demo_codec ledger_demo_hash (RunId 1) (WorkerId 2) 20 queue_demo_store))
     = (embedded_view ledger_demo_keys queue_demo_store)(work_key (RunId 1) (ContentId [9]) \<mapsto> b, k := None)"
proof -
  let ?run = "dispatch_txn ledger_demo_ops ledger_demo_codec ledger_demo_hash (RunId 1) (WorkerId 2) 20 queue_demo_store"
  let ?k1 = "\<lparr>namespace = ''queue_items'', key_run = Some (RunId 1), path = [''q'', ''1'']\<rparr>"
  have inv: "embedded_inv ledger_demo_keys queue_demo_store" by code_simp
  have ok: "\<forall>k p. embedded_view ledger_demo_keys queue_demo_store k = Some p \<longrightarrow>
      embedded_okk ledger_demo_keys (work_key (RunId 1) (content_id_of ledger_demo_hash p))"
    by (intro allI impI, erule embedded_view_value) code_simp
  have "fst ?run = Inr (Some (ContentId [9]))" by code_simp
  then have run: "?run = (Inr (Some (ContentId [9])), snd ?run)" by (metis prod.collapse)
  have k1: "embedded_view ledger_demo_keys queue_demo_store ?k1 = Some [9]"
    "key_has_prefix ?k1 (range_prefix (queue_prefix (RunId 1)))" by code_simp+
  have last: "last_segment ?k1 = Some ''1''" by (simp add: last_segment_def)
  from dispatch_takes_oldest[OF inv ok run] obtain k b where
    min: "\<forall>k' p'. embedded_view ledger_demo_keys queue_demo_store k' = Some p' \<longrightarrow>
        key_has_prefix k' (range_prefix (queue_prefix (RunId 1))) \<longrightarrow> last_segment k \<le> last_segment k'"
    and "embedded_view ledger_demo_keys (snd ?run)
      = (embedded_view ledger_demo_keys queue_demo_store)(work_key (RunId 1) (ContentId [9]) \<mapsto> b, k := None)"
    by auto
  moreover have "last_segment k \<le> Some ''1''" using min k1 last by metis
  ultimately show ?thesis by blast
qed

end
