(* ===== verification/Transport.thy ===== *)
theory Transport
  imports Core_Types
begin

text \<open>
  The transport layer of \<open>rollout-transport\<close>: timing configuration and its plan-time checks
  (\<open>config.rs\<close>), deadline-based health (\<open>health.rs\<close>), the protobuf conversions and the heartbeat
  service (\<open>channels/heartbeat.rs\<close>), and the control router (\<open>channels/control.rs\<close>). gRPC and TLS
  are not modelled; the coordinator behind the heartbeat service is a parameter.
\<close>

section \<open>Clock arithmetic\<close>

text \<open>
  \<open>SystemTime\<close> holds 64-bit signed seconds; adding a duration panics outside that range. The
  difference to a later time is an error, otherwise a duration.
\<close>

definition systime_max :: systime where
  "systime_max = (2 ^ 63 - 1) * 1000000000 + 999999999"

definition systime_ok :: "systime \<Rightarrow> bool" where
  "systime_ok t \<longleftrightarrow> - (2 ^ 63) * 1000000000 \<le> t \<and> t \<le> systime_max"

definition systime_add :: "systime \<Rightarrow> duration \<Rightarrow> 'e fault + systime" where
  "systime_add t d = (if t + int d \<le> systime_max then Inr (t + int d)
     else Inl (Panic ''overflow when adding duration to instant''))"

definition duration_since :: "systime \<Rightarrow> systime \<Rightarrow> duration option" where
  "duration_since t earlier = (if earlier \<le> t then Some (nat (t - earlier)) else None)"

section \<open>Configuration\<close>

record transport_config =
  listen_addr :: string
  tls_dir :: string
  heartbeat_interval :: duration
  worker_self_fence_timeout :: duration
  coordinator_failure_timeout :: duration
  clock_skew_budget :: duration

definition transport_config_default :: transport_config where
  "transport_config_default = \<lparr>listen_addr = ''127.0.0.1:50051'', tls_dir = ''./data/tls'',
     heartbeat_interval = from_millis 500, worker_self_fence_timeout = from_secs 4,
     coordinator_failure_timeout = from_secs 5, clock_skew_budget = from_millis 250\<rparr>"

definition fence_violation :: string where
  "fence_violation = ''transport.worker_self_fence_timeout must be strictly less than transport.coordinator_failure_timeout (split-brain prevention)''"

definition skew_violation :: string where
  "skew_violation = ''transport.clock_skew_budget must be less than 2 '' @ [CHR 0xC3, CHR 0x97] @ '' transport.heartbeat_interval''"

text \<open>The multiplication by two panics when the interval is that large.\<close>

definition validate_cross_fields :: "transport_config \<Rightarrow> string list fault + unit" where
  "validate_cross_fields c =
     (let errs = if coordinator_failure_timeout c \<le> worker_self_fence_timeout c then [fence_violation] else []
      in bindE (duration_mul (heartbeat_interval c) 2) (\<lambda>two.
         let errs = errs @ (if two \<le> clock_skew_budget c then [skew_violation] else [])
         in if errs = [] then Inr () else Inl (Err errs)))"

text \<open>\<open>CoordinatorConfig\<close> of \<open>rollout-coordinator/src/config.rs\<close>, which reuses the transport timings.\<close>

record coordinator_config =
  cfg_run_id :: string
  cfg_storage_path :: string
  cfg_transport :: transport_config

definition lease_ttl :: "coordinator_config \<Rightarrow> duration" where
  "lease_ttl c = coordinator_failure_timeout (cfg_transport c)"

definition lease_renew_interval :: "coordinator_config \<Rightarrow> duration" where
  "lease_renew_interval c = heartbeat_interval (cfg_transport c)"

definition ttl_violation :: string where
  "ttl_violation = ''coordinator lease TTL must equal transport.coordinator_failure_timeout''"

definition renew_violation :: string where
  "renew_violation = ''coordinator lease renew cadence must be strictly less than the lease TTL (coordinator_failure_timeout)''"

definition coordinator_config_validate :: "coordinator_config \<Rightarrow> string list fault + unit" where
  "coordinator_config_validate c =
     bindE (case validate_cross_fields (cfg_transport c) of
         Inr _ \<Rightarrow> Inr []
       | Inl (Err v) \<Rightarrow> Inr v
       | Inl (Panic p) \<Rightarrow> Inl (Panic p)) (\<lambda>violations.
     let violations = violations @ (if lease_ttl c \<noteq> coordinator_failure_timeout (cfg_transport c) then [ttl_violation] else []);
         violations = violations @ (if lease_ttl c \<le> lease_renew_interval c then [renew_violation] else [])
     in if violations = [] then Inr () else Inl (Err violations))"

section \<open>Health\<close>

definition next_due_at :: "systime \<Rightarrow> duration \<Rightarrow> 'e fault + systime" where
  "next_due_at now hb_interval = bindE (duration_mul hb_interval 2) (systime_add now)"

definition is_failed :: "systime \<Rightarrow> systime \<Rightarrow> duration \<Rightarrow> duration \<Rightarrow> bool" where
  "is_failed now due_at skew coord_timeout = (case duration_since now due_at of
       None \<Rightarrow> False
     | Some elapsed_past_due \<Rightarrow> skew < elapsed_past_due \<and> coord_timeout < elapsed_past_due)"

section \<open>Protobuf conversions\<close>

text \<open>\<open>prost_types::Timestamp\<close>: signed 64-bit seconds and signed 32-bit nanoseconds.\<close>

record timestamp =
  seconds :: int
  nanos :: int

definition timestamp_ok :: "timestamp \<Rightarrow> bool" where
  "timestamp_ok t \<longleftrightarrow> - (2 ^ 63) \<le> seconds t \<and> seconds t < 2 ^ 63 \<and> - (2 ^ 31) \<le> nanos t \<and> nanos t < 2 ^ 31"

text \<open>\<open>Duration::new\<close> carries whole seconds out of the nanoseconds.\<close>

definition prost_to_system :: "timestamp \<Rightarrow> 'e fault + systime" where
  "prost_to_system t = systime_add 0 (nat (max 0 (seconds t)) * 1000000000 + nat (max 0 (nanos t)))"

definition system_to_prost :: "systime \<Rightarrow> timestamp" where
  "system_to_prost t =
     (let d = (case duration_since t 0 of None \<Rightarrow> 0 | Some d \<Rightarrow> d)
      in \<lparr>seconds = min (int (d div 1000000000)) (2 ^ 63 - 1), nanos = int (d mod 1000000000)\<rparr>)"

text \<open>The protobuf enumeration: 1 Init, 2 Ready, 3 Running, 4 Draining; anything else counts as Init.\<close>

definition proto_to_state :: "int \<Rightarrow> worker_state" where
  "proto_to_state s = (if s = 2 then Ready else if s = 3 then WRunning else if s = 4 then Draining else Init)"

section \<open>The heartbeat service\<close>

record beat_request =
  br_worker :: string
  br_run :: string
  br_due_at :: "timestamp option"
  br_state :: int

datatype status = InvalidArgument string | StatusInternal core_error

text \<open>
  \<open>beat\<close> parses the identifiers, converts the deadline (now when absent) and forwards to the
  coordinator, whose \<open>heartbeat\<close> is the argument \<open>hb\<close>.
\<close>

definition beat :: "ulid_crate \<Rightarrow> (heartbeat_msg \<Rightarrow> ('m, unit) io) \<Rightarrow> systime \<Rightarrow> beat_request \<Rightarrow> ('m, status fault, unit) comp" where
  "beat U hb now r =
     bindS (liftE (map_err (\<lambda>e. Err (InvalidArgument (''worker_id: '' @ e))) (ulid_parse U (br_worker r)))) (\<lambda>w.
     bindS (liftE (map_err (\<lambda>e. Err (InvalidArgument (''run_id: '' @ e))) (ulid_parse U (br_run r)))) (\<lambda>run.
     bindS (liftE (case br_due_at r of None \<Rightarrow> Inr now | Some t \<Rightarrow> prost_to_system t)) (\<lambda>due.
     (\<lambda>s. case hb \<lparr>hb_worker = WorkerId w, hb_run = RunId run, hb_state = proto_to_state (br_state r), hb_due_at = due\<rparr> s of
        (Inl (Err e), s') \<Rightarrow> (Inl (Err (StatusInternal e)), s')
      | (Inl (Panic p), s') \<Rightarrow> (Inl (Panic p), s')
      | (Inr _, s') \<Rightarrow> (Inr (), s')))))"

section \<open>The control router\<close>

text \<open>
  One bounded channel of capacity 64 per subscribed worker: the pushes waiting in it, and whether
  its receiver is still there. Subscribing again replaces the sender, which closes the old stream.
\<close>

record 'p control_channel =
  waiting :: "'p list"
  receiver_alive :: bool

type_synonym 'p control_router = "string \<rightharpoonup> 'p control_channel"

definition control_capacity :: nat where
  "control_capacity = 64"

definition control_push :: "string \<Rightarrow> 'p \<Rightarrow> 'p control_router \<Rightarrow> bool \<times> 'p control_router" where
  "control_push w p r = (case r w of
       None \<Rightarrow> (False, r)
     | Some c \<Rightarrow> if receiver_alive c \<and> length (waiting c) < control_capacity
                 then (True, r(w \<mapsto> c\<lparr>waiting := waiting c @ [p]\<rparr>)) else (False, r))"

definition control_close :: "string \<Rightarrow> 'p control_router \<Rightarrow> 'p control_router" where
  "control_close w r = r(w := None)"

definition control_subscribe :: "string \<Rightarrow> 'p control_router \<Rightarrow> 'p control_router" where
  "control_subscribe w r = r(w \<mapsto> \<lparr>waiting = [], receiver_alive = True\<rparr>)"

section \<open>Properties\<close>

lemma validate_cross_fields_Inr:
  "validate_cross_fields c = Inr () \<longleftrightarrow> heartbeat_interval c * 2 \<le> duration_max
     \<and> worker_self_fence_timeout c < coordinator_failure_timeout c \<and> clock_skew_budget c < 2 * heartbeat_interval c"
  by (auto simp: validate_cross_fields_def duration_mul_def Let_def not_le mult.commute)

text \<open>
  The coordinator accepts a configuration exactly when its timings are safe: a worker fences
  itself strictly before the coordinator declares it failed, the clock-skew budget is below two
  heartbeat intervals, and the lease is renewed more often than it expires.
\<close>
theorem coordinator_config_valid_iff:
  "coordinator_config_validate c = Inr () \<longleftrightarrow>
     (let t = cfg_transport c in heartbeat_interval t * 2 \<le> duration_max
       \<and> worker_self_fence_timeout t < coordinator_failure_timeout t
       \<and> clock_skew_budget t < 2 * heartbeat_interval t
       \<and> lease_renew_interval c < lease_ttl c)"
proof -
  consider (ok) "validate_cross_fields (cfg_transport c) = Inr ()"
    | (err) v where "validate_cross_fields (cfg_transport c) = Inl (Err v)" "v \<noteq> []"
    | (panic) p where "validate_cross_fields (cfg_transport c) = Inl (Panic p)"
    by (cases "validate_cross_fields (cfg_transport c)")
      (auto simp: validate_cross_fields_def duration_mul_def Let_def split: if_splits)
  then show ?thesis
    using validate_cross_fields_Inr[of "cfg_transport c"]
    by cases (auto simp: coordinator_config_validate_def lease_ttl_def Let_def not_le)
qed

lemma default_config_valid:
  "coordinator_config_validate \<lparr>cfg_run_id = r, cfg_storage_path = p, cfg_transport = transport_config_default\<rparr> = Inr ()"
  by (simp add: coordinator_config_validate_def validate_cross_fields_def transport_config_default_def lease_ttl_def
      lease_renew_interval_def duration_mul_def duration_max_def from_millis_def from_secs_def)

lemma is_failed_iff: "is_failed now due skew coord \<longleftrightarrow> due + int (max skew coord) < now"
  by (auto simp: is_failed_def duration_since_def)



text \<open>
  Timestamps survive the wire. A wall-clock time not before 1970 converts to a protobuf
  timestamp and back to itself, with nanoseconds intact; an earlier time becomes the epoch.
\<close>
theorem prost_system_roundtrip:
  assumes "systime_ok t"
  shows "prost_to_system (system_to_prost t) = (Inr (max 0 t) :: 'e fault + systime)"
proof (cases "0 \<le> t")
  case True
  define d where "d = nat t"
  have "int d \<le> systime_max" using assms True by (simp add: d_def systime_ok_def)
  then have "int d div 1000000000 \<le> 2 ^ 63 - 1" by (simp add: systime_max_def)
  then have "int (d div 1000000000) \<le> 2 ^ 63 - 1" by (simp add: zdiv_int)
  then have "prost_to_system (system_to_prost t) = (systime_add 0 (d div 1000000000 * 1000000000 + d mod 1000000000) :: 'e fault + systime)"
    using True by (simp add: prost_to_system_def system_to_prost_def duration_since_def d_def[symmetric] Let_def min_def)
  also have "\<dots> = Inr t" using \<open>int d \<le> systime_max\<close> True by (simp add: systime_add_def d_def)
  finally show ?thesis using True by simp
next
  case False
  then show ?thesis by (simp add: prost_to_system_def system_to_prost_def duration_since_def systime_add_def systime_max_def)
qed

theorem prost_system_roundtrip_witness:
  "prost_to_system (system_to_prost 1700000000123456789) = (Inr 1700000000123456789 :: string fault + systime)"
  using prost_system_roundtrip[of 1700000000123456789] by (simp add: systime_ok_def systime_max_def)

end
