(* ===== verification/Coordinator.thy ===== *)
theory Coordinator
  imports Lease Transport
begin

text \<open>
  The coordinator service (\<open>rollout-coordinator\<close>): the worker registry and heartbeat ledger
  (\<open>registry.rs\<close>, \<open>heartbeat.rs\<close>), the failure scan (\<open>failure_scan.rs\<close>), the lease-renew loop
  (\<open>run.rs\<close>) and the spot-preemption drain (\<open>drain.rs\<close>). The event sink is a parameter with its own
  state; the readings of the clock within one call are a function of their position.
\<close>

section \<open>Registry records and keys\<close>

record worker_registry_entry =
  re_worker_id :: string
  re_run_id :: string
  registered_at_ms :: u128

record heartbeat_record =
  hr_worker_id :: string
  hr_run_id :: string
  hr_state :: int
  due_at_ms :: u128
  received_at_ms :: u128

definition worker_key :: "ulid_crate \<Rightarrow> worker_id \<Rightarrow> storage_key" where
  "worker_key U w = \<lparr>namespace = ''workers'', key_run = None, path = [ulid_to_string U (worker_ulid w)]\<rparr>"

definition heartbeat_key :: "ulid_crate \<Rightarrow> worker_id \<Rightarrow> storage_key" where
  "heartbeat_key U w = \<lparr>namespace = ''heartbeats'', key_run = None, path = [ulid_to_string U (worker_ulid w)]\<rparr>"

definition now_ms :: "systime \<Rightarrow> u128" where
  "now_ms now = as_millis (case duration_since now 0 of None \<Rightarrow> 0 | Some d \<Rightarrow> d)"

definition ms_to_systime :: "u128 \<Rightarrow> 'e fault + systime" where
  "ms_to_systime ms =
     (let secs = if unat ms div 1000 < 2 ^ 64 then unat ms div 1000 else 0;
          sub_nanos = (unat ms mod 1000) * 1000000
      in systime_add 0 (secs * 1000000000 + sub_nanos))"

definition state_to_i32 :: "worker_state \<Rightarrow> int" where
  "state_to_i32 s = (case s of Init \<Rightarrow> 1 | Ready \<Rightarrow> 2 | WRunning \<Rightarrow> 3 | Draining \<Rightarrow> 4)"

section \<open>The coordinator\<close>

definition make_event :: "run_id \<Rightarrow> systime \<Rightarrow> worker_id \<Rightarrow> string \<Rightarrow> event" where
  "make_event run ts w tpc = \<lparr>ev_ts = ts, ev_kind = EvDomain tpc, ev_level = LInfo, ev_run = Some run,
     ev_worker = Some w, ev_trace = None, ev_span = None, ev_plugin = None, ev_algorithm = None,
     ev_message = None, ev_attrs = JNull\<rparr>"

record coord_codecs =
  entry_codec :: "worker_registry_entry codec"
  beat_codec :: "heartbeat_record codec"

definition register :: "('s, 't) storage_ops \<Rightarrow> ulid_crate \<Rightarrow> coord_codecs \<Rightarrow> 'm emitter \<Rightarrow> run_id \<Rightarrow> (nat \<Rightarrow> systime)
    \<Rightarrow> worker_id \<Rightarrow> ('s \<times> 'm, unit) io" where
  "register S U C emit run clock w =
     bindS (liftE (map_err internal (encode (entry_codec C)
        \<lparr>re_worker_id = ulid_to_string U (worker_ulid w), re_run_id = ulid_to_string U (run_ulid run),
         registered_at_ms = now_ms (clock 0)\<rparr>))) (\<lambda>b.
     bindS (on_store (in_txn S (put_bytes S (worker_key U w) b))) (\<lambda>_.
     on_sink (emit (make_event run (clock 1) w ''worker_registered''))))"

definition deregister :: "('s, 't) storage_ops \<Rightarrow> ulid_crate \<Rightarrow> 'm emitter \<Rightarrow> run_id \<Rightarrow> (nat \<Rightarrow> systime)
    \<Rightarrow> worker_id \<Rightarrow> ('s \<times> 'm, unit) io" where
  "deregister S U emit run clock w =
     bindS (on_store (in_txn S (bindS (delete_key S (worker_key U w)) (\<lambda>_. delete_key S (heartbeat_key U w))))) (\<lambda>_.
     on_sink (emit (make_event run (clock 0) w ''worker_deregistered'')))"

definition beat_record :: "ulid_crate \<Rightarrow> systime \<Rightarrow> heartbeat_msg \<Rightarrow> heartbeat_record" where
  "beat_record U now hb =
     \<lparr>hr_worker_id = ulid_to_string U (worker_ulid (hb_worker hb)), hr_run_id = ulid_to_string U (run_ulid (hb_run hb)),
      hr_state = state_to_i32 (hb_state hb), due_at_ms = now_ms (hb_due_at hb), received_at_ms = now_ms now\<rparr>"

definition heartbeat :: "('s, 't) storage_ops \<Rightarrow> ulid_crate \<Rightarrow> coord_codecs \<Rightarrow> 'm emitter \<Rightarrow> run_id \<Rightarrow> (nat \<Rightarrow> systime)
    \<Rightarrow> heartbeat_msg \<Rightarrow> ('s \<times> 'm, unit) io" where
  "heartbeat S U C emit run clock hb =
     bindS (on_store (readS (get_bytes S (worker_key U (hb_worker hb))))) (\<lambda>existing.
     bindS (if existing = None then register S U C emit run clock (hb_worker hb) else returnS ()) (\<lambda>_.
     bindS (liftE (map_err internal (encode (beat_codec C) (beat_record U (clock 2) hb)))) (\<lambda>b.
     bindS (on_store (in_txn S (put_bytes S (heartbeat_key U (hb_worker hb)) b))) (\<lambda>_.
     on_sink (emit (make_event run (clock 3) (hb_worker hb) ''worker_heartbeat''))))))"

section \<open>The failure scan\<close>

definition heartbeat_range :: key_range where
  "heartbeat_range = \<lparr>range_prefix = \<lparr>namespace = ''heartbeats'', key_run = None, path = []\<rparr>, range_limit = None\<rparr>"

definition parse_ok :: "string + 'a \<Rightarrow> 'a option" where
  "parse_ok r = (case r of Inl _ \<Rightarrow> None | Inr a \<Rightarrow> Some a)"

definition failed_event :: "ulid_crate \<Rightarrow> systime \<Rightarrow> heartbeat_record \<Rightarrow> event" where
  "failed_event U ts rec = \<lparr>ev_ts = ts, ev_kind = EvDomain ''worker_failed'', ev_level = LWarn,
     ev_run = map_option RunId (parse_ok (ulid_parse U (hr_run_id rec))),
     ev_worker = map_option WorkerId (parse_ok (ulid_parse U (hr_worker_id rec))),
     ev_trace = None, ev_span = None, ev_plugin = None, ev_algorithm = None, ev_message = None,
     ev_attrs = JObj [(''due_at_ms'', JInt (uint (due_at_ms rec)))]\<rparr>"

text \<open>
  The loop over the rows, on the sink and the set of workers already reported; \<open>ts\<close> is the clock
  reading when a record is reported. The result of the emit is ignored.
\<close>

fun scan_failed :: "ulid_crate \<Rightarrow> heartbeat_record codec \<Rightarrow> 'm emitter \<Rightarrow> (heartbeat_record \<Rightarrow> systime) \<Rightarrow> systime \<Rightarrow> duration \<Rightarrow> duration
    \<Rightarrow> (storage_key \<times> bytes) list \<Rightarrow> ('m \<times> string set, unit) io" where
  "scan_failed U B emit ts now skew coord [] = returnS ()"
| "scan_failed U B emit ts now skew coord ((_, b) # rows) =
     (case decode B b of
        Inl _ \<Rightarrow> scan_failed U B emit ts now skew coord rows
      | Inr rec \<Rightarrow>
          bindS (liftE (ms_to_systime (due_at_ms rec))) (\<lambda>due.
          (\<lambda>(m, af).
            if is_failed now due skew coord \<and> hr_worker_id rec \<notin> af
            then scan_failed U B emit ts now skew coord rows (snd (emit (failed_event U (ts rec) rec) m), insert (hr_worker_id rec) af)
            else scan_failed U B emit ts now skew coord rows (m, af))))"

definition scan_once :: "('s, 't) storage_ops \<Rightarrow> ulid_crate \<Rightarrow> heartbeat_record codec \<Rightarrow> 'm emitter
    \<Rightarrow> (heartbeat_record \<Rightarrow> systime) \<Rightarrow> systime \<Rightarrow> duration \<Rightarrow> duration \<Rightarrow> 's \<Rightarrow> ('m \<times> string set, unit) io" where
  "scan_once S U B emit ts now skew coord s =
     bindS (liftE (scan_bytes S heartbeat_range s)) (scan_failed U B emit ts now skew coord)"

text \<open>
  The loop: ticks with the time and the store they see, and changes of the shutdown flag. A scan
  error is logged and the loop goes on; a panic ends the task.
\<close>

datatype 's scan_input = Tick systime 's | ShutdownChanged bool

fun failure_scan_loop :: "('s, 't) storage_ops \<Rightarrow> ulid_crate \<Rightarrow> heartbeat_record codec \<Rightarrow> 'm emitter
    \<Rightarrow> (heartbeat_record \<Rightarrow> systime) \<Rightarrow> duration \<Rightarrow> duration \<Rightarrow> 's scan_input list \<Rightarrow> ('m \<times> string set, unit) io" where
  "failure_scan_loop S U B emit ts skew coord [] = returnS ()"
| "failure_scan_loop S U B emit ts skew coord (ShutdownChanged f # is) =
     (if f then returnS () else failure_scan_loop S U B emit ts skew coord is)"
| "failure_scan_loop S U B emit ts skew coord (Tick now s # is) = (\<lambda>st.
     case scan_once S U B emit ts now skew coord s st of
       (Inl (Panic p), st') \<Rightarrow> (Inl (Panic p), st')
     | (_, st') \<Rightarrow> failure_scan_loop S U B emit ts skew coord is st')"

section \<open>The lease-renew loop\<close>

text \<open>
  One tick of the loop that \<open>run\<close> spawns: it goes on, or it emitted the fence event and the process
  aborts. A panic of a storage call ends the spawned task alone.
\<close>

datatype renew_outcome = GoOn | Aborted coord_epoch coord_epoch | TaskPanicked

definition renew_tick :: "('s, 't) storage_ops \<Rightarrow> lease_record codec \<Rightarrow> coord_epoch codec \<Rightarrow> 'm emitter \<Rightarrow> run_id
    \<Rightarrow> worker_id \<Rightarrow> duration \<Rightarrow> coord_epoch \<Rightarrow> u128 \<Rightarrow> systime \<Rightarrow> 's \<times> 'm \<Rightarrow> renew_outcome \<times> 's \<times> 'm" where
  "renew_tick S L E emit run me ttl start_epoch now ts = (\<lambda>(s, m).
     case current_lease S L run s of
       Inr (Some held) \<Rightarrow>
         if holder held \<noteq> me then
           (Aborted start_epoch (epoch held), s, snd (fence_old_coordinator emit ts me run start_epoch (epoch held) m))
         else (case renew S L E run now held ttl s of
           (Inr True, s') \<Rightarrow> (GoOn, s', m)
         | (Inr False, s') \<Rightarrow>
             (let observed = (case current_lease S L run s' of Inr (Some c) \<Rightarrow> epoch c | _ \<Rightarrow> epoch held)
              in (Aborted (epoch held) observed, s', snd (fence_old_coordinator emit ts me run (epoch held) observed m)))
         | (Inl (Panic _), s') \<Rightarrow> (TaskPanicked, s', m)
         | (Inl (Err _), s') \<Rightarrow> (GoOn, s', m))
     | Inl (Panic _) \<Rightarrow> (TaskPanicked, s, m)
     | _ \<Rightarrow> (GoOn, s, m))"

section \<open>Draining on preemption\<close>

record drain_config =
  notice_lead :: duration
  drain_deadline :: duration

definition drain_config_aws :: drain_config where
  "drain_config_aws = \<lparr>notice_lead = from_secs 120, drain_deadline = from_secs 60\<rparr>"

definition drain_config_gcp :: drain_config where
  "drain_config_gcp = \<lparr>notice_lead = from_secs 30, drain_deadline = from_secs 15\<rparr>"

datatype snapshot_kind = TrainState | Buffer | Process | EpisodicMemory

record snapshot_request =
  sr_run :: run_id
  sr_algorithm :: string
  sr_kind :: snapshot_kind
  sr_label :: "string option"
  sr_meta :: json

record snapshot_plan =
  has_snapshotter :: bool
  remaining_budget :: duration
  snapshot_cost :: duration
  sp_run :: run_id
  sp_algorithm :: string

text \<open>The awaited calls of a drain, in order: the negative acknowledgements, the optional save, the deregistration.\<close>

datatype drain_action = Nack queue_item_id | Save snapshot_request | Deregister

definition drain_actions :: "queue_item_id list \<Rightarrow> snapshot_plan \<Rightarrow> drain_action list" where
  "drain_actions ids snap = map Nack ids
     @ (if has_snapshotter snap \<and> snapshot_cost snap \<le> remaining_budget snap
        then [Save \<lparr>sr_run = sp_run snap, sr_algorithm = sp_algorithm snap, sr_kind = TrainState,
                    sr_label = Some ''spot-drain'', sr_meta = JNull\<rparr>] else [])
     @ [Deregister]"

text \<open>
  The environment of a drain: what the queue, the snapshotter and the coordinator do, the
  preemption signal, at which awaited call the deadline passes, and what such an interrupted call
  left behind.
\<close>

record 'w drain_env =
  signal :: "('w, duration option) io"
  perform :: "drain_action \<Rightarrow> ('w, unit) io"
  interrupted :: "nat \<Rightarrow> bool"
  torn :: "drain_action \<Rightarrow> 'w \<Rightarrow> 'w"
  show_duration :: "duration \<Rightarrow> string"

definition deadline_error :: "'w drain_env \<Rightarrow> drain_config \<Rightarrow> core_error fault" where
  "deadline_error X cfg = internal (''spot drain exceeded drain_deadline '' @ show_duration X (drain_deadline cfg)
     @ '' (notice lead was '' @ show_duration X (notice_lead cfg) @ '')'')"

fun drain_run :: "'w drain_env \<Rightarrow> drain_config \<Rightarrow> nat \<Rightarrow> drain_action list \<Rightarrow> ('w, unit) io" where
  "drain_run X cfg n [] = returnS ()"
| "drain_run X cfg n (a # as) = (\<lambda>w.
     if interrupted X n then (Inl (deadline_error X cfg), torn X a w)
     else bindS (perform X a) (\<lambda>_. drain_run X cfg (Suc n) as) w)"

text \<open>The state is the stop-pull flag and the world.\<close>

definition drain :: "'w drain_env \<Rightarrow> drain_config \<Rightarrow> queue_item_id list \<Rightarrow> snapshot_plan \<Rightarrow> (bool \<times> 'w, unit) io" where
  "drain X cfg ids snap = (\<lambda>(stop, w). case signal X w of
       (Inl e, w') \<Rightarrow> (Inl e, (stop, w'))
     | (Inr _, w') \<Rightarrow> (case drain_run X cfg 0 (drain_actions ids snap) w' of (r, w'') \<Rightarrow> (r, (True, w''))))"

section \<open>Properties of the registry\<close>

text \<open>A worker that has a heartbeat row is registered.\<close>

definition registry_inv :: "ulid_crate \<Rightarrow> store_view \<Rightarrow> bool" where
  "registry_inv U v \<longleftrightarrow> (\<forall>w. v (heartbeat_key U w) \<noteq> None \<longrightarrow> v (worker_key U w) \<noteq> None)"

lemma registry_keys [simp]: "worker_key U w \<noteq> heartbeat_key U w'" "heartbeat_key U w' \<noteq> worker_key U w"
  by (simp_all add: worker_key_def heartbeat_key_def)

lemma heartbeat_key_eq: "heartbeat_key U w = heartbeat_key U w' \<longleftrightarrow> worker_key U w = worker_key U w'"
  by (simp add: worker_key_def heartbeat_key_def)

lemma registry_inv_put_worker: "registry_inv U v \<Longrightarrow> registry_inv U (v(worker_key U w \<mapsto> b))"
  by (auto simp: registry_inv_def)

lemma registry_inv_put_beat: "registry_inv U v \<Longrightarrow> v (worker_key U w) \<noteq> None \<Longrightarrow> registry_inv U (v(heartbeat_key U w \<mapsto> b))"
  by (auto simp: registry_inv_def heartbeat_key_eq)

lemma registry_inv_remove: "registry_inv U v \<Longrightarrow> registry_inv U (v(worker_key U w := None, heartbeat_key U w := None))"
  by (auto simp: registry_inv_def heartbeat_key_eq)

context storage
begin

lemma register_outcomes:
  assumes "inv s" "okk (worker_key U w)" "register S U C emit run clock w (s, m) = (r, (s', m'))"
  shows "inv s' \<and> (view s' = view s \<or> (\<exists>b. view s' = (view s)(worker_key U w \<mapsto> b)))
     \<and> (r = Inr () \<longrightarrow> (\<exists>b. encode (entry_codec C) \<lparr>re_worker_id = ulid_to_string U (worker_ulid w),
          re_run_id = ulid_to_string U (run_ulid run), registered_at_ms = now_ms (clock 0)\<rparr> = Inr b
          \<and> view s' = (view s)(worker_key U w \<mapsto> b)))"
proof -
  let ?entry = "\<lparr>re_worker_id = ulid_to_string U (worker_ulid w), re_run_id = ulid_to_string U (run_ulid run), registered_at_ms = now_ms (clock 0)\<rparr>"
  show ?thesis
  proof (cases "encode (entry_codec C) ?entry")
    case (Inl e)
    with assms(1,3) show ?thesis by (auto simp: register_def bindS_def)
  next
    case (Inr b)
    obtain r1 s1 where t: "in_txn S (put_bytes S (worker_key U w) b) s = (r1, s1)" by fastforce
    have "s' = s1" "r = Inr () \<longrightarrow> r1 = Inr ()"
      using assms(3) Inr t by (auto simp: register_def bindS_def on_store_def on_sink_def split: sum.splits prod.splits)
    with put_txn_outcomes[OF assms(1,2) t] Inr show ?thesis by auto
  qed
qed

lemma deregister_outcomes:
  assumes "inv s" "okk (worker_key U w)" "okk (heartbeat_key U w)" "deregister S U emit run clock w (s, m) = (r, (s', m'))"
  defines "gone \<equiv> (view s)(worker_key U w := None, heartbeat_key U w := None)"
  shows "inv s' \<and> (view s' = view s \<or> view s' = gone) \<and> (r = Inr () \<longrightarrow> view s' = gone)"
proof -
  let ?m = "bindS (delete_key S (worker_key U w)) (\<lambda>_. delete_key S (heartbeat_key U w))"
  obtain r1 s1 where t: "in_txn S ?m s = (r1, s1)" by fastforce
  have "s' = s1" "r = Inr () \<longrightarrow> r1 = Inr ()"
    using assms(4) t by (auto simp: deregister_def bindS_def on_store_def on_sink_def split: sum.splits prod.splits)
  moreover have "inv s1 \<and> (view s1 = view s \<or> view s1 = gone) \<and> (r1 = Inr () \<longrightarrow> view s1 = gone)"
  proof (rule in_txn_outcomes[OF assms(1) t])
    fix t0 u t2 assume t0: "tinv t0" "tview t0 = view s" and "?m t0 = (Inr u, t2)"
    then obtain t1 where "delete_key S (worker_key U w) t0 = (Inr (), t1)" "delete_key S (heartbeat_key U w) t1 = (Inr (), t2)"
      by (auto simp: comp_iff)
    with delete_law[OF t0(1) assms(2)] delete_law[OF _ assms(3), of t1 t2] t0(2)
    show "tinv t2 \<and> tview t2 = gone" by (auto simp: gone_def)
  qed
  ultimately show ?thesis by blast
qed

lemma heartbeat_outcomes:
  assumes "inv s" "okk (worker_key U (hb_worker hb))" "okk (heartbeat_key U (hb_worker hb))"
    and "heartbeat S U C emit run clock hb (s, m) = (r, (s', m'))"
  shows "inv s' \<and> (registry_inv U (view s) \<longrightarrow> registry_inv U (view s'))
    \<and> (r = Inr () \<longrightarrow> (\<exists>b. encode (beat_codec C) (beat_record U (clock 2) hb) = Inr b
         \<and> view s' (heartbeat_key U (hb_worker hb)) = Some b \<and> view s' (worker_key U (hb_worker hb)) \<noteq> None
         \<and> (view s (worker_key U (hb_worker hb)) \<noteq> None \<longrightarrow> view s' (worker_key U (hb_worker hb)) = view s (worker_key U (hb_worker hb)))
         \<and> (\<forall>k. k \<noteq> worker_key U (hb_worker hb) \<longrightarrow> k \<noteq> heartbeat_key U (hb_worker hb) \<longrightarrow> view s' k = view s k)))"
proof (cases "get_bytes S (worker_key U (hb_worker hb)) s")
  case (Inl e)
  with assms(1,4) show ?thesis by (auto simp: heartbeat_def bindS_def on_store_def)
next
  case (Inr existing)
  let ?w = "hb_worker hb" let ?rec = "beat_record U (clock 2) hb"
  have ex: "existing = view s (worker_key U ?w)" using get_law[OF assms(1,2) Inr] .
  let ?reg = "if existing = None then register S U C emit run clock ?w else returnS ()"
  obtain r1 s1 m1 where reg: "?reg (s, m) = (r1, (s1, m1))" by (metis prod.collapse)
  have s1: "inv s1" "view s1 = view s \<or> (\<exists>b. view s1 = (view s)(worker_key U ?w \<mapsto> b))"
    "r1 = Inr () \<longrightarrow> view s1 (worker_key U ?w) \<noteq> None"
    "existing \<noteq> None \<longrightarrow> view s1 = view s"
  proof -
    have new: "\<exists>b. f = (view s)(worker_key U ?w \<mapsto> b) \<Longrightarrow> f (worker_key U ?w) \<noteq> None" for f by auto
    have "existing = None \<longrightarrow> inv s1 \<and> (view s1 = view s \<or> (\<exists>b. view s1 = (view s)(worker_key U ?w \<mapsto> b)))
        \<and> (r1 = Inr () \<longrightarrow> (\<exists>b. view s1 = (view s)(worker_key U ?w \<mapsto> b)))"
      using reg register_outcomes[OF assms(1,2), of C emit run clock m r1 s1 m1] by auto
    moreover have "existing \<noteq> None \<longrightarrow> s1 = s" using reg by auto
    ultimately show "inv s1" "view s1 = view s \<or> (\<exists>b. view s1 = (view s)(worker_key U ?w \<mapsto> b))"
      "r1 = Inr () \<longrightarrow> view s1 (worker_key U ?w) \<noteq> None" "existing \<noteq> None \<longrightarrow> view s1 = view s"
      using new ex assms(1) by metis+
  qed
  have rest: "bindS ?reg (\<lambda>_. bindS (liftE (map_err internal (encode (beat_codec C) ?rec))) (\<lambda>b.
      bindS (on_store (in_txn S (put_bytes S (heartbeat_key U ?w) b))) (\<lambda>_.
      on_sink (emit (make_event run (clock 3) ?w ''worker_heartbeat''))))) (s, m) = (r, (s', m'))"
    using assms(4) Inr by (simp add: heartbeat_def bindS_def on_store_def)
  have inv1: "registry_inv U (view s) \<longrightarrow> registry_inv U (view s1)" using s1(2) registry_inv_put_worker by auto
  consider (early) "s' = s1" "r \<noteq> Inr ()" | (late) b r2 s2 where "r1 = Inr ()" "encode (beat_codec C) ?rec = Inr b"
      "in_txn S (put_bytes S (heartbeat_key U ?w) b) s1 = (r2, s2)" "s' = s2" "r = Inr () \<longrightarrow> r2 = Inr ()"
    using rest reg by (auto simp: bindS_def on_store_def on_sink_def map_err_eq_Inr split: sum.splits prod.splits)
  then show ?thesis
  proof cases
    case early
    with s1(1) inv1 show ?thesis by simp
  next
    case late
    note put = put_txn_outcomes[OF s1(1) assms(3) late(3)]
    have "registry_inv U (view s1) \<longrightarrow> registry_inv U (view s')"
      using put late(4) s1(3) late(1) registry_inv_put_beat by auto
    moreover have "r = Inr () \<longrightarrow> view s' = (view s1)(heartbeat_key U ?w \<mapsto> b)" using put late(4,5) by auto
    ultimately show ?thesis using put late(1,2,4) s1 inv1 ex by auto
  qed
qed

end

abbreviation registry_keys_ok :: "key_codec \<Rightarrow> ulid_crate \<Rightarrow> worker_id \<Rightarrow> bool" where
  "registry_keys_ok K U w \<equiv> embedded_okk K (worker_key U w) \<and> embedded_okk K (heartbeat_key U w)"

text \<open>
  A heartbeat is recorded and registers its worker. When the coordinator's \<open>heartbeat\<close> succeeds,
  the worker's heartbeat row holds exactly the record of this message, the worker is registered,
  an earlier registration is kept as it was, and no other row changed.
\<close>
theorem heartbeat_recorded:
  assumes "embedded_inv K s" "registry_keys_ok K U (hb_worker hb)"
    and "heartbeat (embedded_ops R K) U C emit run clock hb (s, m) = (Inr (), (s', m'))"
  shows "\<exists>b. encode (beat_codec C) (beat_record U (clock 2) hb) = Inr b
     \<and> embedded_view K s' (heartbeat_key U (hb_worker hb)) = Some b
     \<and> embedded_view K s' (worker_key U (hb_worker hb)) \<noteq> None
     \<and> (embedded_view K s (worker_key U (hb_worker hb)) \<noteq> None \<longrightarrow>
          embedded_view K s' (worker_key U (hb_worker hb)) = embedded_view K s (worker_key U (hb_worker hb)))
     \<and> (\<forall>k. k \<noteq> worker_key U (hb_worker hb) \<longrightarrow> k \<noteq> heartbeat_key U (hb_worker hb) \<longrightarrow>
          embedded_view K s' k = embedded_view K s k)"
  using redb.heartbeat_outcomes[OF assms(1) _ _ assms(3)] assms(2) by blast

text \<open>
  No heartbeat without a registration. Register, deregister and heartbeat, whichever way they
  end, keep the invariant that every worker with a heartbeat row has a registry row: a
  deregistration removes both rows in one transaction, and a heartbeat registers first.
\<close>
theorem registry_invariant_kept:
  assumes "embedded_inv K s" "registry_keys_ok K U w" "registry_inv U (embedded_view K s)" "hb_worker hb = w"
    and "register (embedded_ops R K) U C emit run clock w (s, m) = (r, (s', m'))
       \<or> deregister (embedded_ops R K) U emit run clock w (s, m) = (r, (s', m'))
       \<or> heartbeat (embedded_ops R K) U C emit run clock hb (s, m) = (r, (s', m'))"
  shows "embedded_inv K s' \<and> registry_inv U (embedded_view K s')"
  using assms(5)
proof (elim disjE)
  assume "register (embedded_ops R K) U C emit run clock w (s, m) = (r, (s', m'))"
  from redb.register_outcomes[OF assms(1) _ this] assms(2,3) show ?thesis by (auto simp: registry_inv_put_worker)
next
  assume "deregister (embedded_ops R K) U emit run clock w (s, m) = (r, (s', m'))"
  from redb.deregister_outcomes[OF assms(1) _ _ this] assms(2,3) show ?thesis by (auto simp: registry_inv_remove)
next
  assume "heartbeat (embedded_ops R K) U C emit run clock hb (s, m) = (r, (s', m'))"
  from redb.heartbeat_outcomes[OF assms(1) _ _ this] assms(2-4) show ?thesis by auto
qed

section \<open>Properties of the failure scan\<close>

text \<open>A sink that records what it is given, and answers whatever it likes.\<close>

definition recording :: "(event \<Rightarrow> unit res) \<Rightarrow> event list emitter" where
  "recording answer ev = (\<lambda>m. (answer ev, m @ [ev]))"

lemma recording_sink [simp]: "snd (recording answer ev m) = m @ [ev]"
  by (simp add: recording_def)

text \<open>The records of a list of rows that are late by both budgets.\<close>

definition late_ids :: "heartbeat_record codec \<Rightarrow> systime \<Rightarrow> duration \<Rightarrow> duration \<Rightarrow> (storage_key \<times> bytes) list \<Rightarrow> string set" where
  "late_ids B now skew coord rows = {hr_worker_id rec | k b rec due. (k, b) \<in> set rows \<and> decode B b = Inr rec
     \<and> ms_to_systime (due_at_ms rec) = (Inr due :: systime res) \<and> is_failed now due skew coord}"

lemma late_ids_simps:
  "late_ids B now skew coord [] = {}"
  "late_ids B now skew coord ((k, b) # rows) = late_ids B now skew coord rows \<union> {hr_worker_id rec | rec due. decode B b = Inr rec
     \<and> ms_to_systime (due_at_ms rec) = (Inr due :: systime res) \<and> is_failed now due skew coord}"
  by (auto simp: late_ids_def)

text \<open>What a number of reports did to the sink and to the set.\<close>

definition reported :: "event list \<times> string set \<Rightarrow> event list \<times> string set \<Rightarrow> bool" where
  "reported st st' \<longleftrightarrow> snd st \<subseteq> snd st' \<and> finite (snd st') \<and>
     (\<exists>evs. fst st' = fst st @ evs \<and> length evs = card (snd st' - snd st) \<and> (\<forall>e \<in> set evs. ev_kind e = EvDomain ''worker_failed''))"

lemma reported_refl: "finite (snd st) \<Longrightarrow> reported st st"
  by (simp add: reported_def)

lemma reported_trans:
  assumes "reported a b" "reported b c"
  shows "reported a c"
proof -
  from assms obtain e1 e2 where e: "fst b = fst a @ e1" "length e1 = card (snd b - snd a)" "\<forall>e \<in> set e1. ev_kind e = EvDomain ''worker_failed''"
    "fst c = fst b @ e2" "length e2 = card (snd c - snd b)" "\<forall>e \<in> set e2. ev_kind e = EvDomain ''worker_failed''"
    by (auto simp: reported_def)
  have sub: "snd a \<subseteq> snd b" "snd b \<subseteq> snd c" "finite (snd b)" "finite (snd c)" using assms by (auto simp: reported_def)
  then have "snd c - snd a = (snd b - snd a) \<union> (snd c - snd b)" "(snd b - snd a) \<inter> (snd c - snd b) = {}" by auto
  then have "card (snd c - snd a) = card (snd b - snd a) + card (snd c - snd b)"
    using sub by (simp add: card_Un_disjoint)
  with e sub show ?thesis unfolding reported_def by (intro conjI exI[of _ "e1 @ e2"]) auto
qed

lemma reported_one:
  assumes "finite af" "w \<notin> af" "ev_kind ev = EvDomain ''worker_failed''"
  shows "reported (m, af) (m @ [ev], insert w af)"
proof -
  have "insert w af - af = {w}" using assms(2) by auto
  then show ?thesis using assms by (auto simp: reported_def)
qed

lemma scan_failed_reports:
  assumes "finite (snd st)" "scan_failed U B (recording answer) ts now skew coord rows st = (r, st')"
  shows "reported st st' \<and> (r = Inr () \<longrightarrow> snd st' = snd st \<union> late_ids B now skew coord rows)"
  using assms
proof (induction rows arbitrary: st)
  case Nil
  then show ?case by (auto simp: reported_refl late_ids_simps)
next
  case (Cons row rows)
  obtain k b where row: "row = (k, b)" by (cases row)
  obtain m af where st: "st = (m, af)" by (cases st)
  show ?case
  proof (cases "decode B b")
    case (Inl e)
    with Cons show ?thesis by (simp add: row late_ids_simps)
  next
    case (Inr rec)
    show ?thesis
    proof (cases "ms_to_systime (due_at_ms rec) :: systime res")
      case (Inl e)
      with Cons.prems Inr show ?thesis by (auto simp: row st bindS_def reported_refl)
    next
      case due: (Inr due)
      let ?late = "is_failed now due skew coord"
      have ids: "late_ids B now skew coord (row # rows) = late_ids B now skew coord rows \<union> (if ?late then {hr_worker_id rec} else {})"
        using Inr due by (auto simp: row late_ids_simps)
      let ?st = "if ?late \<and> hr_worker_id rec \<notin> af then (m @ [failed_event U (ts rec) rec], insert (hr_worker_id rec) af) else (m, af)"
      have run: "scan_failed U B (recording answer) ts now skew coord rows ?st = (r, st')"
        using Cons.prems(2) Inr due by (auto simp: row st bindS_def split: if_splits)
      have step: "reported st ?st"
        using Cons.prems(1) by (auto simp: st reported_one reported_refl failed_event_def)
      then have "finite (snd ?st)" by (simp add: reported_def)
      note rest = Cons.IH[OF this run]
      have "snd ?st \<union> late_ids B now skew coord rows = snd st \<union> late_ids B now skew coord (row # rows)"
        unfolding ids by (auto simp: st)
      with rest reported_trans[OF step] show ?thesis by simp
    qed
  qed
qed

lemma scan_loop_reports:
  assumes "finite (snd st)" "failure_scan_loop S U B (recording answer) ts skew coord inputs st = (r, st')"
  shows "reported st st'"
  using assms
proof (induction inputs arbitrary: st)
  case Nil
  then show ?case by (auto simp: reported_refl)
next
  case (Cons i inputs)
  show ?case
  proof (cases i)
    case (ShutdownChanged f)
    with Cons show ?thesis by (auto simp: reported_refl split: if_splits)
  next
    case (Tick now s)
    obtain r1 st1 where one: "scan_once S U B (recording answer) ts now skew coord s st = (r1, st1)" by (metis prod.collapse)
    have step: "reported st st1"
    proof (cases "scan_bytes S heartbeat_range s")
      case (Inl e)
      with one Cons.prems(1) show ?thesis by (auto simp: scan_once_def bindS_def reported_refl)
    next
      case (Inr rows)
      with one have "scan_failed U B (recording answer) ts now skew coord rows st = (r1, st1)"
        by (simp add: scan_once_def bindS_def)
      with scan_failed_reports[OF Cons.prems(1)] show ?thesis by blast
    qed
    have "st' = st1 \<or> failure_scan_loop S U B (recording answer) ts skew coord inputs st1 = (r, st')"
      using Cons.prems(2) Tick one by (auto split: sum.splits fault.splits)
    then show ?thesis
    proof
      assume "failure_scan_loop S U B (recording answer) ts skew coord inputs st1 = (r, st')"
      moreover have "finite (snd st1)" using step by (simp add: reported_def)
      ultimately show ?thesis using Cons.IH step reported_trans by blast
    qed (use step in simp)
  qed
qed


text \<open>
  A scan misses no late worker. A scan that succeeds has reported, now or before, exactly the
  workers it had reported before and those whose stored heartbeat is late by both budgets at the
  time of the scan.
\<close>
theorem scan_reports_all_late:
  assumes "embedded_scan_bytes R K heartbeat_range s = Inr rows" "finite af"
    and "scan_once (embedded_ops R K) U B (recording answer) ts now skew coord s (m, af) = (Inr (), (m', af'))"
  shows "af' = af \<union> late_ids B now skew coord rows \<and> length m' = length m + card (af' - af)"
proof -
  have "scan_failed U B (recording answer) ts now skew coord rows (m, af) = (Inr (), (m', af'))"
    using assms(1,3) by (simp add: scan_once_def bindS_def)
  from scan_failed_reports[OF _ this] assms(2) show ?thesis by (auto simp: reported_def)
qed

section \<open>Properties of the lease-renew loop\<close>

context storage
begin

lemma renew_false_unchanged:
  assumes "inv s" "okk (lease_key run)" "okk (epoch_key run)" "renew S L E run now held ttl s = (Inr False, s')"
  shows "view s' = view s"
proof -
  obtain b where "commit_claim S L E run (Some b) \<lparr>holder = holder held, epoch = epoch held, expires_at_ms = now + as_millis ttl\<rparr> s = (Inr False, s')"
    using assms(4) by (auto simp: renew_def Let_def comp_iff)
  from commit_claim_outcomes[OF assms(1-3) this] show ?thesis by simp
qed

lemma renew_tick_aborts:
  assumes "inv s" "okk (lease_key run)" "okk (epoch_key run)"
    and "renew_tick S L E (recording answer) run me ttl start now ts (s, m) = (Aborted stale observed, s', m')"
  shows "view s' = view s \<and> m' = m @ [fence_event ts me run stale observed]"
proof -
  obtain held where cur: "current_lease S L run s = Inr (Some held)"
    using assms(4) by (auto simp: renew_tick_def split: sum.splits option.splits fault.splits)
  show ?thesis
  proof (cases "holder held = me")
    case False
    with assms(4) cur show ?thesis by (auto simp: renew_tick_def fence_old_coordinator_def)
  next
    case True
    obtain r1 s1 where ren: "renew S L E run now held ttl s = (r1, s1)" by (metis prod.collapse)
    with assms(4) cur True have "r1 = Inr False" "s' = s1" "m' = m @ [fence_event ts me run stale observed]"
      by (auto simp: renew_tick_def fence_old_coordinator_def Let_def split: sum.splits bool.splits fault.splits)
    with renew_false_unchanged[OF assms(1-3)] ren show ?thesis by auto
  qed
qed

end


section \<open>Properties of the drain\<close>

text \<open>An environment that also logs the calls that completed.\<close>

definition logged :: "'w drain_env \<Rightarrow> (drain_action list \<times> 'w) drain_env" where
  "logged X = \<lparr>signal = (\<lambda>(log, w). case signal X w of (r, w') \<Rightarrow> (r, (log, w'))),
     perform = (\<lambda>a (log, w). case perform X a w of (Inr u, w') \<Rightarrow> (Inr u, (log @ [a], w')) | (Inl e, w') \<Rightarrow> (Inl e, (log, w'))),
     interrupted = interrupted X, torn = (\<lambda>a (log, w). (log, torn X a w)), show_duration = show_duration X\<rparr>"

lemma drain_run_logged:
  assumes "drain_run (logged X) cfg n as (log, w) = (r, (log', w'))"
  shows "(\<exists>done. prefix done as \<and> log' = log @ done) \<and> (r = Inr () \<longrightarrow> log' = log @ as)"
  using assms
proof (induction as arbitrary: n log w)
  case Nil
  then show ?case by simp
next
  case (Cons a as)
  show ?case
  proof (cases "interrupted X n")
    case True
    with Cons.prems show ?thesis by (auto simp: logged_def intro: exI[of _ "[]"])
  next
    case False
    obtain r1 w1 where p: "perform X a w = (r1, w1)" by (metis prod.collapse)
    show ?thesis
    proof (cases r1)
      case (Inl e)
      with Cons.prems False p show ?thesis by (auto simp: logged_def bindS_def intro: exI[of _ "[]"])
    next
      case (Inr u)
      with Cons.prems False p have "drain_run (logged X) cfg (Suc n) as (log @ [a], w1) = (r, (log', w'))"
        by (simp add: logged_def bindS_def)
      from Cons.IH[OF this] show ?thesis by (auto intro: exI[of _ "a # _"])
    qed
  qed
qed


section \<open>Witnesses\<close>

definition coord_demo_ulids :: ulid_crate where
  "coord_demo_ulids = \<lparr>ulid_to_string = (\<lambda>u. decimal (unat u)), ulid_parse = (\<lambda>_. Inl ''unused'')\<rparr>"

definition coord_demo_codecs :: coord_codecs where
  "coord_demo_codecs = \<lparr>entry_codec = table_codec [\<lparr>re_worker_id = ''7'', re_run_id = ''1'', registered_at_ms = 0\<rparr>],
     beat_codec = table_codec [\<lparr>hr_worker_id = ''7'', hr_run_id = ''1'', hr_state = 2, due_at_ms = 1000, received_at_ms = 0\<rparr>]\<rparr>"

definition coord_demo_keys :: key_codec where
  "coord_demo_keys = table_codec [(None, [''7'']), (Some (RunId 1), [])]"

definition coord_demo_beat :: heartbeat_msg where
  "coord_demo_beat = \<lparr>hb_worker = WorkerId 7, hb_run = RunId 1, hb_state = Ready, hb_due_at = 1000000000\<rparr>"

abbreviation coord_demo_ops :: "(embedded_storage, embedded_txn) storage_ops" where
  "coord_demo_ops \<equiv> embedded_ops faultless coord_demo_keys"

abbreviation quiet :: "event list emitter" where
  "quiet \<equiv> recording (\<lambda>_. Inr ())"

abbreviation coord_demo_run :: "unit res \<times> embedded_storage \<times> event list" where
  "coord_demo_run \<equiv> heartbeat coord_demo_ops coord_demo_ulids coord_demo_codecs quiet (RunId 1) (\<lambda>_. 0) coord_demo_beat (empty_store, [])"

definition coord_demo_store :: embedded_storage where
  "coord_demo_store = fst (snd coord_demo_run)"

lemma coord_demo_eq: "coord_demo_run = (Inr (), (coord_demo_store, snd (snd coord_demo_run)))"
proof -
  have "fst coord_demo_run = Inr ()" by code_simp
  then show ?thesis unfolding coord_demo_store_def by (metis prod.collapse)
qed

lemma coord_demo_hyps:
  "embedded_inv coord_demo_keys empty_store" "registry_keys_ok coord_demo_keys coord_demo_ulids (hb_worker coord_demo_beat)"
  "lease_keys_ok coord_demo_keys (RunId 1)" "registry_keys_ok coord_demo_keys coord_demo_ulids (WorkerId 7)"
  by code_simp+

theorem heartbeat_recorded_witness:
  "\<exists>b. encode (beat_codec coord_demo_codecs) (beat_record coord_demo_ulids 0 coord_demo_beat) = Inr b
     \<and> embedded_view coord_demo_keys coord_demo_store (heartbeat_key coord_demo_ulids (WorkerId 7)) = Some b"
  using heartbeat_recorded[OF coord_demo_hyps(1,2) coord_demo_eq] by (auto simp: coord_demo_beat_def)

theorem registry_invariant_kept_witness:
  "registry_inv coord_demo_ulids (embedded_view coord_demo_keys coord_demo_store)"
proof -
  have empty: "registry_inv coord_demo_ulids (embedded_view coord_demo_keys empty_store)"
    by (simp add: registry_inv_def embedded_view_def db_view_def empty_store_def table_rows_def)
  have "hb_worker coord_demo_beat = WorkerId 7" by (simp add: coord_demo_beat_def)
  from registry_invariant_kept[OF coord_demo_hyps(1,4) empty this disjI2[OF disjI2[OF coord_demo_eq]]] show ?thesis by simp
qed

theorem scan_reports_all_late_witness:
  "{''7''} = late_ids (beat_codec coord_demo_codecs) 7000000000 0 (from_secs 5)
     [(heartbeat_key coord_demo_ulids (WorkerId 7), [0])]"
proof -
  let ?run = "scan_once coord_demo_ops coord_demo_ulids (beat_codec coord_demo_codecs) quiet (\<lambda>_. 0) 7000000000 0 (from_secs 5) coord_demo_store ([], {})"
  have rows: "embedded_scan_bytes faultless coord_demo_keys heartbeat_range coord_demo_store
      = Inr [(heartbeat_key coord_demo_ulids (WorkerId 7), [0])]" by code_simp
  have "fst ?run = Inr ()" "snd (snd ?run) = {''7''}" by code_simp+
  then have "?run = (Inr (), (fst (snd ?run), {''7''}))" by (metis prod.collapse)
  from scan_reports_all_late[OF rows _ this] show ?thesis by simp
qed

definition fence_demo_store :: embedded_storage where
  "fence_demo_store = \<lparr>db = [''coordinator_lease'' \<mapsto> [([1], [1])]], watchers = []\<rparr>"


definition drain_demo_env :: "unit drain_env" where
  "drain_demo_env = \<lparr>signal = returnS (Some (from_secs 120)), perform = (\<lambda>_. returnS ()), interrupted = (\<lambda>n. n = 2),
     torn = (\<lambda>_ w. w), show_duration = (\<lambda>_. ''60s'')\<rparr>"


end
