(* ===== verification/Utf8.thy ===== *)
theory Utf8
  imports Prelude
begin

text \<open>
  Strings from bytes, as the standard library reads them: \<open>String::from_utf8\<close>, which refuses
  malformed input, and \<open>String::from_utf8_lossy\<close>, which replaces every maximal ill-formed prefix of
  a sequence by U+FFFD. A string is the list of its UTF-8 bytes as characters.
\<close>

definition cont :: "u8 \<Rightarrow> bool" where
  "cont b \<longleftrightarrow> 128 \<le> b \<and> b \<le> 191"

text \<open>Well-formed UTF-8, as \<open>String::from_utf8\<close> checks it.\<close>

fun utf8_valid :: "bytes \<Rightarrow> bool" where
  "utf8_valid [] = True"
| "utf8_valid (a # bs) =
     (if a \<le> 127 then utf8_valid bs
      else case bs of
        [] \<Rightarrow> False
      | b # bs1 \<Rightarrow>
          if 194 \<le> a \<and> a \<le> 223 then cont b \<and> utf8_valid bs1
          else (case bs1 of
             [] \<Rightarrow> False
           | c # bs2 \<Rightarrow>
               if 224 \<le> a \<and> a \<le> 239
               then cont b \<and> cont c \<and> (a = 224 \<longrightarrow> 160 \<le> b) \<and> (a = 237 \<longrightarrow> b \<le> 159) \<and> utf8_valid bs2
               else (case bs2 of
                  [] \<Rightarrow> False
                | d # bs3 \<Rightarrow>
                    240 \<le> a \<and> a \<le> 244 \<and> cont b \<and> cont c \<and> cont d \<and> (a = 240 \<longrightarrow> 144 \<le> b) \<and> (a = 244 \<longrightarrow> b \<le> 143)
                    \<and> utf8_valid bs3)))"

definition from_utf8 :: "(bytes \<Rightarrow> string) \<Rightarrow> bytes \<Rightarrow> string + string" where
  "from_utf8 utf8_msg b = (if utf8_valid b then Inr (map (\<lambda>x. char_of (unat x)) b) else Inl (utf8_msg b))"

text \<open>
  The length of the first sequence and whether it is well formed; of an ill-formed sequence, the
  part that one replacement character stands for.
\<close>

definition second_ok :: "u8 \<Rightarrow> u8 \<Rightarrow> bool" where
  "second_ok a b \<longleftrightarrow> cont b \<and> (a = 224 \<longrightarrow> 160 \<le> b) \<and> (a = 237 \<longrightarrow> b \<le> 159)
     \<and> (a = 240 \<longrightarrow> 144 \<le> b) \<and> (a = 244 \<longrightarrow> b \<le> 143)"

definition utf8_width :: "u8 \<Rightarrow> nat" where
  "utf8_width a = (if 194 \<le> a \<and> a \<le> 223 then 2 else if 224 \<le> a \<and> a \<le> 239 then 3
     else if 240 \<le> a \<and> a \<le> 244 then 4 else 1)"

fun utf8_chunk :: "u8 \<Rightarrow> bytes \<Rightarrow> nat \<times> bool" where
  "utf8_chunk a bs =
     (if a \<le> 127 then (1, True)
      else if utf8_width a = 1 then (1, False)
      else case bs of [] \<Rightarrow> (1, False) | b # bs1 \<Rightarrow>
        if \<not> second_ok a b then (1, False)
        else if utf8_width a = 2 then (2, True)
        else case bs1 of [] \<Rightarrow> (2, False) | c # bs2 \<Rightarrow>
          if \<not> cont c then (2, False)
          else if utf8_width a = 3 then (3, True)
          else case bs2 of [] \<Rightarrow> (3, False) | d # _ \<Rightarrow>
            if \<not> cont d then (3, False) else (4, True))"

lemma utf8_chunk_pos: "0 < fst (utf8_chunk a bs)"
  by (simp split: list.splits)

declare utf8_chunk.simps [simp del]

definition bytes_text :: "bytes \<Rightarrow> string" where
  "bytes_text b = map (\<lambda>x. char_of (unat x)) b"

function from_utf8_lossy :: "bytes \<Rightarrow> string" where
  "from_utf8_lossy [] = []"
| "from_utf8_lossy (a # bs) = (case utf8_chunk a bs of (n, ok) \<Rightarrow>
     (if ok then bytes_text (take n (a # bs)) else bytes_text [0xEF, 0xBF, 0xBD])
     @ from_utf8_lossy (drop n (a # bs)))"
  by pat_completeness auto

termination
proof (relation "measure length")
  fix a bs n ok
  assume "(n, ok) = utf8_chunk a bs"
  then have "0 < n" using utf8_chunk_pos [of a bs] by (metis fst_conv)
  then show "(drop n (a # bs), a # bs) \<in> measure length" by simp
qed simp

lemma utf8_widths:
  "194 \<le> a \<Longrightarrow> a \<le> 223 \<Longrightarrow> utf8_width a = 2 \<and> \<not> a \<le> 127 \<and> a \<noteq> 224 \<and> a \<noteq> 237 \<and> a \<noteq> 240 \<and> a \<noteq> 244"
  "224 \<le> a \<Longrightarrow> a \<le> 239 \<Longrightarrow>
     utf8_width a = 3 \<and> \<not> a \<le> 127 \<and> \<not> a \<le> 223 \<and> a \<noteq> 240 \<and> a \<noteq> 244"
  "240 \<le> a \<Longrightarrow> a \<le> 244 \<Longrightarrow>
     utf8_width a = 4 \<and> \<not> a \<le> 127 \<and> \<not> a \<le> 223 \<and> \<not> a \<le> 239 \<and> a \<noteq> 224 \<and> a \<noteq> 237"
  by (auto simp: utf8_width_def word_le_nat_alt)

lemma utf8_valid_chunk:
  assumes "utf8_valid (a # bs)"
  shows "snd (utf8_chunk a bs) \<and> utf8_valid (drop (fst (utf8_chunk a bs)) (a # bs))"
proof -
  consider "a \<le> 127" | "194 \<le> a" "a \<le> 223" | "224 \<le> a" "a \<le> 239" | "240 \<le> a" "a \<le> 244"
    using assms by (auto split: list.splits if_splits)
  then show ?thesis
  proof cases
    case 1
    then show ?thesis using assms by (simp add: utf8_chunk.simps)
  next
    case 2
    from utf8_widths(1) [OF this] assms 2 obtain b bs1 where "bs = b # bs1" "cont b" "utf8_valid bs1"
      by (auto split: list.splits)
    with utf8_widths(1) [OF 2] show ?thesis by (simp add: utf8_chunk.simps second_ok_def)
  next
    case 3
    from utf8_widths(2) [OF this] assms 3 obtain b c bs2 where "bs = b # c # bs2" "cont b" "cont c"
        "a = 224 \<longrightarrow> 160 \<le> b" "a = 237 \<longrightarrow> b \<le> 159" "utf8_valid bs2"
      by (auto split: list.splits)
    with utf8_widths(2) [OF 3] show ?thesis by (simp add: utf8_chunk.simps second_ok_def)
  next
    case 4
    from utf8_widths(3) [OF this] assms 4 obtain b c d bs3 where "bs = b # c # d # bs3" "cont b" "cont c"
        "cont d" "a = 240 \<longrightarrow> 144 \<le> b" "a = 244 \<longrightarrow> b \<le> 143" "utf8_valid bs3"
      by (auto split: list.splits)
    with utf8_widths(3) [OF 4] show ?thesis by (simp add: utf8_chunk.simps second_ok_def)
  qed
qed

text \<open>On well-formed input the lossy conversion loses nothing.\<close>

lemma from_utf8_lossy_valid: "utf8_valid b \<Longrightarrow> from_utf8_lossy b = bytes_text b"
proof (induction b rule: from_utf8_lossy.induct)
  case (2 a bs)
  obtain n ok where chunk: "utf8_chunk a bs = (n, ok)" by (cases "utf8_chunk a bs")
  with 2(2) have "ok" "utf8_valid (drop n (a # bs))"
    using utf8_valid_chunk [of a bs] by simp_all
  with 2(1) [OF chunk [symmetric]] chunk show ?case
    by (simp add: bytes_text_def flip: map_append)
qed (simp add: bytes_text_def)

end
