(* ===== verification/Batch_State.thy ===== *)
theory Batch_State
  imports Storage_Embedded
begin

text \<open>
  The sample state machine of resumable batch inference (\<open>rollout-runtime-batch/src/state.rs\<close>):
  records, keys, the content address of a sample and the four compare-and-swap transitions. Unlike
  the work items of the coordinator, completion, failure and re-pending trust their caller to pass
  a running record; \<open>sample_call_ok\<close> states that discipline, which \<open>Batch\<close> shows its callers keep.
\<close>

section \<open>Samples\<close>

text \<open>Floating-point parameters are kept as their bit patterns.\<close>

record sampling_params =
  temperature :: u32
  top_p :: u32
  top_k :: "32 word"
  max_tokens :: u32
  seed :: "u64 option"
  stop :: "string list"
  stream :: bool

datatype sample_state =
    SPending
  | SRunning (s_worker: worker_id) (s_started_at_ms: u64)
  | SDone (completion_blob: content_id) (finished_at_ms: u64)
  | SFailed (s_reason: string) (failed_at_ms: u64)

record sample_record =
  sample_rid :: content_id
  prompt_blob :: content_id
  sample_st :: sample_state
  created_at_ms :: u64
  input_idx :: u64

definition sampling_params_schema_version :: u8 where
  "sampling_params_schema_version = 1"

definition default_stale_after_ms :: u64 where
  "default_stale_after_ms = 5 * 60000"

definition sample_key :: "run_id \<Rightarrow> content_id \<Rightarrow> storage_key" where
  "sample_key run sid = \<lparr>namespace = ''infer'', key_run = Some run, path = [''samples'', content_id_to_string sid]\<rparr>"

text \<open>Rust strings are their UTF-8 bytes; \<open>u64::to_le_bytes\<close>.\<close>

definition as_bytes :: "string \<Rightarrow> bytes" where
  "as_bytes s = map (\<lambda>c. word_of_nat (of_char c)) s"

definition to_le_bytes :: "u64 \<Rightarrow> bytes" where
  "to_le_bytes x = map (\<lambda>i. ucast (drop_bit (8 * i) x)) [0..<8]"

definition sample_id :: "blake3 \<Rightarrow> sampling_params codec \<Rightarrow> content_id \<Rightarrow> string \<Rightarrow> sampling_params \<Rightarrow> u64 \<Rightarrow> content_id res" where
  "sample_id H PC model prompt params idx =
     (case encode PC params of
        Inl e \<Rightarrow> Inl (Panic (''postcard SamplingParams: '' @ e))
      | Inr p \<Rightarrow> Inr (ContentId (H ([sampling_params_schema_version] @ digest model @ as_bytes prompt @ p @ to_le_bytes idx))))"

definition encode_sample :: "sample_record codec \<Rightarrow> sample_record \<Rightarrow> bytes res" where
  "encode_sample C rec = map_err (\<lambda>e. internal (''postcard SampleRecord encode: '' @ e)) (encode C rec)"

definition decode_sample :: "sample_record codec \<Rightarrow> bytes \<Rightarrow> sample_record res" where
  "decode_sample C b = map_err (\<lambda>e. internal (''postcard SampleRecord decode: '' @ e)) (decode C b)"

section \<open>Transitions\<close>

definition cas_sample :: "('s, 't) storage_ops \<Rightarrow> sample_record codec \<Rightarrow> run_id \<Rightarrow> sample_record \<Rightarrow> sample_state \<Rightarrow> ('t, bool) io" where
  "cas_sample S C run rec st =
     bindS (liftE (encode_sample C rec)) (\<lambda>expected.
     bindS (liftE (encode_sample C (rec\<lparr>sample_st := st\<rparr>))) (\<lambda>new.
     cas_bytes S (sample_key run (sample_rid rec)) (Some expected) (Some new)))"

definition claimable :: "u64 \<Rightarrow> u64 \<Rightarrow> sample_state \<Rightarrow> bool" where
  "claimable now stale_after st = (case st of
     SPending \<Rightarrow> True
   | SRunning _ started \<Rightarrow> saturating_sub now started > stale_after
   | _ \<Rightarrow> False)"

definition sample_try_claim :: "('s, 't) storage_ops \<Rightarrow> sample_record codec \<Rightarrow> run_id \<Rightarrow> sample_record \<Rightarrow> worker_id
    \<Rightarrow> u64 \<Rightarrow> u64 \<Rightarrow> ('t, bool) io" where
  "sample_try_claim S C run rec w now stale_after =
     (if \<not> claimable now stale_after (sample_st rec) then returnS False
      else cas_sample S C run rec (SRunning w now))"

definition sample_try_complete :: "('s, 't) storage_ops \<Rightarrow> sample_record codec \<Rightarrow> run_id \<Rightarrow> sample_record \<Rightarrow> content_id
    \<Rightarrow> u64 \<Rightarrow> ('t, bool) io" where
  "sample_try_complete S C run rec blob finished_at = cas_sample S C run rec (SDone blob finished_at)"

definition sample_try_fail :: "('s, 't) storage_ops \<Rightarrow> sample_record codec \<Rightarrow> run_id \<Rightarrow> sample_record \<Rightarrow> string
    \<Rightarrow> u64 \<Rightarrow> ('t, bool) io" where
  "sample_try_fail S C run rec reason failed_at = cas_sample S C run rec (SFailed reason failed_at)"

definition sample_try_repending :: "('s, 't) storage_ops \<Rightarrow> sample_record codec \<Rightarrow> run_id \<Rightarrow> sample_record \<Rightarrow> ('t, bool) io" where
  "sample_try_repending S C run rec = cas_sample S C run rec SPending"

section \<open>What a transition does to the rows\<close>

definition sample_row :: "sample_record codec \<Rightarrow> run_id \<Rightarrow> content_id \<Rightarrow> store_view \<Rightarrow> sample_record option" where
  "sample_row C run sid v = (case v (sample_key run sid) of None \<Rightarrow> None
     | Some b \<Rightarrow> (case decode C b of Inl _ \<Rightarrow> None | Inr r \<Rightarrow> Some r))"

definition moved :: "sample_record codec \<Rightarrow> run_id \<Rightarrow> sample_record \<Rightarrow> sample_state \<Rightarrow> store_view \<Rightarrow> store_view \<Rightarrow> bool" where
  "moved C run rec st v v' \<longleftrightarrow> (\<exists>old new. encode C rec = Inr old \<and> v (sample_key run (sample_rid rec)) = Some old
     \<and> encode C (rec\<lparr>sample_st := st\<rparr>) = Inr new \<and> v' = v(sample_key run (sample_rid rec) \<mapsto> new))"

lemma sample_key_inj [simp]: "sample_key run a = sample_key run b \<longleftrightarrow> a = b"
  by (simp add: sample_key_def)

lemma moved_row:
  assumes "codec_ok C" "moved C run rec st v v'"
  shows "sample_row C run (sample_rid rec) v = Some rec" "sample_row C run (sample_rid rec) v' = Some (rec\<lparr>sample_st := st\<rparr>)"
    and "sid \<noteq> sample_rid rec \<Longrightarrow> sample_row C run sid v' = sample_row C run sid v"
    and "k \<noteq> sample_key run (sample_rid rec) \<Longrightarrow> v' k = v k"
  using assms by (auto simp: moved_def sample_row_def codec_okD)

context storage
begin

lemma cas_sample_law:
  assumes "tinv t" "okk (sample_key run (sample_rid rec))" "cas_sample S C run rec st t = (Inr won, t')"
  shows "tinv t' \<and> (if won then moved C run rec st (tview t) (tview t') else tview t' = tview t)"
  using assms cas_law[OF assms(1,2)]
  by (fastforce simp: cas_sample_def encode_sample_def comp_iff moved_def)

lemma sample_commit_outcomes:
  assumes "inv s" "okk (sample_key run (sample_rid rec))" "commit_if S (cas_sample S C run rec st) s = (r, s')"
  shows "inv s' \<and> (view s' = view s \<or> moved C run rec st (view s) (view s'))
     \<and> (r = Inr True \<longrightarrow> moved C run rec st (view s) (view s')) \<and> (r = Inr False \<longrightarrow> view s' = view s)"
  by (rule commit_if_outcomes[OF assms(1,3)]) (use cas_sample_law[OF _ assms(2)] in \<open>metis (full_types)\<close>)

end

section \<open>Interleavings\<close>

datatype sample_call =
    SClaim sample_record worker_id u64 u64
  | SComplete sample_record content_id u64
  | SFail sample_record string u64
  | SRepend sample_record

fun call_record :: "sample_call \<Rightarrow> sample_record" where
  "call_record (SClaim rec w n d) = rec"
| "call_record (SComplete rec b n) = rec"
| "call_record (SFail rec e n) = rec"
| "call_record (SRepend rec) = rec"

fun call_txn :: "('s, 't) storage_ops \<Rightarrow> sample_record codec \<Rightarrow> run_id \<Rightarrow> sample_call \<Rightarrow> ('t, bool) io" where
  "call_txn S C run (SClaim rec w n d) = sample_try_claim S C run rec w n d"
| "call_txn S C run (SComplete rec b n) = sample_try_complete S C run rec b n"
| "call_txn S C run (SFail rec e n) = sample_try_fail S C run rec e n"
| "call_txn S C run (SRepend rec) = sample_try_repending S C run rec"

fun call_next :: "sample_call \<Rightarrow> sample_state" where
  "call_next (SClaim rec w n d) = SRunning w n"
| "call_next (SComplete rec b n) = SDone b n"
| "call_next (SFail rec e n) = SFailed e n"
| "call_next (SRepend rec) = SPending"

definition is_srunning :: "sample_state \<Rightarrow> bool" where
  "is_srunning st \<longleftrightarrow> (case st of SRunning _ _ \<Rightarrow> True | _ \<Rightarrow> False)"

definition is_terminal_sample :: "sample_state \<Rightarrow> bool" where
  "is_terminal_sample st \<longleftrightarrow> (case st of SDone _ _ \<Rightarrow> True | SFailed _ _ \<Rightarrow> True | _ \<Rightarrow> False)"

text \<open>The discipline of the callers: only running records are completed, failed or re-pended.\<close>

fun sample_call_ok :: "sample_call \<Rightarrow> bool" where
  "sample_call_ok (SClaim rec w n d) = True"
| "sample_call_ok c = is_srunning (sample_st (call_record c))"

fun settles :: "content_id \<Rightarrow> sample_call \<times> bool res \<Rightarrow> bool" where
  "settles sid (SComplete rec b n, Inr True) = (sample_rid rec = sid)"
| "settles sid (SFail rec e n, Inr True) = (sample_rid rec = sid)"
| "settles sid l = False"

inductive sample_trace :: "('s, 't) storage_ops \<Rightarrow> sample_record codec \<Rightarrow> run_id \<Rightarrow> (sample_call \<times> bool res) list \<Rightarrow> 's \<Rightarrow> 's \<Rightarrow> bool"
  for S C run where
  strace_nil: "sample_trace S C run [] s s"
| strace_cons: "sample_call_ok c \<Longrightarrow> commit_if S (call_txn S C run c) s = (r, s1) \<Longrightarrow> sample_trace S C run ls s1 s' \<Longrightarrow>
    sample_trace S C run ((c, r) # ls) s s'"

context storage
begin

lemma sample_call_outcomes:
  assumes "inv s" "okk (sample_key run (sample_rid (call_record c)))" "sample_call_ok c" "commit_if S (call_txn S C run c) s = (r, s')"
  defines "m \<equiv> \<not> is_terminal_sample (sample_st (call_record c)) \<and> moved C run (call_record c) (call_next c) (view s) (view s')"
  shows "inv s' \<and> (view s' = view s \<or> m) \<and> (r = Inr True \<longrightarrow> m) \<and> (r = Inr False \<longrightarrow> view s' = view s)"
proof (cases "\<exists>rec w n d. c = SClaim rec w n d \<and> \<not> claimable n d (sample_st rec)")
  case True
  then have "commit_if S (returnS False) s = (r, s')" using assms(4) by (auto simp: sample_try_claim_def)
  from commit_if_outcomes[OF assms(1) this, of "\<lambda>_. False"] show ?thesis by auto
next
  case False
  then have "call_txn S C run c = cas_sample S C run (call_record c) (call_next c)"
    by (cases c) (auto simp: sample_try_claim_def sample_try_complete_def sample_try_fail_def sample_try_repending_def)
  moreover have "\<not> is_terminal_sample (sample_st (call_record c))"
    using False assms(3) by (cases c) (auto simp: is_terminal_sample_def is_srunning_def claimable_def split: sample_state.splits)
  ultimately show ?thesis
    using sample_commit_outcomes[OF assms(1,2), of C "call_next c" r s'] assms(4) by (auto simp: m_def)
qed

lemma sample_step_row:
  assumes "codec_ok C" "inv s" "okk (sample_key run (sample_rid (call_record c)))" "sample_call_ok c"
    and "commit_if S (call_txn S C run c) s = (r, s')"
  shows "inv s'"
    and "sample_row C run sid (view s) = Some rec \<Longrightarrow> is_terminal_sample (sample_st rec) \<Longrightarrow>
      sample_row C run sid (view s') = Some rec \<and> \<not> settles sid (c, r)"
    and "settles sid (c, r) \<Longrightarrow> \<exists>rec. sample_row C run sid (view s') = Some rec \<and> is_terminal_sample (sample_st rec)"
proof -
  note out = sample_call_outcomes[OF assms(2-5)]
  show "inv s'" using out by blast
  have settled: "r = Inr True \<and> sample_rid (call_record c) = sid \<and> is_terminal_sample (call_next c)" if "settles sid (c, r)"
    using that by (cases "(sid, (c, r))" rule: settles.cases) (auto simp: is_terminal_sample_def)
  show "sample_row C run sid (view s') = Some rec \<and> \<not> settles sid (c, r)"
    if "sample_row C run sid (view s) = Some rec" "is_terminal_sample (sample_st rec)"
    using out moved_row(1,3)[OF assms(1), of run "call_record c" "call_next c" "view s" "view s'"] that settled
    by (metis option.inject)
  show "\<exists>rec. sample_row C run sid (view s') = Some rec \<and> is_terminal_sample (sample_st rec)" if "settles sid (c, r)"
    using out moved_row(2)[OF assms(1), of run "call_record c" "call_next c" "view s" "view s'"] settled[OF that] by auto
qed

lemma terminal_is_final:
  assumes "codec_ok C" "sample_trace S C run ls s s'" "inv s"
    and "\<forall>(c, r) \<in> set ls. okk (sample_key run (sample_rid (call_record c)))"
    and "sample_row C run sid (view s) = Some rec" "is_terminal_sample (sample_st rec)"
  shows "sample_row C run sid (view s') = Some rec \<and> filter (settles sid) ls = []"
  using assms(2-5)
proof induction
  case (strace_cons c s r s1 ls s')
  from sample_step_row(1,2)[OF assms(1) strace_cons.prems(1) _ strace_cons.hyps(1,2)] strace_cons.prems assms(6)
  have "inv s1" "sample_row C run sid (view s1) = Some rec" "\<not> settles sid (c, r)" by auto
  with strace_cons.IH strace_cons.prems(2) show ?case by auto
qed simp

lemma settled_at_most_once:
  assumes "codec_ok C" "sample_trace S C run ls s s'" "inv s"
    and "\<forall>(c, r) \<in> set ls. okk (sample_key run (sample_rid (call_record c)))"
  shows "length (filter (settles sid) ls) \<le> 1
     \<and> (filter (settles sid) ls \<noteq> [] \<longrightarrow> (\<exists>rec. sample_row C run sid (view s') = Some rec \<and> is_terminal_sample (sample_st rec)))"
  using assms(2-4)
proof induction
  case (strace_cons c s r s1 ls s')
  note step = sample_step_row[OF assms(1) strace_cons.prems(1) _ strace_cons.hyps(1,2)]
  have okk: "okk (sample_key run (sample_rid (call_record c)))" "\<forall>(c, r) \<in> set ls. okk (sample_key run (sample_rid (call_record c)))"
    using strace_cons.prems(2) by auto
  show ?case
  proof (cases "settles sid (c, r)")
    case True
    from step(3)[OF okk(1) True] obtain rec where rec: "sample_row C run sid (view s1) = Some rec" "is_terminal_sample (sample_st rec)" by blast
    from terminal_is_final[OF assms(1) strace_cons.hyps(3) step(1)[OF okk(1)] okk(2) rec] rec True show ?thesis by auto
  next
    case False
    with strace_cons.IH[OF step(1)[OF okk(1)] okk(2)] show ?thesis by simp
  qed
qed simp

end


section \<open>Witness\<close>

text \<open>A worker completes its sample; a second worker with a stale record tries to fail it.\<close>

definition sample_demo_sid :: content_id where
  "sample_demo_sid = ContentId [5]"

definition sample_demo_rec :: "sample_state \<Rightarrow> sample_record" where
  "sample_demo_rec st = \<lparr>sample_rid = sample_demo_sid, prompt_blob = ContentId [9], sample_st = st, created_at_ms = 0, input_idx = 0\<rparr>"

definition sample_demo_codec :: "sample_record codec" where
  "sample_demo_codec = table_codec (map sample_demo_rec
     [SPending, SRunning (WorkerId 1) 10, SDone (ContentId [6]) 20, SFailed ''late'' 30])"

definition sample_demo_keys :: key_codec where
  "sample_demo_keys = table_codec [(Some (RunId 1), [''samples'', content_id_to_string sample_demo_sid])]"

definition sample_demo_store :: embedded_storage where
  "sample_demo_store = \<lparr>db = [''infer'' \<mapsto> [([0], [1])]], watchers = []\<rparr>"

abbreviation sample_demo_ops :: "(embedded_storage, embedded_txn) storage_ops" where
  "sample_demo_ops \<equiv> embedded_ops faultless sample_demo_keys"

definition sample_demo_calls :: "sample_call list" where
  "sample_demo_calls = [SComplete (sample_demo_rec (SRunning (WorkerId 1) 10)) (ContentId [6]) 20,
     SFail (sample_demo_rec (SRunning (WorkerId 1) 10)) ''late'' 30]"

fun run_samples :: "('s, 't) storage_ops \<Rightarrow> sample_record codec \<Rightarrow> run_id \<Rightarrow> sample_call list \<Rightarrow> 's \<Rightarrow> (sample_call \<times> bool res) list \<times> 's" where
  "run_samples S C run [] s = ([], s)"
| "run_samples S C run (c # cs) s = (case commit_if S (call_txn S C run c) s of (r, s1) \<Rightarrow>
     case run_samples S C run cs s1 of (ls, s') \<Rightarrow> ((c, r) # ls, s'))"

lemma run_samples_trace:
  "list_all sample_call_ok cs \<Longrightarrow> sample_trace S C run (fst (run_samples S C run cs s)) s (snd (run_samples S C run cs s))"
proof (induction cs arbitrary: s)
  case (Cons c cs)
  obtain r s1 where c: "commit_if S (call_txn S C run c) s = (r, s1)" by fastforce
  with Cons.IH[of s1] Cons.prems show ?case by (auto simp: split_def intro: strace_cons)
qed (auto intro: strace_nil)


end
