(* ===== verification/Local_Queue.thy ===== *)
theory Local_Queue
  imports Storage_Embedded
begin

text \<open>
  The local work queue (\<open>rollout-cloud-local/src/queue.rs\<close>): a deque in memory whose unacknowledged
  items are mirrored in the metadata store, so that \<open>open\<close> can replay them after a restart. The
  trait \<open>Queue\<close> is a record of operations over the shared store and the queue's own state, the
  locale \<open>work_queue\<close> what its clients rely on, and \<open>inmem\<close> its interpretation on \<open>InMemQueue\<close> over redb.
\<close>

section \<open>The queue\<close>

datatype lease_token = LeaseToken bytes

record 'w queue_ops =
  enqueue_item :: "bytes \<Rightarrow> ('w, queue_item_id) io"
  dequeue_item :: "('w, (queue_item_id \<times> bytes) option) io"
  ack_item :: "queue_item_id \<Rightarrow> ('w, unit) io"
  nack_item :: "queue_item_id \<Rightarrow> ('w, unit) io"
  dequeue_with_lease :: "duration \<Rightarrow> ('w, (queue_item_id \<times> bytes \<times> lease_token) option) io"
  extend_lease :: "queue_item_id \<Rightarrow> lease_token \<Rightarrow> duration \<Rightarrow> ('w, unit) io"

text \<open>
  What the queue uses of the \<open>ulid\<close> crate: text form and parsing, the monotonic generator with its
  state \<open>'g\<close>, the bytes of an identifier and the debug form in messages.
\<close>

record 'g queue_crate =
  q_text :: ulid_crate
  q_generate :: "'g \<Rightarrow> (string + ulid) \<times> 'g"
  q_to_bytes :: "ulid \<Rightarrow> bytes"
  q_debug :: "queue_item_id \<Rightarrow> string"

record 'g inmem_queue =
  deque :: "(queue_item_id \<times> bytes) list"
  ids :: 'g

definition queue_namespace :: string where
  "queue_namespace = ''cloudlocal_queue''"

definition key_for :: "ulid_crate \<Rightarrow> queue_item_id \<Rightarrow> storage_key" where
  "key_for U qid = \<lparr>namespace = queue_namespace, key_run = None, path = [ulid_to_string U (queue_ulid qid)]\<rparr>"

text \<open>The replay loop of \<open>open\<close>: rows whose first path segment is not a ULID are skipped.\<close>

fun replay_entries :: "ulid_crate \<Rightarrow> (storage_key \<times> bytes) list \<Rightarrow> (queue_item_id \<times> bytes) list" where
  "replay_entries U [] = []"
| "replay_entries U ((k, payload) # entries) =
     (case path k of
        [] \<Rightarrow> replay_entries U entries
      | seg # _ \<Rightarrow>
          (case ulid_parse U seg of
             Inl _ \<Rightarrow> replay_entries U entries
           | Inr u \<Rightarrow> (QueueItemId u, payload) # replay_entries U entries))"

definition queue_range :: key_range where
  "queue_range = \<lparr>range_prefix = \<lparr>namespace = queue_namespace, key_run = None, path = []\<rparr>, range_limit = None\<rparr>"

definition inmem_open :: "('s, 't) storage_ops \<Rightarrow> 'g queue_crate \<Rightarrow> 'g \<Rightarrow> 's \<Rightarrow> 'g inmem_queue res" where
  "inmem_open S E g s =
     bindE (scan_bytes S queue_range s) (\<lambda>entries.
     Inr \<lparr>deque = sort_key (\<lambda>x. queue_ulid (fst x)) (replay_entries (q_text E) entries), ids = g\<rparr>)"

definition inmem_enqueue :: "('s, 't) storage_ops \<Rightarrow> 'g queue_crate \<Rightarrow> bytes \<Rightarrow> ('s \<times> 'g inmem_queue, queue_item_id) io" where
  "inmem_enqueue S E payload =
     bindS (on_sink (\<lambda>q. case q_generate E (ids q) of (r, g) \<Rightarrow>
       (map_err (\<lambda>e. internal (''ulid monotonic overflow: '' @ e)) r, q\<lparr>ids := g\<rparr>))) (\<lambda>u.
     bindS (on_store (in_txn S (put_bytes S (key_for (q_text E) (QueueItemId u)) payload))) (\<lambda>_.
     bindS (on_sink (\<lambda>q. (Inr (), q\<lparr>deque := deque q @ [(QueueItemId u, payload)]\<rparr>))) (\<lambda>_.
     returnS (QueueItemId u))))"

definition inmem_dequeue :: "('s \<times> 'g inmem_queue, (queue_item_id \<times> bytes) option) io" where
  "inmem_dequeue = on_sink (\<lambda>q. case deque q of
     [] \<Rightarrow> (Inr None, q) | x # xs \<Rightarrow> (Inr (Some x), q\<lparr>deque := xs\<rparr>))"

definition inmem_ack :: "('s, 't) storage_ops \<Rightarrow> 'g queue_crate \<Rightarrow> queue_item_id \<Rightarrow> ('s \<times> 'g inmem_queue, unit) io" where
  "inmem_ack S E qid = on_store (in_txn S (delete_key S (key_for (q_text E) qid)))"

definition inmem_nack :: "('s, 't) storage_ops \<Rightarrow> 'g queue_crate \<Rightarrow> queue_item_id \<Rightarrow> ('s \<times> 'g inmem_queue, unit) io" where
  "inmem_nack S E qid =
     bindS (on_store (readS (get_bytes S (key_for (q_text E) qid)))) (\<lambda>stored. case stored of
       None \<Rightarrow> failS (internal (''nack: queue item '' @ q_debug E qid @ '' absent from storage''))
     | Some payload \<Rightarrow> on_sink (\<lambda>q. (Inr (), q\<lparr>deque := (qid, payload) # deque q\<rparr>)))"

definition from_queue_item_id :: "'g queue_crate \<Rightarrow> queue_item_id \<Rightarrow> lease_token" where
  "from_queue_item_id E qid = LeaseToken (q_to_bytes E (queue_ulid qid))"

definition inmem_dequeue_with_lease :: "'g queue_crate \<Rightarrow> duration
    \<Rightarrow> ('s \<times> 'g inmem_queue, (queue_item_id \<times> bytes \<times> lease_token) option) io" where
  "inmem_dequeue_with_lease E lease =
     bindS inmem_dequeue (\<lambda>x. case x of None \<Rightarrow> returnS None
       | Some (qid, payload) \<Rightarrow> returnS (Some (qid, payload, from_queue_item_id E qid)))"

definition inmem_extend_lease :: "('s, 't) storage_ops \<Rightarrow> 'g queue_crate \<Rightarrow> queue_item_id \<Rightarrow> lease_token \<Rightarrow> duration
    \<Rightarrow> ('s \<times> 'g inmem_queue, unit) io" where
  "inmem_extend_lease S E qid token extend_by =
     bindS (on_store (readS (get_bytes S (key_for (q_text E) qid)))) (\<lambda>stored.
     bindS (on_sink (readS (\<lambda>q. Inr (list_ex (\<lambda>x. queue_ulid (fst x) = queue_ulid qid) (deque q))))) (\<lambda>in_deque.
       if stored \<noteq> None \<and> \<not> in_deque then returnS ()
       else failS (transient (''extend_lease: QueueItemId '' @ q_debug E qid @ '' not in-flight'') Never)))"

definition inmem_ops :: "('s, 't) storage_ops \<Rightarrow> 'g queue_crate \<Rightarrow> ('s \<times> 'g inmem_queue) queue_ops" where
  "inmem_ops S E = \<lparr>enqueue_item = inmem_enqueue S E, dequeue_item = inmem_dequeue,
     ack_item = inmem_ack S E, nack_item = inmem_nack S E,
     dequeue_with_lease = inmem_dequeue_with_lease E, extend_lease = inmem_extend_lease S E\<rparr>"

section \<open>The contract\<close>

text \<open>
  \<open>unacked\<close> reads the items a store still owes, \<open>waiting\<close> the ones the queue will hand out next, \<open>own\<close>
  names the keys the queue keeps to itself. A client settles only items in flight: handed out and
  not yet acknowledged.
\<close>

locale work_queue =
  fixes Q :: "('s \<times> 'q) queue_ops"
    and view :: "'s \<Rightarrow> store_view"
    and winv :: "'s \<times> 'q \<Rightarrow> bool"
    and waiting :: "'q \<Rightarrow> (queue_item_id \<times> bytes) list"
    and unacked :: "store_view \<Rightarrow> queue_item_id \<Rightarrow> bytes option"
    and own :: "storage_key \<Rightarrow> bool"
  assumes backed: "winv (s, q) \<Longrightarrow> distinct (map fst (waiting q))
        \<and> (\<forall>(qid, p) \<in> set (waiting q). unacked (view s) qid = Some p)"
    and enqueue_law: "winv (s, q) \<Longrightarrow> enqueue_item Q p (s, q) = (re, (s', q')) \<Longrightarrow> winv (s', q')
        \<and> (\<forall>k. \<not> own k \<longrightarrow> view s' k = view s k)
        \<and> (\<forall>i b. unacked (view s) i = Some b \<longrightarrow> unacked (view s') i = Some b)
        \<and> (\<forall>qid. re = Inr qid \<longrightarrow> unacked (view s') = (unacked (view s))(qid \<mapsto> p) \<and> waiting q' = waiting q @ [(qid, p)]
             \<and> (\<forall>i. unacked (view s) i \<noteq> None \<longrightarrow> queue_ulid i < queue_ulid qid))"
    and dequeue_law: "winv (s, q) \<Longrightarrow> dequeue_item Q (s, q) = (rd, (s', q')) \<Longrightarrow> winv (s', q') \<and> view s' = view s
        \<and> (\<forall>x. rd = Inr (Some x) \<longrightarrow> waiting q = x # waiting q') \<and> (rd = Inr None \<longrightarrow> waiting q = [] \<and> waiting q' = [])"
    and ack_law: "winv (s, q) \<Longrightarrow> qid \<notin> fst ` set (waiting q) \<Longrightarrow> ack_item Q qid (s, q) = (r, (s', q')) \<Longrightarrow> winv (s', q')
        \<and> (\<forall>k. \<not> own k \<longrightarrow> view s' k = view s k) \<and> waiting q' = waiting q
        \<and> (\<forall>i. i \<noteq> qid \<longrightarrow> unacked (view s') i = unacked (view s) i)
        \<and> (r = Inr () \<longrightarrow> unacked (view s') qid = None)"
    and nack_law: "winv (s, q) \<Longrightarrow> qid \<notin> fst ` set (waiting q) \<Longrightarrow> nack_item Q qid (s, q) = (r, (s', q')) \<Longrightarrow> winv (s', q')
        \<and> view s' = view s
        \<and> (\<forall>p. unacked (view s) qid = Some p \<longrightarrow> r = Inr () \<longrightarrow> waiting q' = (qid, p) # waiting q)"
begin

lemma dequeued_in_flight:
  assumes "winv (s, q)" "dequeue_item Q (s, q) = (Inr (Some (qid, p)), (s', q'))"
  shows "winv (s', q') \<and> view s' = view s \<and> unacked (view s') qid = Some p \<and> qid \<notin> fst ` set (waiting q')"
  using backed[OF assms(1)] dequeue_law[OF assms] by auto

end

section \<open>Histories\<close>

datatype queue_call = EnqueueCall bytes | DequeueCall | AckCall queue_item_id | NackCall queue_item_id

datatype queue_reply =
    Enqueued queue_item_id
  | Dequeued "(queue_item_id \<times> bytes) option"
  | Settled
  | CallFailed "core_error fault"

definition reply :: "('a \<Rightarrow> queue_reply) \<Rightarrow> 'a res \<Rightarrow> queue_reply" where
  "reply f r = (case r of Inl e \<Rightarrow> CallFailed e | Inr a \<Rightarrow> f a)"

fun call_queue :: "'w queue_ops \<Rightarrow> queue_call \<Rightarrow> 'w \<Rightarrow> queue_reply \<times> 'w" where
  "call_queue Q (EnqueueCall p) w = (case enqueue_item Q p w of (r, w') \<Rightarrow> (reply Enqueued r, w'))"
| "call_queue Q DequeueCall w = (case dequeue_item Q w of (r, w') \<Rightarrow> (reply Dequeued r, w'))"
| "call_queue Q (AckCall qid) w = (case ack_item Q qid w of (r, w') \<Rightarrow> (reply (\<lambda>_. Settled) r, w'))"
| "call_queue Q (NackCall qid) w = (case nack_item Q qid w of (r, w') \<Rightarrow> (reply (\<lambda>_. Settled) r, w'))"

text \<open>The items a client may settle: owed and not waiting.\<close>

fun may_call :: "(store_view \<Rightarrow> queue_item_id \<Rightarrow> bytes option) \<Rightarrow> ('q \<Rightarrow> (queue_item_id \<times> bytes) list) \<Rightarrow> queue_call
    \<Rightarrow> store_view \<Rightarrow> 'q \<Rightarrow> bool" where
  "may_call unacked waiting (AckCall qid) v q = (unacked v qid \<noteq> None \<and> qid \<notin> fst ` set (waiting q))"
| "may_call unacked waiting (NackCall qid) v q = (unacked v qid \<noteq> None \<and> qid \<notin> fst ` set (waiting q))"
| "may_call unacked waiting _ v q = True"

inductive queue_trace :: "('s \<times> 'q) queue_ops \<Rightarrow> ('s \<Rightarrow> store_view) \<Rightarrow> ('q \<Rightarrow> (queue_item_id \<times> bytes) list)
    \<Rightarrow> (store_view \<Rightarrow> queue_item_id \<Rightarrow> bytes option) \<Rightarrow> (queue_call \<times> queue_reply) list \<Rightarrow> 's \<times> 'q \<Rightarrow> 's \<times> 'q \<Rightarrow> bool"
  for Q view waiting unacked where
  qtrace_nil: "queue_trace Q view waiting unacked [] w w"
| qtrace_cons: "may_call unacked waiting c (view s) q \<Longrightarrow> call_queue Q c (s, q) = (rep, w1) \<Longrightarrow>
    queue_trace Q view waiting unacked ls w1 w' \<Longrightarrow> queue_trace Q view waiting unacked ((c, rep) # ls) (s, q) w'"

text \<open>What a history leaves owed: the acknowledged effects, in order.\<close>

fun owed :: "(queue_call \<times> queue_reply) list \<Rightarrow> (queue_item_id \<times> bytes) list \<Rightarrow> (queue_item_id \<times> bytes) list" where
  "owed [] L = L"
| "owed ((EnqueueCall p, Enqueued qid) # ls) L = owed ls (L @ [(qid, p)])"
| "owed ((AckCall qid, Settled) # ls) L = owed ls (filter (\<lambda>x. fst x \<noteq> qid) L)"
| "owed (_ # ls) L = owed ls L"

fun call_failed :: "queue_reply \<Rightarrow> bool" where
  "call_failed (CallFailed e) = True"
| "call_failed _ = False"

definition listing :: "(queue_item_id \<Rightarrow> bytes option) \<Rightarrow> (queue_item_id \<times> bytes) list \<Rightarrow> bool" where
  "listing u L \<longleftrightarrow> sorted_wrt (<) (map (\<lambda>x. queue_ulid (fst x)) L) \<and> set L = {(i, p). u i = Some p}"

lemma listing_append:
  assumes "listing u L" "\<And>i. u i \<noteq> None \<Longrightarrow> queue_ulid i < queue_ulid qid"
  shows "listing (u(qid \<mapsto> p)) (L @ [(qid, p)])"
proof -
  have "u qid = None" using assms(2)[of qid] by (cases "u qid") auto
  then show ?thesis using assms by (auto simp: listing_def sorted_wrt_append split: if_splits)
qed

lemma listing_remove: "listing u L \<Longrightarrow> listing (u(qid := None)) (filter (\<lambda>x. fst x \<noteq> qid) L)"
  by (auto simp: listing_def sorted_wrt_map intro: sorted_wrt_filter split: if_splits)

lemma listing_unique: "listing u L \<Longrightarrow> listing u L' \<Longrightarrow> L = L'"
proof -
  assume L: "listing u L" "listing u L'"
  let ?f = "\<lambda>x :: queue_item_id \<times> bytes. queue_ulid (fst x)"
  have inj: "inj_on ?f (set L \<union> set L')" 
    using L by (auto simp: inj_on_def listing_def) (metis option.inject queue_item_id.expand)+
  have "sorted_wrt (<) (map ?f L)" "sorted_wrt (<) (map ?f L')" "set (map ?f L) = set (map ?f L')"
    using L by (auto simp: listing_def)
  then have "map ?f L = map ?f L'" by (metis strict_sorted_equal)
  then show "L = L'" using inj by (metis inj_on_map_eq_map)
qed

context work_queue
begin

lemma call_keeps:
  assumes "winv (s, q)" "may_call unacked waiting c (view s) q" "call_queue Q c (s, q) = (rep, (s', q'))"
  shows "winv (s', q') \<and> (\<forall>k. \<not> own k \<longrightarrow> view s' k = view s k)
    \<and> (\<forall>i b. unacked (view s) i = Some b \<longrightarrow> c \<noteq> AckCall i \<longrightarrow> unacked (view s') i = Some b)
    \<and> (\<forall>p i. c = EnqueueCall p \<longrightarrow> rep = Enqueued i \<longrightarrow> unacked (view s') i = Some p)"
proof (cases c)
  case (EnqueueCall p)
  with assms show ?thesis
    by (auto simp: reply_def split: prod.splits sum.splits dest!: enqueue_law[OF assms(1)])
next
  case DequeueCall
  with assms show ?thesis
    by (auto simp: reply_def split: prod.splits sum.splits dest!: dequeue_law[OF assms(1)])
next
  case (AckCall qid)
  with assms show ?thesis
    by (auto simp: reply_def split: prod.splits sum.splits dest!: ack_law[OF assms(1)])
next
  case (NackCall qid)
  with assms show ?thesis
    by (auto simp: reply_def split: prod.splits sum.splits dest!: nack_law[OF assms(1)])
qed

lemma call_owed:
  assumes "winv (s, q)" "may_call unacked waiting c (view s) q" "call_queue Q c (s, q) = (rep, (s', q'))"
    and "\<not> call_failed rep" "listing (unacked (view s)) L"
  shows "listing (unacked (view s')) (owed [(c, rep)] L)"
proof (cases c)
  case (EnqueueCall p)
  with assms(3,4) obtain i where "enqueue_item Q p (s, q) = (Inr i, (s', q'))" "rep = Enqueued i"
    by (auto simp: reply_def split: prod.splits sum.splits)
  with enqueue_law[OF assms(1)] listing_append[OF assms(5)] EnqueueCall show ?thesis by fastforce
next
  case DequeueCall
  with assms show ?thesis
    by (auto simp: reply_def split: prod.splits sum.splits dest!: dequeue_law[OF assms(1)])
next
  case (AckCall qid)
  with assms(2,3,4) have ack: "ack_item Q qid (s, q) = (Inr (), (s', q'))" "rep = Settled" "qid \<notin> fst ` set (waiting q)"
    by (auto simp: reply_def split: prod.splits sum.splits)
  have "unacked (view s') = (unacked (view s))(qid := None)"
    using ack_law[OF assms(1) ack(3,1)] by (intro ext) auto
  with listing_remove[OF assms(5), of qid] AckCall ack(2) show ?thesis by simp
next
  case (NackCall qid)
  with assms show ?thesis
    by (auto simp: reply_def split: prod.splits sum.splits dest!: nack_law[OF assms(1)])
qed

lemma owed_Cons: "owed (l # ls) L = owed ls (owed [l] L)"
  by (cases "([l], L)" rule: owed.cases) auto

lemma history_owed:
  assumes "queue_trace Q view waiting unacked ls (s, q) (s', q')" "winv (s, q)"
    and "\<forall>(c, rep) \<in> set ls. \<not> call_failed rep" "listing (unacked (view s)) L"
  shows "listing (unacked (view s')) (owed ls L) \<and> winv (s', q')"
  using assms
proof (induction ls "(s, q)" "(s', q')" arbitrary: s q L rule: queue_trace.induct)
  case (qtrace_cons c s q rep w1 ls)
  obtain s1 q1 where w1: "w1 = (s1, q1)" by fastforce
  from call_owed[OF qtrace_cons.prems(1) qtrace_cons.hyps(1) _ _ qtrace_cons.prems(3)] qtrace_cons.hyps(2) qtrace_cons.prems(2) w1
  have "listing (unacked (view s1)) (owed [(c, rep)] L)" by auto
  moreover have "winv (s1, q1)" using call_keeps[OF qtrace_cons.prems(1) qtrace_cons.hyps(1)] qtrace_cons.hyps(2) w1 by blast
  ultimately show ?case using qtrace_cons.hyps(4)[OF w1] qtrace_cons.prems(2) owed_Cons[of "(c, rep)" ls L] by auto
qed auto

lemma history_keeps_item:
  assumes "queue_trace Q view waiting unacked ls (s, q) (s', q')" "winv (s, q)"
    and "\<forall>l \<in> set ls. fst l \<noteq> AckCall i" "unacked (view s) i = Some p \<or> (EnqueueCall p, Enqueued i) \<in> set ls"
  shows "unacked (view s') i = Some p \<and> winv (s', q')"
  using assms
proof (induction ls "(s, q)" "(s', q')" arbitrary: s q rule: queue_trace.induct)
  case (qtrace_cons c s q rep w1 ls)
  obtain s1 q1 where w1: "w1 = (s1, q1)" by fastforce
  note call = call_keeps[OF qtrace_cons.prems(1) qtrace_cons.hyps(1) qtrace_cons.hyps(2)[unfolded w1]]
  have "unacked (view s1) i = Some p \<or> (EnqueueCall p, Enqueued i) \<in> set ls"
    using call qtrace_cons.prems(2,3) by auto
  with qtrace_cons.hyps(4)[OF w1] call qtrace_cons.prems(2) show ?case by auto
qed auto

end

section \<open>The local queue meets the contract\<close>

definition unacked_rows :: "ulid_crate \<Rightarrow> store_view \<Rightarrow> queue_item_id \<Rightarrow> bytes option" where
  "unacked_rows U v qid = v (key_for U qid)"

definition is_queue_key :: "storage_key \<Rightarrow> bool" where
  "is_queue_key k \<longleftrightarrow> namespace k = queue_namespace"

text \<open>
  What the \<open>ulid\<close> crate documents: the text form parses back and the generator's identifiers
  strictly increase. \<open>lst\<close> is the last identifier a generator state has seen.
\<close>

definition queue_crate_ok :: "'g queue_crate \<Rightarrow> ('g \<Rightarrow> ulid) \<Rightarrow> bool" where
  "queue_crate_ok E lst \<longleftrightarrow> ulid_ok (q_text E) \<and> (\<forall>g r g'. q_generate E g = (r, g') \<longrightarrow>
     lst g \<le> lst g' \<and> (\<forall>u. r = Inr u \<longrightarrow> lst g < u \<and> lst g' = u))"

text \<open>
  The invariant of an open queue over redb: every queue key can be stored, the rows of the queue's
  namespace are its own and older than the generator, and the deque lists distinct stored items.
\<close>

definition queue_rows_ok :: "ulid_crate \<Rightarrow> ulid \<Rightarrow> store_view \<Rightarrow> (queue_item_id \<times> bytes) list \<Rightarrow> bool" where
  "queue_rows_ok U m v dq \<longleftrightarrow>
     (\<forall>k b. v k = Some b \<longrightarrow> is_queue_key k \<longrightarrow> (\<exists>qid. k = key_for U qid \<and> queue_ulid qid \<le> m))
     \<and> distinct (map fst dq) \<and> (\<forall>(qid, p) \<in> set dq. v (key_for U qid) = Some p)"

text \<open>Postcard encodes every key.\<close>

definition all_keys_ok :: "key_codec \<Rightarrow> bool" where
  "all_keys_ok K \<longleftrightarrow> (\<forall>k. namespace k \<in> set table_names \<longrightarrow> embedded_okk K k)"

definition inmem_inv :: "key_codec \<Rightarrow> 'g queue_crate \<Rightarrow> ('g \<Rightarrow> ulid) \<Rightarrow> embedded_storage \<times> 'g inmem_queue \<Rightarrow> bool" where
  "inmem_inv K E lst = (\<lambda>(s, q). embedded_inv K s \<and> queue_crate_ok E lst \<and> all_keys_ok K
     \<and> queue_rows_ok (q_text E) (lst (ids q)) (embedded_view K s) (deque q))"

lemma key_for_eq: "ulid_ok U \<Longrightarrow> key_for U a = key_for U b \<longleftrightarrow> a = b"
  by (auto simp: key_for_def ulid_to_string_inj queue_item_id.expand)

lemma is_queue_key_for [simp]: "is_queue_key (key_for U a)"
  by (simp add: is_queue_key_def key_for_def)

lemma queue_key_ok: "all_keys_ok K \<Longrightarrow> embedded_okk K (key_for U a)"
proof -
  have "queue_namespace \<in> set table_names" by code_simp
  then show "all_keys_ok K \<Longrightarrow> embedded_okk K (key_for U a)" by (simp add: all_keys_ok_def key_for_def)
qed

lemma rows_ok_mono: "queue_rows_ok U m v dq \<Longrightarrow> m \<le> m' \<Longrightarrow> queue_rows_ok U m' v dq"
  unfolding queue_rows_ok_def by (meson order_trans)

lemma rows_ok_fresh:
  assumes "ulid_ok U" "queue_rows_ok U m v dq" "m < u"
  shows "v (key_for U j) \<noteq> None \<Longrightarrow> queue_ulid j < u" "v (key_for U (QueueItemId u)) = None" "QueueItemId u \<notin> fst ` set dq"
proof -
  have *: "queue_ulid j \<le> m" if "v (key_for U j) = Some b" for j b
    using assms(2) that key_for_eq[OF assms(1)] unfolding queue_rows_ok_def by (metis is_queue_key_for)
  show "v (key_for U j) \<noteq> None \<Longrightarrow> queue_ulid j < u" using * assms(3) by (auto dest: le_less_trans)
  show none: "v (key_for U (QueueItemId u)) = None" using *[of "QueueItemId u"] assms(3) by (cases "v (key_for U (QueueItemId u))") auto
  show "QueueItemId u \<notin> fst ` set dq" using assms(2) none by (auto simp: queue_rows_ok_def)
qed

lemma rows_ok_put:
  assumes "ulid_ok U" "queue_rows_ok U m v dq" "m < u"
  shows "queue_rows_ok U u (v(key_for U (QueueItemId u) \<mapsto> p)) dq"
    and "queue_rows_ok U u (v(key_for U (QueueItemId u) \<mapsto> p)) (dq @ [(QueueItemId u, p)])"
proof -
  have *: "\<exists>qid. k = key_for U qid \<and> queue_ulid qid \<le> u" if "(v(key_for U (QueueItemId u) \<mapsto> p)) k = Some b" "is_queue_key k" for k b
    using assms(2,3) that unfolding queue_rows_ok_def
    by (auto split: if_splits) (meson order.trans order.strict_implies_order)
  show "queue_rows_ok U u (v(key_for U (QueueItemId u) \<mapsto> p)) dq"
    "queue_rows_ok U u (v(key_for U (QueueItemId u) \<mapsto> p)) (dq @ [(QueueItemId u, p)])"
    using * assms(2) rows_ok_fresh(2,3)[OF assms] unfolding queue_rows_ok_def by (auto 0 3)
qed

lemma rows_ok_dequeue: "queue_rows_ok U m v (x # dq) \<Longrightarrow> queue_rows_ok U m v dq"
  by (auto simp: queue_rows_ok_def)

lemma rows_ok_ack:
  assumes "ulid_ok U" "queue_rows_ok U m v dq" "qid \<notin> fst ` set dq"
  shows "queue_rows_ok U m (v(key_for U qid := None)) dq"
  using assms unfolding queue_rows_ok_def by (force simp: key_for_eq)

lemma rows_ok_nack:
  "queue_rows_ok U m v dq \<Longrightarrow> qid \<notin> fst ` set dq \<Longrightarrow> v (key_for U qid) = Some p \<Longrightarrow> queue_rows_ok U m v ((qid, p) # dq)"
  by (auto simp: queue_rows_ok_def)

lemma inmem_enqueue_law:
  assumes "inmem_inv K E lst (s, q)" "inmem_enqueue (embedded_ops R K) E p (s, q) = (r, (s', q'))"
  shows "inmem_inv K E lst (s', q') \<and> (\<forall>k. \<not> is_queue_key k \<longrightarrow> embedded_view K s' k = embedded_view K s k)
     \<and> (\<forall>i b. unacked_rows (q_text E) (embedded_view K s) i = Some b \<longrightarrow> unacked_rows (q_text E) (embedded_view K s') i = Some b)
     \<and> (\<forall>i. r = Inr i \<longrightarrow> unacked_rows (q_text E) (embedded_view K s') = (unacked_rows (q_text E) (embedded_view K s))(i \<mapsto> p)
          \<and> deque q' = deque q @ [(i, p)]
          \<and> (\<forall>j. unacked_rows (q_text E) (embedded_view K s) j \<noteq> None \<longrightarrow> queue_ulid j < queue_ulid i))"
proof -
  let ?U = "q_text E" let ?v = "embedded_view K s"
  obtain g r0 where gen: "q_generate E (ids q) = (r0, g)" by fastforce
  have inv: "embedded_inv K s" "queue_crate_ok E lst" "all_keys_ok K"
    and rows: "queue_rows_ok ?U (lst (ids q)) ?v (deque q)" using assms(1) by (auto simp: inmem_inv_def)
  then have crate: "ulid_ok ?U" "lst (ids q) \<le> lst g" "\<And>u. r0 = Inr u \<Longrightarrow> lst (ids q) < u \<and> lst g = u"
    using gen by (auto simp: queue_crate_ok_def)
  show ?thesis
  proof (cases r0)
    case (Inl e)
    with assms(2) gen have "s' = s" "q' = q\<lparr>ids := g\<rparr>" "\<nexists>i. r = Inr i"
      by (auto simp: inmem_enqueue_def bindS_def on_sink_def)
    with inv rows_ok_mono[OF rows crate(2)] show ?thesis by (auto simp: inmem_inv_def)
  next
    case (Inr u)
    let ?i = "QueueItemId u" let ?v' = "?v(key_for ?U ?i \<mapsto> p)"
    from crate(3)[OF Inr] have u: "lst (ids q) < u" "lst g = u" by auto
    obtain r1 s1 where put: "in_txn (embedded_ops R K) (put_bytes (embedded_ops R K) (key_for ?U ?i) p) s = (r1, s1)" by fastforce
    have s1: "embedded_inv K s1" "embedded_view K s1 = ?v \<or> embedded_view K s1 = ?v'" "r1 = Inr () \<longrightarrow> embedded_view K s1 = ?v'"
      using redb.put_txn_outcomes[OF inv(1) queue_key_ok[OF inv(3)] put] by auto
    have upd: "unacked_rows ?U ?v' = (unacked_rows ?U ?v)(?i \<mapsto> p)"
      by (auto simp: unacked_rows_def key_for_eq[OF crate(1)])
    note put_ok = rows_ok_put[OF crate(1) rows u(1), of p] and fresh = rows_ok_fresh[OF crate(1) rows u(1)]
    have rows1: "queue_rows_ok ?U u (embedded_view K s1) (deque q)"
      using s1(2) put_ok(1) rows_ok_mono[OF rows less_imp_le[OF u(1)]] by auto
    have more: "unacked_rows ?U ?v i = Some b \<Longrightarrow> unacked_rows ?U (embedded_view K s1) i = Some b" for i b
      using s1(2) fresh(2) by (auto simp: unacked_rows_def)
    have frame: "\<not> is_queue_key k \<Longrightarrow> embedded_view K s1 k = ?v k" for k using s1(2) by auto
    consider (err) "s' = s1" "q' = q\<lparr>ids := g\<rparr>" "\<nexists>i. r = Inr i"
      | (ok) "r1 = Inr ()" "s' = s1" "q' = q\<lparr>ids := g, deque := deque q @ [(?i, p)]\<rparr>" "r = Inr ?i"
      using assms(2) gen Inr put by (auto simp: inmem_enqueue_def bindS_def on_sink_def on_store_def split: sum.splits)
    then show ?thesis
    proof cases
      case err
      with inv s1(1) rows1 u(2) more frame show ?thesis by (auto simp: inmem_inv_def)
    next
      case ok
      with s1(3) have v': "embedded_view K s' = ?v'" by simp
      have "inmem_inv K E lst (s', q')" using inv s1(1) put_ok(2) u(2) ok(2,3) v' by (simp add: inmem_inv_def)
      with ok v' upd more frame fresh(1) show ?thesis by (auto simp: unacked_rows_def)
    qed
  qed
qed

lemma inmem_dequeue_law:
  assumes "inmem_inv K E lst (s, q)" "inmem_dequeue (s, q) = (r, (s', q'))"
  shows "inmem_inv K E lst (s', q') \<and> embedded_view K s' = embedded_view K s
     \<and> (\<forall>x. r = Inr (Some x) \<longrightarrow> deque q = x # deque q') \<and> (r = Inr None \<longrightarrow> deque q = [] \<and> deque q' = [])"
  using assms by (cases "deque q") (auto simp: inmem_dequeue_def on_sink_def inmem_inv_def dest: rows_ok_dequeue)

lemma inmem_ack_law:
  assumes "inmem_inv K E lst (s, q)" "qid \<notin> fst ` set (deque q)" "inmem_ack (embedded_ops R K) E qid (s, q) = (r, (s', q'))"
  shows "inmem_inv K E lst (s', q') \<and> (\<forall>k. \<not> is_queue_key k \<longrightarrow> embedded_view K s' k = embedded_view K s k) \<and> deque q' = deque q
     \<and> (\<forall>i. i \<noteq> qid \<longrightarrow> unacked_rows (q_text E) (embedded_view K s') i = unacked_rows (q_text E) (embedded_view K s) i)
     \<and> (r = Inr () \<longrightarrow> unacked_rows (q_text E) (embedded_view K s') qid = None)"
proof -
  let ?U = "q_text E" let ?v' = "(embedded_view K s)(key_for ?U qid := None)"
  have inv: "embedded_inv K s" "queue_crate_ok E lst" "all_keys_ok K"
    and rows: "queue_rows_ok ?U (lst (ids q)) (embedded_view K s) (deque q)" and U: "ulid_ok ?U"
    using assms(1) by (auto simp: inmem_inv_def queue_crate_ok_def)
  have del: "in_txn (embedded_ops R K) (delete_key (embedded_ops R K) (key_for ?U qid)) s = (r, s')" "q' = q"
    using assms(3) by (auto simp: inmem_ack_def on_store_def split: prod.splits)
  have "embedded_inv K s' \<and> (embedded_view K s' = embedded_view K s \<or> embedded_view K s' = ?v') \<and> (r = Inr () \<longrightarrow> embedded_view K s' = ?v')"
    by (rule redb.in_txn_outcomes[OF inv(1) del(1)]) (use redb.delete_law[OF _ queue_key_ok[OF inv(3), of ?U qid]] in auto)
  then show ?thesis using rows rows_ok_ack[OF U rows assms(2)] inv del(2) key_for_eq[OF U]
    by (auto simp: inmem_inv_def unacked_rows_def)
qed

lemma inmem_nack_law:
  assumes "inmem_inv K E lst (s, q)" "qid \<notin> fst ` set (deque q)" "inmem_nack (embedded_ops R K) E qid (s, q) = (r, (s', q'))"
  shows "inmem_inv K E lst (s', q') \<and> embedded_view K s' = embedded_view K s
     \<and> (\<forall>p. unacked_rows (q_text E) (embedded_view K s) qid = Some p \<longrightarrow> r = Inr () \<longrightarrow> deque q' = (qid, p) # deque q)"
proof (cases "get_bytes (embedded_ops R K) (key_for (q_text E) qid) s")
  case (Inl e)
  with assms(1,3) show ?thesis by (auto simp: inmem_nack_def bindS_def on_store_def)
next
  case (Inr stored)
  have "stored = embedded_view K s (key_for (q_text E) qid)"
    using redb.get_law[OF _ _ Inr] assms(1) by (auto simp: inmem_inv_def queue_key_ok)
  with assms Inr show ?thesis
    by (auto simp: inmem_nack_def bindS_def on_store_def on_sink_def inmem_inv_def unacked_rows_def rows_ok_nack split: option.splits)
qed

interpretation inmem: work_queue "inmem_ops (embedded_ops R K) E" "embedded_view K" "inmem_inv K E lst" deque
  "unacked_rows (q_text E)" is_queue_key for R K E lst
proof (unfold_locales, goal_cases)
  case (1 s q)
  then show ?case by (auto simp: inmem_inv_def queue_rows_ok_def unacked_rows_def)
next
  case (2 s q p re s' q')
  then show ?case using inmem_enqueue_law[of K E lst s q R p re s' q'] by (simp add: inmem_ops_def)
next
  case (3 s q rd s' q')
  then show ?case using inmem_dequeue_law[of K E lst s q rd s' q'] by (simp add: inmem_ops_def)
next
  case (4 s q qid r s' q')
  then show ?case using inmem_ack_law[of K E lst s q qid R r s' q'] by (simp add: inmem_ops_def)
next
  case (5 s q qid r s' q')
  then show ?case using inmem_nack_law[of K E lst s q qid R r s' q'] by (simp add: inmem_ops_def)
qed

section \<open>Restart\<close>

lemma replay_entries_rows:
  assumes "ulid_ok U" "\<forall>(k, p) \<in> set rows. \<exists>qid. k = key_for U qid" "distinct (map fst rows)"
  shows "set (replay_entries U rows) = {(qid, p). (key_for U qid, p) \<in> set rows} \<and> distinct (map fst (replay_entries U rows))"
  using assms(2,3)
proof (induction rows)
  case (Cons x rows)
  then obtain qid p where x: "x = (key_for U qid, p)" by (cases x) auto
  then have "replay_entries U (x # rows) = (qid, p) # replay_entries U rows"
    using assms(1) by (simp add: key_for_def ulid_ok_def)
  moreover have "qid \<notin> fst ` set (replay_entries U rows)" using Cons x by (force simp: image_iff)
  ultimately show ?case using Cons x key_for_eq[OF assms(1)] by auto
qed simp

lemma queue_scope: "key_has_prefix k \<lparr>namespace = queue_namespace, key_run = None, path = []\<rparr> = is_queue_key k"
  by (auto simp: key_has_prefix_def is_queue_key_def)

lemma inmem_open_listing:
  assumes "inmem_inv K E lst (s, q)" "inmem_open (embedded_ops R K) E g s = Inr q'"
  shows "listing (unacked_rows (q_text E) (embedded_view K s)) (deque q')"
proof -
  let ?U = "q_text E" let ?f = "\<lambda>x :: queue_item_id \<times> bytes. queue_ulid (fst x)"
  obtain rows where scan: "scan_bytes (embedded_ops R K) queue_range s = Inr rows"
    and q': "deque q' = sort_key ?f (replay_entries ?U rows)"
    using assms(2) by (auto simp: inmem_open_def comp_iff)
  have inv: "embedded_inv K s" "ulid_ok ?U" "queue_rows_ok ?U (lst (ids q)) (embedded_view K s) (deque q)"
    using assms(1) by (auto simp: inmem_inv_def queue_crate_ok_def)
  have rows: "distinct (map fst rows)" "set rows = {(k, v). embedded_view K s k = Some v \<and> is_queue_key k}"
    using redb.scan_law[OF inv(1) scan[unfolded queue_range_def]] by (simp_all add: queue_scope)
  then have "set (replay_entries ?U rows) = {(qid, p). (key_for ?U qid, p) \<in> set rows}" "distinct (map fst (replay_entries ?U rows))"
    using replay_entries_rows[OF inv(2), of rows] inv(3) by (auto simp: queue_rows_ok_def)
  moreover from this(2) have "distinct (map ?f (replay_entries ?U rows))"
    by (auto simp: distinct_map inj_on_def) (metis fst_conv queue_item_id.expand snd_conv)+
  ultimately show ?thesis using rows(2) q'
    by (auto simp: listing_def unacked_rows_def strict_sorted_iff distinct_map)
qed

abbreviation inmem_trace :: "redb \<Rightarrow> key_codec \<Rightarrow> 'g queue_crate \<Rightarrow> (queue_call \<times> queue_reply) list
    \<Rightarrow> embedded_storage \<times> 'g inmem_queue \<Rightarrow> embedded_storage \<times> 'g inmem_queue \<Rightarrow> bool" where
  "inmem_trace R K E \<equiv> queue_trace (inmem_ops (embedded_ops R K) E) (embedded_view K) deque (unacked_rows (q_text E))"

text \<open>
  C12. A restart replays exactly the unacknowledged items, in the order they were enqueued. After any
  history of successful calls by a client that settles only items in flight, opening the queue on
  the store again yields a deque with every item that was owed at the start or enqueued since,
  less the acknowledged ones, oldest first: items in flight and returned items are not lost and
  nothing is delivered twice.
\<close>
theorem restart_replays_unacked:
  assumes "inmem_inv K E lst (s, q)" "inmem_trace R K E ls (s, q) (s', q')"
    and "\<forall>(c, rep) \<in> set ls. \<not> call_failed rep" "listing (unacked_rows (q_text E) (embedded_view K s)) L"
    and "inmem_open (embedded_ops R K) E g s' = Inr q''"
  shows "deque q'' = owed ls L"
proof -
  from inmem.history_owed[OF assms(2,1,3,4)]
  have "listing (unacked_rows (q_text E) (embedded_view K s')) (owed ls L)" "inmem_inv K E lst (s', q')" by auto
  with listing_unique[OF inmem_open_listing[OF _ assms(5)]] show ?thesis by blast
qed

text \<open>
  Delivery is at least once, under any failure. Whatever calls of a history fail, an item whose
  enqueue was acknowledged, or that was owed before, and that nobody tried to acknowledge since, is
  in the deque after a restart with its payload; and an open queue never lists an item twice.
\<close>
theorem unacked_item_survives:
  assumes "inmem_inv K E lst (s, q)" "inmem_trace R K E ls (s, q) (s', q')"
    and "\<forall>l \<in> set ls. fst l \<noteq> AckCall i"
    and "unacked_rows (q_text E) (embedded_view K s) i = Some p \<or> (EnqueueCall p, Enqueued i) \<in> set ls"
    and "inmem_open (embedded_ops R K) E g s' = Inr q''"
  shows "(i, p) \<in> set (deque q'') \<and> distinct (map fst (deque q')) \<and> distinct (map fst (deque q''))"
proof -
  from inmem.history_keeps_item[OF assms(2,1,3,4)]
  have u: "unacked_rows (q_text E) (embedded_view K s') i = Some p" and inv: "inmem_inv K E lst (s', q')" by auto
  from inmem_open_listing[OF inv assms(5)] have l: "listing (unacked_rows (q_text E) (embedded_view K s')) (deque q'')" .
  then have "distinct (map queue_ulid (map fst (deque q'')))" by (simp add: listing_def strict_sorted_iff comp_def)
  then have "distinct (map fst (deque q''))" by (simp only: distinct_map)
  with l u inmem.backed[OF inv] show ?thesis by (auto simp: listing_def)
qed

section \<open>Witnesses\<close>

text \<open>
  A key codec that is defined on every key: the run in unary, then each segment with a one before
  every byte and a zero at its end.
\<close>

definition encode_segment :: "string \<Rightarrow> bytes" where
  "encode_segment seg = concat (map (\<lambda>c. [1, word_of_nat (of_char c)]) seg) @ [0]"

fun decode_segments :: "string \<Rightarrow> bytes \<Rightarrow> string list" where
  "decode_segments cur (x # bs) =
     (if x = 0 then rev cur # decode_segments [] bs
      else case bs of [] \<Rightarrow> [] | c # bs' \<Rightarrow> decode_segments (char_of (unat c) # cur) bs')"
| "decode_segments cur [] = []"

definition encode_run :: "run_id option \<Rightarrow> bytes" where
  "encode_run r = (case r of None \<Rightarrow> [0] | Some i \<Rightarrow> replicate (Suc (unat (run_ulid i))) 1 @ [0])"

definition decode_run :: "bytes \<Rightarrow> run_id option" where
  "decode_run bs = (case length (takeWhile (\<lambda>x. x = 1) bs) of 0 \<Rightarrow> None | Suc n \<Rightarrow> Some (RunId (of_nat n)))"

definition plain_keys :: key_codec where
  "plain_keys = \<lparr>encode = (\<lambda>(r, segs). Inr (encode_run r @ concat (map encode_segment segs))),
     decode = (\<lambda>bs. Inr (decode_run bs, decode_segments [] (tl (dropWhile (\<lambda>x. x = 1) bs))))\<rparr>"

lemma decode_segment: "decode_segments cur (encode_segment seg @ bs) = (rev cur @ seg) # decode_segments [] bs"
  by (induction seg arbitrary: cur) (auto simp: encode_segment_def unat_of_nat)

lemma decode_all_segments: "decode_segments [] (concat (map encode_segment segs)) = segs"
  by (induction segs) (auto simp: decode_segment)

lemma unary_prefix:
  "takeWhile (\<lambda>x. x = 1) (replicate n (1::u8) @ 0 # bs) = replicate n 1"
  "dropWhile (\<lambda>x. x = 1) (replicate n (1::u8) @ 0 # bs) = 0 # bs"
  by (induction n) auto

lemma plain_keys_ok: "codec_ok plain_keys" "all_keys_ok plain_keys"
proof -
  have "decode_run (encode_run r @ bs) = r" "tl (dropWhile (\<lambda>x. x = 1) (encode_run r @ bs)) = bs" for r bs
    using unary_prefix[of "Suc (unat (run_ulid i))" bs for i]
    by (auto simp: encode_run_def decode_run_def simp del: replicate.simps split: option.splits)
  then show codec: "codec_ok plain_keys" by (auto simp: codec_ok_def plain_keys_def decode_all_segments)
  have "encode plain_keys (key_run k, path k) = Inr (encode_run (key_run k) @ concat (map encode_segment (path k)))" for k :: storage_key
    by (simp add: plain_keys_def)
  with codec_okk[OF codec] show "all_keys_ok plain_keys" unfolding all_keys_ok_def by blast
qed

text \<open>Identifiers in unary and a counter as generator.\<close>

definition queue_demo_crate :: "ulid queue_crate" where
  "queue_demo_crate = \<lparr>
     q_text = \<lparr>ulid_to_string = (\<lambda>u. replicate (unat u) CHR ''1''), ulid_parse = (\<lambda>s. Inr (of_nat (length s)))\<rparr>,
     q_generate = (\<lambda>g. if g < g + 1 then (Inr (g + 1), g + 1) else (Inl ''overflow'', g)),
     q_to_bytes = (\<lambda>u. [ucast u]), q_debug = (\<lambda>i. ''item'')\<rparr>"

abbreviation queue_demo_start :: "embedded_storage \<times> ulid inmem_queue" where
  "queue_demo_start \<equiv> (\<lparr>db = Map.empty, watchers = []\<rparr>, \<lparr>deque = [], ids = 0\<rparr>)"

abbreviation queue_demo_ops :: "(embedded_storage \<times> ulid inmem_queue) queue_ops" where
  "queue_demo_ops \<equiv> inmem_ops (embedded_ops faultless plain_keys) queue_demo_crate"

definition queue_demo_may :: "embedded_storage \<times> ulid inmem_queue \<Rightarrow> queue_call \<Rightarrow> bool" where
  "queue_demo_may w c = may_call (unacked_rows (q_text queue_demo_crate)) deque c (embedded_view plain_keys (fst w)) (snd w)"

fun run_queue :: "'w queue_ops \<Rightarrow> ('w \<Rightarrow> queue_call \<Rightarrow> bool) \<Rightarrow> queue_call list \<Rightarrow> 'w \<Rightarrow> bool \<times> (queue_call \<times> queue_reply) list \<times> 'w" where
  "run_queue Q may [] w = (True, [], w)"
| "run_queue Q may (c # cs) w = (case call_queue Q c w of (rep, w1) \<Rightarrow> case run_queue Q may cs w1 of (ok, ls, w') \<Rightarrow>
     (may w c \<and> ok, (c, rep) # ls, w'))"

lemma run_queue_trace:
  assumes "\<And>s q c. may (s, q) c \<Longrightarrow> may_call unacked waiting c (view s) q"
  shows "run_queue Q may cs w = (True, ls, w') \<Longrightarrow> queue_trace Q view waiting unacked ls w w'"
  by (induction cs arbitrary: w ls) (auto split: prod.splits intro: queue_trace.intros dest: assms)

lemma queue_demo_inv: "inmem_inv plain_keys queue_demo_crate (\<lambda>g. g) queue_demo_start"
proof -
  have "embedded_inv plain_keys \<lparr>db = Map.empty, watchers = []\<rparr>" by code_simp
  moreover have "queue_crate_ok queue_demo_crate (\<lambda>g. g)"
    by (auto simp: queue_crate_ok_def queue_demo_crate_def ulid_ok_def less_imp_le split: if_splits)
  ultimately show ?thesis
    by (auto simp: inmem_inv_def queue_rows_ok_def plain_keys_ok embedded_view_def db_view_def table_rows_def)
qed

definition queue_demo_history :: "(queue_call \<times> queue_reply) list" where
  "queue_demo_history = [(EnqueueCall [7], Enqueued (QueueItemId 1)), (DequeueCall, Dequeued (Some (QueueItemId 1, [7])))]"

definition queue_demo_reopen :: "embedded_storage \<Rightarrow> ulid inmem_queue res" where
  "queue_demo_reopen = inmem_open (embedded_ops faultless plain_keys) queue_demo_crate 5"

text \<open>One item is enqueued and handed out; the queue is opened again before it is acknowledged.\<close>

lemma queue_demo_result:
  "case run_queue queue_demo_ops queue_demo_may [EnqueueCall [7], DequeueCall] queue_demo_start of (ok, ls, s, q) \<Rightarrow>
     ok \<and> ls = queue_demo_history \<and> queue_demo_reopen s = Inr \<lparr>deque = [(QueueItemId 1, [7])], ids = 5\<rparr>"
  by code_simp

lemma queue_demo_trace:
  "\<exists>s q. inmem_trace faultless plain_keys queue_demo_crate queue_demo_history queue_demo_start (s, q)
     \<and> queue_demo_reopen s = Inr \<lparr>deque = [(QueueItemId 1, [7])], ids = 5\<rparr>"
proof -
  obtain s q where "run_queue queue_demo_ops queue_demo_may [EnqueueCall [7], DequeueCall] queue_demo_start = (True, queue_demo_history, (s, q))"
    "queue_demo_reopen s = Inr \<lparr>deque = [(QueueItemId 1, [7])], ids = 5\<rparr>"
    using queue_demo_result by (auto split: prod.splits)
  moreover from this(1) have "inmem_trace faultless plain_keys queue_demo_crate queue_demo_history queue_demo_start (s, q)"
    by (rule run_queue_trace[rotated]) (simp add: queue_demo_may_def)
  ultimately show ?thesis by blast
qed

theorem restart_replays_unacked_witness:
  "\<exists>s q. queue_demo_reopen s = Inr q \<and> deque q = owed queue_demo_history [] \<and> deque q = [(QueueItemId 1, [7])]"
proof -
  obtain s q where tr: "inmem_trace faultless plain_keys queue_demo_crate queue_demo_history queue_demo_start (s, q)"
    and re: "queue_demo_reopen s = Inr \<lparr>deque = [(QueueItemId 1, [7])], ids = 5\<rparr>" using queue_demo_trace by blast
  have "listing (unacked_rows (q_text queue_demo_crate) (embedded_view plain_keys \<lparr>db = Map.empty, watchers = []\<rparr>)) []"
    by (simp add: listing_def unacked_rows_def embedded_view_def db_view_def table_rows_def)
  from restart_replays_unacked[OF queue_demo_inv tr _ this re[unfolded queue_demo_reopen_def]] re
  show ?thesis by (intro exI[of _ s] exI conjI) (auto simp: queue_demo_history_def)
qed

theorem unacked_item_survives_witness:
  "\<exists>s q. queue_demo_reopen s = Inr q \<and> (QueueItemId 1, [7]) \<in> set (deque q)"
proof -
  obtain s q where tr: "inmem_trace faultless plain_keys queue_demo_crate queue_demo_history queue_demo_start (s, q)"
    and re: "queue_demo_reopen s = Inr \<lparr>deque = [(QueueItemId 1, [7])], ids = 5\<rparr>" using queue_demo_trace by blast
  from unacked_item_survives[OF queue_demo_inv tr _ _ re[unfolded queue_demo_reopen_def], of "QueueItemId 1" "[7]"] re
  show ?thesis by (intro exI[of _ s] exI conjI) (auto simp: queue_demo_history_def)
qed

end
