(* ===== verification/Object_Store.thy ===== *)
theory Object_Store
  imports Core_Types
begin

text \<open>
  The local blob store (\<open>rollout-cloud-local/src/object_store.rs\<close>): blobs live under a path made of
  their own hash and are put in place by a rename. The trait \<open>ObjectStore\<close> is a record of
  operations, the locale \<open>object_store\<close> its contract and \<open>fs_store\<close> the interpretation. The file
  system is a map from paths to contents; which call fails, and what a failed write leaves behind,
  are parameters.
\<close>

section \<open>Files\<close>

type_synonym file_path = "string list"
type_synonym files = "file_path \<Rightarrow> bytes option"

datatype io_error = NotFound | OtherIo string

text \<open>
  The faults of the file system: for each call the error it returns, if any. A write that fails may
  leave any contents in the file it was writing.
\<close>

record fs_faults =
  mkdir_fault :: "file_path \<Rightarrow> files \<Rightarrow> io_error option"
  exists_fault :: "file_path \<Rightarrow> files \<Rightarrow> io_error option"
  write_fault :: "file_path \<Rightarrow> bytes \<Rightarrow> files \<Rightarrow> (io_error \<times> bytes option) option"
  rename_fault :: "file_path \<Rightarrow> file_path \<Rightarrow> files \<Rightarrow> io_error option"
  read_fault :: "file_path \<Rightarrow> files \<Rightarrow> string option"
  create_fault :: "file_path \<Rightarrow> files \<Rightarrow> io_error option"
  append_fault :: "file_path \<Rightarrow> bytes \<Rightarrow> files \<Rightarrow> (io_error \<times> bytes) option"
  flush_fault :: "file_path \<Rightarrow> files \<Rightarrow> io_error option"
  sync_fault :: "file_path \<Rightarrow> files \<Rightarrow> io_error option"
  remove_fault :: "file_path \<Rightarrow> files \<Rightarrow> io_error option"
  show_io :: "io_error \<Rightarrow> string"

definition check_fault :: "(files \<Rightarrow> io_error option) \<Rightarrow> (files, io_error, unit) comp" where
  "check_fault f = readS (\<lambda>fs. case f fs of Some e \<Rightarrow> Inl e | None \<Rightarrow> Inr ())"

definition create_dir_all :: "fs_faults \<Rightarrow> file_path \<Rightarrow> (files, io_error, unit) comp" where
  "create_dir_all F p = check_fault (mkdir_fault F p)"

definition try_exists :: "fs_faults \<Rightarrow> file_path \<Rightarrow> (files, io_error, bool) comp" where
  "try_exists F p = readS (\<lambda>fs. case exists_fault F p fs of Some e \<Rightarrow> Inl e | None \<Rightarrow> Inr (fs p \<noteq> None))"

definition write_file :: "fs_faults \<Rightarrow> file_path \<Rightarrow> bytes \<Rightarrow> (files, io_error, unit) comp" where
  "write_file F p b = (\<lambda>fs. case write_fault F p b fs of
     None \<Rightarrow> (Inr (), fs(p \<mapsto> b))
   | Some (e, rest) \<Rightarrow> (Inl e, case rest of None \<Rightarrow> fs | Some x \<Rightarrow> fs(p \<mapsto> x)))"

definition rename_file :: "fs_faults \<Rightarrow> file_path \<Rightarrow> file_path \<Rightarrow> (files, io_error, unit) comp" where
  "rename_file F p p' = (\<lambda>fs. case rename_fault F p p' fs of
     Some e \<Rightarrow> (Inl e, fs)
   | None \<Rightarrow> (case fs p of None \<Rightarrow> (Inl NotFound, fs) | Some b \<Rightarrow> (Inr (), (fs(p := None))(p' \<mapsto> b))))"

definition read_file :: "fs_faults \<Rightarrow> file_path \<Rightarrow> files \<Rightarrow> io_error + bytes" where
  "read_file F p fs = (case read_fault F p fs of
     Some e \<Rightarrow> Inl (OtherIo e) | None \<Rightarrow> (case fs p of None \<Rightarrow> Inl NotFound | Some b \<Rightarrow> Inr b))"

text \<open>An open file for writing is its path; every \<open>write_all\<close> appends.\<close>

definition create_file :: "fs_faults \<Rightarrow> file_path \<Rightarrow> (files, io_error, unit) comp" where
  "create_file F p = (\<lambda>fs. case create_fault F p fs of Some e \<Rightarrow> (Inl e, fs) | None \<Rightarrow> (Inr (), fs(p \<mapsto> [])))"

definition append_file :: "fs_faults \<Rightarrow> file_path \<Rightarrow> bytes \<Rightarrow> (files, io_error, unit) comp" where
  "append_file F p b = (\<lambda>fs. let old = (case fs p of None \<Rightarrow> [] | Some x \<Rightarrow> x) in case append_fault F p b fs of
     None \<Rightarrow> (Inr (), fs(p \<mapsto> old @ b)) | Some (e, part) \<Rightarrow> (Inl e, fs(p \<mapsto> old @ part)))"

definition remove_file :: "fs_faults \<Rightarrow> file_path \<Rightarrow> (files, io_error, unit) comp" where
  "remove_file F p = (\<lambda>fs. case remove_fault F p fs of Some e \<Rightarrow> (Inl e, fs) | None \<Rightarrow> (Inr (), fs(p := None)))"

definition map_errS :: "('e \<Rightarrow> 'f) \<Rightarrow> ('s, 'e, 'a) comp \<Rightarrow> ('s, 'f, 'a) comp" where
  "map_errS g m = (\<lambda>s. case m s of (r, s') \<Rightarrow> (map_err g r, s'))"

section \<open>The blob store\<close>

record put_hint =
  expected_size :: "u64 option"
  content_type :: "string option"

definition put_hint_default :: put_hint where
  "put_hint_default = \<lparr>expected_size = None, content_type = None\<rparr>"

record 'o object_ops =
  put_blob :: "bytes \<Rightarrow> put_hint \<Rightarrow> ('o, content_id) io"
  get_blob :: "content_id \<Rightarrow> 'o \<Rightarrow> bytes res"
  blob_exists :: "content_id \<Rightarrow> ('o, bool) io"
  put_blob_stream :: "(io_error + bytes) list \<Rightarrow> put_hint \<Rightarrow> ('o, content_id) io"

record object_meta =
  meta_size :: u64
  meta_content_type :: "string option"
  meta_created_at_ms :: u128

text \<open>
  What the store is built with: its root, the hash, the JSON codec of the sidecar, the clock in
  milliseconds and the fresh ULID text that names a staging file.
\<close>

record fs_object_store =
  root :: file_path
  faults :: fs_faults
  hash :: blake3
  meta_json :: "object_meta codec"
  created_ms :: u128
  staging :: string

definition io_internal :: "fs_faults \<Rightarrow> io_error \<Rightarrow> core_error fault" where
  "io_internal F e = internal (show_io F e)"

definition io_transient :: "fs_faults \<Rightarrow> io_error \<Rightarrow> core_error fault" where
  "io_transient F e = transient (''fs object_store io: '' @ show_io F e) (After (from_millis 50))"

definition path_for :: "fs_object_store \<Rightarrow> content_id \<Rightarrow> file_path" where
  "path_for D cid = (let hex = content_id_to_string cid in root D @ [take 2 hex, take 2 (drop 2 hex), hex])"

definition meta_path_for :: "fs_object_store \<Rightarrow> content_id \<Rightarrow> file_path" where
  "meta_path_for D cid = (let hex = content_id_to_string cid in root D @ [take 2 hex, take 2 (drop 2 hex), hex @ ''.meta.json''])"

definition temp_path_for_pending :: "fs_object_store \<Rightarrow> file_path" where
  "temp_path_for_pending D = root D @ [''pending'', staging D]"

text \<open>
  \<open>Path::with_extension\<close>: the part after the last dot is replaced, unless the only dot is the first
  character.
\<close>

definition file_stem :: "string \<Rightarrow> string" where
  "file_stem name = (let rest = dropWhile (\<lambda>c. c \<noteq> CHR ''.'') (rev name)
     in if length rest \<le> 1 then name else rev (tl rest))"

definition with_extension :: "file_path \<Rightarrow> string \<Rightarrow> file_path" where
  "with_extension p ext = butlast p @ [file_stem (last p) @ ''.'' @ ext]"

abbreviation or_internal :: "fs_faults \<Rightarrow> (files, io_error, 'a) comp \<Rightarrow> (files, 'a) io" where
  "or_internal F \<equiv> map_errS (io_internal F)"

abbreviation or_transient :: "fs_faults \<Rightarrow> (files, io_error, 'a) comp \<Rightarrow> (files, 'a) io" where
  "or_transient F \<equiv> map_errS (io_transient F)"

definition fs_put_bytes :: "fs_object_store \<Rightarrow> bytes \<Rightarrow> put_hint \<Rightarrow> (files, content_id) io" where
  "fs_put_bytes D b hint =
     (let F = faults D; cid = content_id_of (hash D) b; final_path = path_for D cid in
      bindS (or_internal F (create_dir_all F (butlast final_path))) (\<lambda>_.
      bindS (or_internal F (try_exists F final_path)) (\<lambda>there.
      bindS (if \<not> there
             then bindS (or_internal F (write_file F (with_extension final_path ''tmp'') b)) (\<lambda>_.
                  or_internal F (rename_file F (with_extension final_path ''tmp'') final_path))
             else returnS ()) (\<lambda>_.
      bindS (liftE (map_err internal (encode (meta_json D)
        \<lparr>meta_size = of_nat (length b), meta_content_type = content_type hint, meta_created_at_ms = created_ms D\<rparr>))) (\<lambda>meta_bytes.
      bindS (or_internal F (write_file F (meta_path_for D cid) meta_bytes)) (\<lambda>_.
      returnS cid))))))"

definition fs_get_bytes :: "fs_object_store \<Rightarrow> content_id \<Rightarrow> files \<Rightarrow> bytes res" where
  "fs_get_bytes D cid fs = (case read_file (faults D) (path_for D cid) fs of
     Inr b \<Rightarrow> Inr b
   | Inl NotFound \<Rightarrow> Inl (internal (''object not found: '' @ content_id_to_string cid))
   | Inl e \<Rightarrow> Inl (io_internal (faults D) e))"

text \<open>\<open>open\<close> of the store creates its root; \<open>get_stream\<close> opens the blob, and the open file reads its contents.\<close>

definition fs_open :: "fs_object_store \<Rightarrow> (files, unit) io" where
  "fs_open D = or_internal (faults D) (create_dir_all (faults D) (root D))"

definition fs_get_stream :: "fs_object_store \<Rightarrow> content_id \<Rightarrow> files \<Rightarrow> bytes res" where
  "fs_get_stream D cid fs = (case read_file (faults D) (path_for D cid) fs of
     Inr b \<Rightarrow> Inr b
   | Inl NotFound \<Rightarrow> Inl (internal (''object not found: '' @ content_id_to_string cid))
   | Inl e \<Rightarrow> Inl (io_transient (faults D) e))"

definition fs_exists :: "fs_object_store \<Rightarrow> content_id \<Rightarrow> (files, bool) io" where
  "fs_exists D cid = or_internal (faults D) (try_exists (faults D) (path_for D cid))"

text \<open>
  The copy loop of \<open>put_stream\<close> over the reads of the stream; a read of no bytes is the end. The
  hasher is the bytes it was fed, which is what an incremental hash stands for.
\<close>

fun copy_stream :: "fs_faults \<Rightarrow> file_path \<Rightarrow> (io_error + bytes) list \<Rightarrow> bytes \<Rightarrow> (files, bytes) io" where
  "copy_stream F temp [] hashed = returnS hashed"
| "copy_stream F temp (Inl e # reads) hashed = failS (io_transient F e)"
| "copy_stream F temp (Inr chunk # reads) hashed =
     (if chunk = [] then returnS hashed
      else bindS (or_transient F (append_file F temp chunk)) (\<lambda>_.
           copy_stream F temp reads (hashed @ chunk)))"

definition fs_put_stream :: "fs_object_store \<Rightarrow> (io_error + bytes) list \<Rightarrow> put_hint \<Rightarrow> (files, content_id) io" where
  "fs_put_stream D reads hint =
     (let F = faults D; temp = temp_path_for_pending D in
      bindS (or_transient F (create_dir_all F (butlast temp))) (\<lambda>_.
      bindS (or_transient F (create_file F temp)) (\<lambda>_.
      bindS (copy_stream F temp reads []) (\<lambda>hashed.
      bindS (or_transient F (check_fault (flush_fault F temp))) (\<lambda>_.
      bindS (or_transient F (check_fault (sync_fault F temp))) (\<lambda>_.
      let cid = content_id_of (hash D) hashed; final_path = path_for D cid in
      bindS (or_transient F (create_dir_all F (butlast final_path))) (\<lambda>_.
      bindS (or_transient F (try_exists F final_path)) (\<lambda>there.
      bindS (if there then (\<lambda>fs. (Inr (), snd (remove_file F temp fs)))
             else or_transient F (rename_file F temp final_path)) (\<lambda>_.
      returnS cid)))))))))"

definition fs_object_ops :: "fs_object_store \<Rightarrow> files object_ops" where
  "fs_object_ops D = \<lparr>put_blob = fs_put_bytes D, get_blob = fs_get_bytes D, blob_exists = fs_exists D,
     put_blob_stream = fs_put_stream D\<rparr>"

section \<open>The contract\<close>

text \<open>
  \<open>blobs\<close> is the map a store stands for. A put adds the blob under its own hash and never touches
  another one, whether it succeeds or not; a get returns what is stored; every stored blob hashes
  to the name it is stored under.
\<close>

locale object_store =
  fixes B :: "'o object_ops"
    and blobs :: "'o \<Rightarrow> content_id \<Rightarrow> bytes option"
    and oinv :: "'o \<Rightarrow> bool"
    and H :: blake3
  assumes put_blob_law: "oinv st \<Longrightarrow> put_blob B b hint st = (r, st') \<Longrightarrow> oinv st'
        \<and> (\<forall>i. blobs st i \<noteq> None \<longrightarrow> blobs st' i = blobs st i)
        \<and> (\<forall>cid. r = Inr cid \<longrightarrow> cid = content_id_of H b \<and> content_id_wf cid \<and> blobs st' cid \<noteq> None)"
    and get_blob_law: "oinv st \<Longrightarrow> content_id_wf cid \<Longrightarrow> get_blob B cid st = Inr b \<Longrightarrow> blobs st cid = Some b"
    and named_by_hash: "oinv st \<Longrightarrow> blobs st cid = Some b \<Longrightarrow> content_id_of H b = cid"
begin

lemma put_get:
  assumes "oinv st" "put_blob B b hint st = (Inr cid, st')" "content_id_wf cid" "get_blob B cid st' = Inr b'"
  shows "content_id_of H b' = content_id_of H b"
  using put_blob_law[OF assms(1,2)] get_blob_law[OF _ assms(3,4)] named_by_hash by blast

end

section \<open>The local store meets it\<close>

definition fs_blobs :: "fs_object_store \<Rightarrow> files \<Rightarrow> content_id \<Rightarrow> bytes option" where
  "fs_blobs D fs cid = (if content_id_wf cid then fs (path_for D cid) else None)"

text \<open>BLAKE3 digests have 32 bytes, and every file at a blob path hashes to its name.\<close>

definition fs_inv :: "fs_object_store \<Rightarrow> files \<Rightarrow> bool" where
  "fs_inv D fs \<longleftrightarrow> (\<forall>b. length (hash D b) = 32) \<and> (\<forall>cid b. fs_blobs D fs cid = Some b \<longrightarrow> content_id_of (hash D) b = cid)"

lemma hex_no_dot: "CHR ''.'' \<notin> set (content_id_to_string cid)"
proof -
  have "hex_digit n \<noteq> CHR ''.''" if "n < 16" for n
    using hex_digit_value[OF that] by (auto simp: to_digit16_def)
  then show ?thesis
    by (auto simp: content_id_to_string_def hex_byte_def) (metis hex_nibbles)+
qed

lemma path_for_eq [simp]: "path_for D a = path_for D b \<longleftrightarrow> a = b"
  by (auto simp: path_for_def Let_def)

lemma path_tmp: "with_extension (path_for D a) ''tmp'' = root D @ [take 2 (content_id_to_string a),
    take 2 (drop 2 (content_id_to_string a)), content_id_to_string a @ ''.tmp'']"
proof -
  have none: "dropWhile (\<lambda>c. c \<noteq> CHR ''.'') (rev (content_id_to_string a)) = []"
    using hex_no_dot[of a] by (auto simp: dropWhile_eq_Nil_conv)
  have "file_stem (content_id_to_string a) = content_id_to_string a" unfolding file_stem_def none by simp
  then show ?thesis by (simp add: with_extension_def path_for_def Let_def butlast_append)
qed

lemma dotted_name: "x @ CHR ''.'' # y \<noteq> content_id_to_string a"
  using hex_no_dot[of a] by (metis in_set_conv_decomp)

lemma blob_paths [simp]:
  "with_extension (path_for D a) ''tmp'' \<noteq> path_for D b" "meta_path_for D a \<noteq> path_for D b" "temp_path_for_pending D \<noteq> path_for D b"
  using dotted_name[of "content_id_to_string a" "''tmp''" b] dotted_name[of "content_id_to_string a" "''meta.json''" b]
  unfolding path_tmp by (auto simp: path_for_def meta_path_for_def temp_path_for_pending_def Let_def)

lemmas blob_paths_sym [simp] = blob_paths[THEN not_sym]

text \<open>A computation that keeps every blob and the invariant, whatever its outcome.\<close>

definition grows :: "fs_object_store \<Rightarrow> files \<Rightarrow> files \<Rightarrow> bool" where
  "grows D fs fs' \<longleftrightarrow> fs_inv D fs' \<and> (\<forall>i. fs_blobs D fs i \<noteq> None \<longrightarrow> fs_blobs D fs' i = fs_blobs D fs i)"

definition all_grow :: "fs_object_store \<Rightarrow> (files, 'e, 'a) comp \<Rightarrow> bool" where
  "all_grow D m \<longleftrightarrow> (\<forall>fs r fs'. fs_inv D fs \<longrightarrow> m fs = (r, fs') \<longrightarrow> grows D fs fs')"

lemma grows_trans: "grows D a b \<Longrightarrow> grows D b c \<Longrightarrow> grows D a c"
  by (auto simp: grows_def)

lemma grows_other: "fs_inv D fs \<Longrightarrow> (\<And>i. p \<noteq> path_for D i) \<Longrightarrow> grows D fs (fs(p := x))"
  by (auto simp: grows_def fs_inv_def fs_blobs_def)

lemma grows_place: "fs_inv D fs \<Longrightarrow> fs (path_for D i) = None \<Longrightarrow> content_id_of (hash D) b = i \<Longrightarrow> grows D fs (fs(path_for D i \<mapsto> b))"
  by (auto simp: grows_def fs_inv_def fs_blobs_def split: if_splits)

lemma all_grow_read: "all_grow D (readS g)" "all_grow D (returnS a)" "all_grow D (failS e)" "all_grow D (liftE m)"
  by (auto simp: all_grow_def grows_def)

lemma all_grow_bind:
  assumes "all_grow D m" "\<And>a. all_grow D (f a)"
  shows "all_grow D (bindS m f)"
  unfolding all_grow_def
proof (intro allI impI)
  fix fs r fs' assume fs: "fs_inv D fs" and run: "bindS m f fs = (r, fs')"
  obtain r1 fs1 where m: "m fs = (r1, fs1)" by fastforce
  with assms(1) fs have g: "grows D fs fs1" by (auto simp: all_grow_def)
  show "grows D fs fs'"
  proof (cases r1)
    case (Inl e)
    with run m g show ?thesis by (simp add: bindS_def)
  next
    case (Inr a)
    with run m have "f a fs1 = (r, fs')" by (simp add: bindS_def)
    with assms(2) g have "grows D fs1 fs'" by (auto simp: all_grow_def grows_def)
    with g show ?thesis by (rule grows_trans)
  qed
qed

lemma all_grow_map_errS: "all_grow D m \<Longrightarrow> all_grow D (map_errS g m)"
  by (auto simp: all_grow_def map_errS_def split: prod.splits)

lemma all_grow_files:
  "all_grow D (create_dir_all F p)" "all_grow D (try_exists F p)" "all_grow D (check_fault f)"
  by (simp_all add: create_dir_all_def try_exists_def check_fault_def all_grow_read)

lemma grows_refl: "fs_inv D fs \<Longrightarrow> grows D fs fs"
  by (simp add: grows_def)

lemma all_grow_write:
  assumes "\<And>i. p \<noteq> path_for D i"
  shows "all_grow D (write_file F p b)" "all_grow D (create_file F p)" "all_grow D (append_file F p b)"
    "all_grow D (\<lambda>fs. (r, snd (remove_file F p fs)))"
  using grows_other[OF _ assms]
  by (auto simp: all_grow_def write_file_def create_file_def append_file_def remove_file_def Let_def grows_refl
      split: option.splits)

lemmas all_grow_rules = all_grow_bind all_grow_read all_grow_map_errS all_grow_files all_grow_write

text \<open>Both puts end the same way: unless the blob is there, some staged file is renamed onto its path.\<close>

lemma rename_grows:
  assumes "fs_inv D fs" "fs temp = Some b" "fs (path_for D (content_id_of (hash D) b)) = None" "\<And>i. temp \<noteq> path_for D i"
    and "rename_file F temp (path_for D (content_id_of (hash D) b)) fs = (r, fs')"
  shows "grows D fs fs' \<and> (r = Inr () \<longrightarrow> fs' (path_for D (content_id_of (hash D) b)) = Some b)"
proof -
  let ?p = "path_for D (content_id_of (hash D) b)"
  consider "r \<noteq> Inr ()" "fs' = fs" | "fs' = (fs(temp := None))(?p \<mapsto> b)"
    using assms(2,5) by (auto simp: rename_file_def split: option.splits)
  then show ?thesis
  proof cases
    case 2
    have "grows D fs (fs(temp := None))" using assms(1,4) by (rule grows_other)
    moreover from this assms(3,4) have "grows D (fs(temp := None)) ((fs(temp := None))(?p \<mapsto> b))"
      by (intro grows_place) (auto simp: grows_def)
    ultimately show ?thesis using grows_trans 2 by auto
  qed (use assms(1) in \<open>simp add: grows_refl\<close>)
qed

lemma map_errS_eq: "map_errS g m s = (r, s') \<longleftrightarrow> (\<exists>r0. m s = (r0, s') \<and> r = map_err g r0)"
  by (auto simp: map_errS_def split: prod.splits)

lemma map_errS_eq_Inr [comp_iff]: "map_errS g m s = (Inr a, s') \<longleftrightarrow> m s = (Inr a, s')"
  by (auto simp: map_errS_def map_err_eq_Inr split: prod.splits)

lemma create_dir_state: "map_errS g (create_dir_all F p) fs = (r, fs') \<Longrightarrow> fs' = fs"
  by (auto simp: map_errS_eq create_dir_all_def check_fault_def)

lemma try_exists_state: "map_errS g (try_exists F p) fs = (r, fs') \<Longrightarrow> fs' = fs \<and> (\<forall>a. r = Inr a \<longrightarrow> a = (fs p \<noteq> None))"
  by (auto simp: map_errS_eq try_exists_def map_err_eq_Inr split: option.splits)

lemma checked_run:
  assumes "bindS (map_errS g (create_dir_all F d)) (\<lambda>_. bindS (map_errS g (try_exists F p)) k) fs = (r, fs')"
  obtains e where "fs' = fs" "r = Inl e" | "k (fs p \<noteq> None) fs = (r, fs')"
  using assms
proof (cases rule: bindS_cases)
  case (1 e)
  then show ?thesis using that(1) create_dir_state by blast
next
  case (2 u fs1)
  then have fs1: "fs1 = fs" using create_dir_state by blast
  from 2(2)[unfolded fs1] show ?thesis
  proof (cases rule: bindS_cases)
    case (1 e)
    then show ?thesis using that(1) try_exists_state by blast
  next
    case (2 there fs2)
    with try_exists_state[OF 2(1)] that(2) show ?thesis by simp
  qed
qed

definition put_tail :: "fs_object_store \<Rightarrow> bytes \<Rightarrow> put_hint \<Rightarrow> (files, content_id) io" where
  "put_tail D b hint =
     bindS (liftE (map_err internal (encode (meta_json D)
        \<lparr>meta_size = of_nat (length b), meta_content_type = content_type hint, meta_created_at_ms = created_ms D\<rparr>))) (\<lambda>meta_bytes.
     bindS (or_internal (faults D) (write_file (faults D) (meta_path_for D (content_id_of (hash D) b)) meta_bytes)) (\<lambda>_.
     returnS (content_id_of (hash D) b)))"

lemma put_tail_grows: "all_grow D (put_tail D b hint)"
  unfolding put_tail_def by (intro all_grow_rules) simp

lemma put_tail_result:
  assumes "put_tail D b hint fs = (Inr cid, fs')"
  shows "cid = content_id_of (hash D) b"
  using assms by (auto simp: put_tail_def comp_iff)

lemma fs_put_grows:
  assumes "fs_inv D fs" "fs_put_bytes D b hint fs = (r, fs')"
  shows "grows D fs fs' \<and> (\<forall>cid. r = Inr cid \<longrightarrow> cid = content_id_of (hash D) b \<and> fs_blobs D fs' cid \<noteq> None)"
proof -
  let ?F = "faults D" let ?cid = "content_id_of (hash D) b" let ?p = "path_for D ?cid" let ?tmp = "with_extension ?p ''tmp''"
  let ?place = "\<lambda>there. if \<not> there then bindS (or_internal ?F (write_file ?F ?tmp b)) (\<lambda>_. or_internal ?F (rename_file ?F ?tmp ?p)) else returnS ()"
  have wf: "content_id_wf ?cid" using assms(1) by (simp add: fs_inv_def content_id_wf_def content_id_of_def)
  have placed: "grows D fs fs1 \<and> (r1 = Inr () \<longrightarrow> fs_blobs D fs1 ?cid \<noteq> None)" if "?place (fs ?p \<noteq> None) fs = (r1, fs1)" for r1 fs1
  proof (cases "fs ?p")
    case None
    with that have "bindS (or_internal ?F (write_file ?F ?tmp b)) (\<lambda>_. or_internal ?F (rename_file ?F ?tmp ?p)) fs = (r1, fs1)" by simp
    then show ?thesis
    proof (cases rule: bindS_cases)
      case (1 e)
      with all_grow_write(1)[of ?tmp D ?F b] assms(1) show ?thesis by (auto simp: map_errS_eq all_grow_def)
    next
      case (2 u fs2)
      then have w: "fs2 = fs(?tmp \<mapsto> b)" by (auto simp: comp_iff write_file_def split: option.splits)
      have g: "grows D fs fs2" unfolding w using assms(1) by (rule grows_other) simp
      from 2(2) obtain r2 where "rename_file ?F ?tmp ?p fs2 = (r2, fs1)" "r1 = map_err (io_internal ?F) r2" by (auto simp: map_errS_eq)
      with rename_grows[of D fs2 ?tmp b ?F r2 fs1] g w None
      have "grows D fs2 fs1" "r1 = Inr () \<longrightarrow> fs1 ?p = Some b" by (auto simp: grows_def map_err_eq_Inr)
      with g grows_trans wf show ?thesis by (auto simp: fs_blobs_def)
    qed
  next
    case (Some x)
    with that assms(1) wf show ?thesis by (auto simp: grows_refl fs_blobs_def)
  qed
  from assms(2) have run: "bindS (or_internal ?F (create_dir_all ?F (butlast ?p))) (\<lambda>_. bindS (or_internal ?F (try_exists ?F ?p)) (\<lambda>there.
      bindS (?place there) (\<lambda>_. put_tail D b hint))) fs = (r, fs')" by (simp add: fs_put_bytes_def put_tail_def Let_def)
  then show ?thesis
  proof (cases rule: checked_run)
    case (1 e)
    with assms(1) show ?thesis by (simp add: grows_refl)
  next
    case 2
    then show ?thesis
    proof (cases rule: bindS_cases)
      case (1 e)
      with placed show ?thesis by auto
    next
      case (2 u fs1)
      from placed[OF 2(1)] have g: "grows D fs fs1" "fs_blobs D fs1 ?cid \<noteq> None" by auto
      with put_tail_grows 2(2) have "grows D fs1 fs'" by (auto simp: all_grow_def grows_def)
      with g grows_trans put_tail_result 2(2) show ?thesis by (fastforce simp: grows_def)
    qed
  qed
qed

text \<open>The bytes a stream delivers before its end.\<close>

fun stream_bytes :: "(io_error + bytes) list \<Rightarrow> bytes" where
  "stream_bytes (Inr chunk # reads) = (if chunk = [] then [] else chunk @ stream_bytes reads)"
| "stream_bytes _ = []"

lemma copy_stream_run:
  assumes "copy_stream F temp reads h fs = (r, fs')" "fs temp = Some h"
  shows "(\<forall>p. p \<noteq> temp \<longrightarrow> fs' p = fs p) \<and> (\<forall>h'. r = Inr h' \<longrightarrow> h' = h @ stream_bytes reads \<and> fs' temp = Some h')"
  using assms
proof (induction F temp reads h arbitrary: fs rule: copy_stream.induct)
  case (3 F temp chunk reads h)
  show ?case
  proof (cases "chunk = []")
    case False
    with 3 have "bindS (or_transient F (append_file F temp chunk)) (\<lambda>_. copy_stream F temp reads (h @ chunk)) fs = (r, fs')" by simp
    then show ?thesis
    proof (cases rule: bindS_cases)
      case (1 e)
      then show ?thesis by (auto simp: map_errS_eq append_file_def Let_def split: option.splits)
    next
      case (2 u fs1)
      then have "fs1 = fs(temp \<mapsto> h @ chunk)"
        using 3(3) by (auto simp: comp_iff append_file_def Let_def split: option.splits)
      with 3(1)[OF False 2(2)] False show ?thesis by simp
    qed
  qed (use 3 in auto)
qed auto

lemma all_grow_copy: "(\<And>i. temp \<noteq> path_for D i) \<Longrightarrow> all_grow D (copy_stream F temp reads h)"
  by (induction F temp reads h rule: copy_stream.induct) (auto intro!: all_grow_rules)

lemma fs_put_stream_grows:
  assumes "fs_inv D fs" "fs_put_stream D reads hint fs = (r, fs')"
  shows "grows D fs fs' \<and> (\<forall>cid. r = Inr cid \<longrightarrow> cid = content_id_of (hash D) (stream_bytes reads) \<and> fs_blobs D fs' cid \<noteq> None)"
proof -
  let ?F = "faults D" let ?temp = "temp_path_for_pending D"
  let ?place = "\<lambda>b. bindS (or_transient ?F (create_dir_all ?F (butlast (path_for D (content_id_of (hash D) b))))) (\<lambda>_.
      bindS (or_transient ?F (try_exists ?F (path_for D (content_id_of (hash D) b)))) (\<lambda>there.
      bindS (if there then (\<lambda>fs. (Inr (), snd (remove_file ?F ?temp fs)))
             else or_transient ?F (rename_file ?F ?temp (path_for D (content_id_of (hash D) b)))) (\<lambda>_. returnS (content_id_of (hash D) b))))"
  have placed: "grows D fs fs' \<and> (\<forall>cid. r = Inr cid \<longrightarrow> cid = content_id_of (hash D) b \<and> fs_blobs D fs' cid \<noteq> None)"
    if inv: "fs_inv D fs" and tmp: "fs ?temp = Some b" and run: "?place b fs = (r, fs')" for fs b
  proof -
    let ?cid = "content_id_of (hash D) b"
    have wf: "content_id_wf ?cid" using inv by (simp add: fs_inv_def content_id_wf_def content_id_of_def)
    have rm: "grows D fs (snd (remove_file ?F ?temp fs))"
      using all_grow_write(4)[of ?temp D "Inr () :: unit res" ?F] inv by (auto simp: all_grow_def)
    from run show ?thesis
    proof (cases rule: checked_run)
      case (1 e)
      with inv show ?thesis by (simp add: grows_refl)
    next
      case 2
      show ?thesis
      proof (cases "fs (path_for D ?cid)")
        case (Some x)
        with 2 have "fs' = snd (remove_file ?F ?temp fs)" "r = Inr ?cid" by (auto simp: bindS_def)
        moreover have "fs_blobs D fs ?cid \<noteq> None" using Some wf by (simp add: fs_blobs_def)
        ultimately show ?thesis using rm by (auto simp: grows_def)
      next
        case None
        obtain r1 fs1 where ren: "rename_file ?F ?temp (path_for D ?cid) fs = (r1, fs1)" by fastforce
        with 2 None have "fs' = fs1" "r = Inr ?cid \<and> r1 = Inr () \<or> (\<exists>e. r = Inl e)"
          by (auto simp: bindS_def map_errS_def map_err_def split: sum.splits)
        with rename_grows[OF inv tmp None _ ren] wf show ?thesis by (auto simp: fs_blobs_def)
      qed
    qed
  qed
  let ?rest = "\<lambda>h. bindS (or_transient ?F (check_fault (flush_fault ?F ?temp))) (\<lambda>_.
      bindS (or_transient ?F (check_fault (sync_fault ?F ?temp))) (\<lambda>_. ?place h))"
  have synced: "grows D fs fs' \<and> (\<forall>cid. r = Inr cid \<longrightarrow> cid = content_id_of (hash D) b \<and> fs_blobs D fs' cid \<noteq> None)"
    if "fs_inv D fs" "fs ?temp = Some b" "?rest b fs = (r, fs')" for fs b
    using that(3)
  proof (cases rule: bindS_cases)
    case (1 e)
    with that(1) show ?thesis by (auto simp: grows_refl map_errS_eq check_fault_def)
  next
    case (2 u fs1)
    then have "fs1 = fs" by (auto simp: comp_iff check_fault_def)
    with 2(2) have "bindS (or_transient ?F (check_fault (sync_fault ?F ?temp))) (\<lambda>_. ?place b) fs = (r, fs')" by simp
    then show ?thesis
    proof (cases rule: bindS_cases)
      case (1 e)
      with that(1) show ?thesis by (auto simp: grows_refl map_errS_eq check_fault_def)
    next
      case (2 u fs2)
      then have "fs2 = fs" by (auto simp: comp_iff check_fault_def)
      with placed[OF that(1,2)] 2(2) show ?thesis by blast
    qed
  qed
  let ?copy = "\<lambda>fs. bindS (copy_stream ?F ?temp reads []) ?rest fs = (r, fs')"
  have copied: "grows D fs fs' \<and> (\<forall>cid. r = Inr cid \<longrightarrow> cid = content_id_of (hash D) (stream_bytes reads) \<and> fs_blobs D fs' cid \<noteq> None)"
    if "fs_inv D fs" "fs ?temp = Some []" "?copy fs" for fs
    using that(3)
  proof (cases rule: bindS_cases)
    case (1 e)
    with all_grow_copy[of ?temp D ?F reads "[]"] that(1) show ?thesis by (auto simp: all_grow_def)
  next
    case (2 h fs1)
    from copy_stream_run[OF 2(1) that(2)] have h: "h = stream_bytes reads" "fs1 ?temp = Some h" by auto
    have g: "grows D fs fs1" using all_grow_copy[of ?temp D ?F reads "[]"] that(1) 2(1) by (auto simp: all_grow_def)
    with synced[OF _ h(2) 2(2)] h(1) grows_trans show ?thesis by (auto simp: grows_def)
  qed
  have "bindS (or_transient ?F (create_dir_all ?F (butlast ?temp))) (\<lambda>_. bindS (or_transient ?F (create_file ?F ?temp)) (\<lambda>_.
      bindS (copy_stream ?F ?temp reads []) ?rest)) fs = (r, fs')"
    using assms(2) by (simp add: fs_put_stream_def Let_def)
  then show ?thesis
  proof (cases rule: bindS_cases)
    case (1 e)
    with assms(1) create_dir_state show ?thesis by (fastforce simp: grows_refl)
  next
    case (2 u fs1)
    then have "fs1 = fs" using create_dir_state by blast
    with 2(2) have "bindS (or_transient ?F (create_file ?F ?temp)) (\<lambda>_. bindS (copy_stream ?F ?temp reads []) ?rest) fs = (r, fs')" by simp
    then show ?thesis
    proof (cases rule: bindS_cases)
      case (1 e)
      with assms(1) show ?thesis by (auto simp: map_errS_eq create_file_def grows_refl split: option.splits)
    next
      case (2 u fs2)
      then have fs2: "fs2 = fs(?temp \<mapsto> [])" by (auto simp: comp_iff create_file_def split: option.splits)
      have g: "grows D fs fs2" unfolding fs2 using assms(1) by (rule grows_other) simp
      with copied[OF _ _ 2(2)] fs2 grows_trans show ?thesis by (auto simp: grows_def)
    qed
  qed
qed

lemma fs_get_blob: "content_id_wf cid \<Longrightarrow> fs_get_bytes D cid fs = Inr b \<Longrightarrow> fs_blobs D fs cid = Some b"
  by (auto simp: fs_get_bytes_def read_file_def fs_blobs_def split: option.splits sum.splits io_error.splits)

interpretation fs_store: object_store "fs_object_ops D" "fs_blobs D" "fs_inv D" "hash D" for D
proof (unfold_locales, goal_cases)
  case (1 st b hint r st')
  then show ?case using fs_put_grows[of D st b hint r st']
    by (auto simp: fs_object_ops_def grows_def) (metis fs_blobs_def option.distinct(1))
next
  case (2 st cid b)
  then show ?case by (simp add: fs_object_ops_def fs_get_blob)
next
  case (3 st cid b)
  then show ?case by (simp add: fs_inv_def)
qed

section \<open>Properties\<close>

datatype put_call = PutBytes bytes put_hint | PutStream "(io_error + bytes) list" put_hint

fun run_put :: "fs_object_store \<Rightarrow> put_call \<Rightarrow> (files, content_id) io" where
  "run_put D (PutBytes b hint) = fs_put_bytes D b hint"
| "run_put D (PutStream reads hint) = fs_put_stream D reads hint"

fun run_puts :: "(fs_object_store \<times> put_call) list \<Rightarrow> files \<Rightarrow> files" where
  "run_puts [] fs = fs"
| "run_puts ((D, c) # cs) fs = run_puts cs (snd (run_put D c fs))"

text \<open>Calls on the same store: the root and the hash are fixed, faults, clock and staging names vary per call.\<close>

definition same_store :: "fs_object_store \<Rightarrow> fs_object_store \<Rightarrow> bool" where
  "same_store D D' \<longleftrightarrow> root D' = root D \<and> hash D' = hash D"

lemma same_store_inv: "same_store D D' \<Longrightarrow> fs_inv D' = fs_inv D \<and> fs_blobs D' = fs_blobs D \<and> grows D' = grows D"
proof -
  assume s: "same_store D D'"
  then have "path_for D' = path_for D" by (auto simp: same_store_def path_for_def fun_eq_iff)
  then have "fs_blobs D' = fs_blobs D" by (auto simp: fs_blobs_def fun_eq_iff)
  moreover from this s have "fs_inv D' = fs_inv D" by (intro ext) (simp add: fs_inv_def same_store_def)
  ultimately show ?thesis by (auto simp: grows_def fun_eq_iff)
qed

lemma run_put_grows: "fs_inv D fs \<Longrightarrow> grows D fs (snd (run_put D c fs))"
  by (cases c; cases "run_put D c fs") (use fs_put_grows fs_put_stream_grows in auto)

lemma run_puts_grow:
  "fs_inv D fs \<Longrightarrow> \<forall>(D', c) \<in> set cs. same_store D D' \<Longrightarrow> grows D fs (run_puts cs fs)"
proof (induction cs arbitrary: fs)
  case Nil
  then show ?case by (simp add: grows_refl)
next
  case (Cons x cs)
  obtain D' c where x: "x = (D', c)" by fastforce
  have "grows D fs (snd (run_put D' c fs))" using run_put_grows[of D' fs c] Cons.prems same_store_inv[of D D'] x by auto
  with Cons.IH[of "snd (run_put D' c fs)"] Cons.prems x grows_trans show ?case by (fastforce simp: grows_def)
qed

text \<open>
  C13. Blobs are immutable and named by their hash. Whatever sequence of puts and streamed puts runs on a
  store, failing anywhere and leaving torn staging files behind, every blob that was there is
  still there with the same bytes, and what a read returns for an identifier hashes to it.
\<close>
theorem blobs_immutable_and_authentic:
  assumes "fs_inv D fs" "\<forall>(D', c) \<in> set cs. same_store D D'" "content_id_wf cid"
  shows "(fs (path_for D cid) \<noteq> None \<longrightarrow> run_puts cs fs (path_for D cid) = fs (path_for D cid))
    \<and> (fs_get_bytes D cid (run_puts cs fs) = Inr b \<longrightarrow> hash D b = digest cid)"
proof -
  from run_puts_grow[OF assms(1,2)] have g: "grows D fs (run_puts cs fs)" .
  moreover have "fs_get_bytes D cid (run_puts cs fs) = Inr b \<Longrightarrow> content_id_of (hash D) b = cid"
    using g fs_get_blob[OF assms(3)] by (auto simp: grows_def fs_inv_def)
  moreover have "fs (path_for D cid) \<noteq> None \<Longrightarrow> run_puts cs fs (path_for D cid) = fs (path_for D cid)"
    using g[unfolded grows_def, THEN conjunct2, rule_format, of cid] assms(3) by (simp add: fs_blobs_def)
  ultimately show ?thesis by (auto simp: content_id_of_def)
qed

text \<open>
  A streamed put stores the same blob as a buffered one. When \<open>put_stream\<close> succeeds, however the stream
  was cut into reads, the identifier is the one \<open>put_bytes\<close> gives for the concatenated bytes, and a
  later read that succeeds returns exactly these bytes as long as the hash does not collide on them.
\<close>
theorem stream_put_equals_buffered:
  assumes "fs_inv D fs" "run_put D c fs = (Inr cid, fs')"
    and "\<And>b'. hash D b' = hash D b \<Longrightarrow> b' = b" "c = PutBytes b hint \<or> c = PutStream reads hint \<and> stream_bytes reads = b"
    and "read_fault (faults D) (path_for D cid) fs' = None"
  shows "cid = content_id_of (hash D) b \<and> fs_get_bytes D cid fs' = Inr b"
proof -
  have put: "grows D fs fs'" "cid = content_id_of (hash D) b" "fs_blobs D fs' cid \<noteq> None"
    using fs_put_grows[OF assms(1)] fs_put_stream_grows[OF assms(1)] assms(2,4) by auto
  then obtain b' where b': "fs_blobs D fs' cid = Some b'" by auto
  with put have "hash D b' = hash D b" by (auto simp: grows_def fs_inv_def content_id_of_def)
  with assms(3) b' have "fs' (path_for D cid) = Some b" by (auto simp: fs_blobs_def split: if_splits)
  with assms(5) put(2) show ?thesis by (simp add: fs_get_bytes_def read_file_def)
qed

section \<open>Witnesses\<close>

definition fs_demo :: fs_object_store where
  "fs_demo = \<lparr>root = [''blobs''], faults = \<lparr>mkdir_fault = (\<lambda>_ _. None), exists_fault = (\<lambda>_ _. None), write_fault = (\<lambda>_ _ _. None),
       rename_fault = (\<lambda>_ _ _. None), read_fault = (\<lambda>_ _. None), create_fault = (\<lambda>_ _. None), append_fault = (\<lambda>_ _ _. None),
       flush_fault = (\<lambda>_ _. None), sync_fault = (\<lambda>_ _. None), remove_fault = (\<lambda>_ _. None), show_io = (\<lambda>_. ''io'')\<rparr>,
     hash = (\<lambda>b. if b = [7] then replicate 32 7 else replicate 32 0),
     meta_json = \<lparr>encode = (\<lambda>_. Inr [123, 125]), decode = (\<lambda>_. Inl ''unused'')\<rparr>, created_ms = 0, staging = ''01J''\<rparr>"

lemma fs_demo_inv: "fs_inv fs_demo Map.empty" "fs_inv fs_demo [path_for fs_demo (ContentId (replicate 32 7)) \<mapsto> [7]]"
  by (auto simp: fs_inv_def fs_demo_def fs_blobs_def content_id_of_def split: if_splits)

theorem blobs_immutable_and_authentic_witness:
  "run_puts [(fs_demo, PutBytes [1] put_hint_default)] [path_for fs_demo (ContentId (replicate 32 7)) \<mapsto> [7]]
     (path_for fs_demo (ContentId (replicate 32 7))) = Some [7]"
  using blobs_immutable_and_authentic[OF fs_demo_inv(2), of "[(fs_demo, PutBytes [1] put_hint_default)]" "ContentId (replicate 32 7)"]
  by (simp add: same_store_def content_id_wf_def)

theorem stream_put_equals_buffered_witness:
  "fs_get_bytes fs_demo (ContentId (replicate 32 7)) (snd (fs_put_stream fs_demo [Inr [7], Inr []] put_hint_default Map.empty)) = Inr [7]"
proof -
  let ?c = "PutStream [Inr [7], Inr []] put_hint_default" let ?run = "run_put fs_demo ?c Map.empty"
  have cid: "fst ?run = Inr (ContentId (replicate 32 7))" by code_simp
  then have run: "?run = (Inr (ContentId (replicate 32 7)), snd ?run)" by (metis prod.collapse)
  have "hash fs_demo b' = hash fs_demo [7] \<Longrightarrow> b' = [7]" for b' by (auto simp: fs_demo_def split: if_splits)
  moreover have "read_fault (faults fs_demo) p fs = None" for p fs by (simp add: fs_demo_def)
  moreover have "?c = PutStream [Inr [7], Inr []] put_hint_default \<and> stream_bytes [Inr [7], Inr []] = [7]" by simp
  ultimately have "fs_get_bytes fs_demo (ContentId (replicate 32 7)) (snd ?run) = Inr [7]"
    using stream_put_equals_buffered[OF fs_demo_inv(1) run] by blast
  then show ?thesis by simp
qed

end
