(* ===== verification/Batch.thy ===== *)
theory Batch
  imports Utf8 Batch_State Local_Queue Object_Store Transport
begin

text \<open>
  Resumable batch inference (\<open>rollout-runtime-batch\<close>): the coordinator that plans and replays the
  samples of a run (\<open>coordinator.rs\<close>) and the worker that pulls them (\<open>worker.rs\<close>), over the metadata
  store, the work queue and the blob store together. The locale \<open>batch_runtime\<close> joins their three
  contracts; \<open>local_batch\<close> interprets it on redb, the local queue and the local blob store. The
  inference backend, the clock and postcard are parameters.
\<close>

section \<open>The pieces a run is built with\<close>

record completion =
  completion_text :: string
  finish_reason :: string
  prompt_tokens :: u32
  completion_tokens :: u32

type_synonym generate = "string list \<Rightarrow> sampling_params \<Rightarrow> core_error + completion list"

record ('s, 't, 'q, 'o) batch_deps =
  b_storage :: "('s, 't) storage_ops"
  b_queue :: "('s \<times> 'q) queue_ops"
  b_objects :: "'o object_ops"
  b_codec :: "sample_record codec"
  b_params :: "sampling_params codec"
  b_hash :: blake3
  b_utf8_msg :: "bytes \<Rightarrow> string"
  b_show_error :: "core_error \<Rightarrow> string"

type_synonym ('s, 'q, 'o) batch_world = "('s \<times> 'q) \<times> 'o"

abbreviation in_store :: "('s, 'a) io \<Rightarrow> (('s, 'q, 'o) batch_world, 'a) io" where
  "in_store f \<equiv> on_store (on_store f)"

abbreviation in_queue :: "('s \<times> 'q, 'a) io \<Rightarrow> (('s, 'q, 'o) batch_world, 'a) io" where
  "in_queue f \<equiv> on_store f"

abbreviation in_objects :: "('o, 'a) io \<Rightarrow> (('s, 'q, 'o) batch_world, 'a) io" where
  "in_objects f \<equiv> on_sink f"

text \<open>\<open>now_ms\<close> of \<open>coordinator.rs\<close>: zero before the epoch, saturating at the largest \<open>u64\<close>.\<close>

definition batch_now_ms :: "systime \<Rightarrow> u64" where
  "batch_now_ms now = (case duration_since now 0 of None \<Rightarrow> 0
     | Some d \<Rightarrow> if unat (as_millis d) < 2 ^ 64 then of_nat (unat (as_millis d)) else - 1)"

section \<open>The coordinator\<close>

record input_item =
  item_idx :: u64
  item_prompt :: string

definition enqueue_sample :: "('s, 't, 'q, 'o) batch_deps \<Rightarrow> content_id \<Rightarrow> (('s, 'q, 'o) batch_world, bool) io" where
  "enqueue_sample D sid = bindS (in_queue (enqueue_item (b_queue D) (as_bytes (content_id_to_string sid)))) (\<lambda>_. returnS True)"

text \<open>One iteration of \<open>scan_and_enqueue\<close>; the result says whether the sample was enqueued.\<close>

definition scan_new :: "('s, 't, 'q, 'o) batch_deps \<Rightarrow> run_id \<Rightarrow> u64 \<Rightarrow> input_item \<Rightarrow> content_id \<Rightarrow> (('s, 'q, 'o) batch_world, bool) io" where
  "scan_new D run now item sid =
     bindS (in_objects (put_blob (b_objects D) (as_bytes (item_prompt item)) put_hint_default)) (\<lambda>blob.
     bindS (liftE (encode_sample (b_codec D)
       \<lparr>sample_rid = sid, prompt_blob = blob, sample_st = SPending, created_at_ms = now, input_idx = item_idx item\<rparr>)) (\<lambda>b.
     bindS (in_store (in_txn (b_storage D) (put_bytes (b_storage D) (sample_key run sid) b))) (\<lambda>_.
     enqueue_sample D sid)))"

definition scan_old :: "('s, 't, 'q, 'o) batch_deps \<Rightarrow> run_id \<Rightarrow> u64 \<Rightarrow> u64 \<Rightarrow> content_id \<Rightarrow> sample_record \<Rightarrow> (('s, 'q, 'o) batch_world, bool) io" where
  "scan_old D run stale_after now sid rec = (case sample_st rec of
     SDone _ _ \<Rightarrow> returnS False
   | SPending \<Rightarrow> enqueue_sample D sid
   | SFailed _ _ \<Rightarrow> enqueue_sample D sid
   | SRunning _ started \<Rightarrow>
       if saturating_sub now started > stale_after
       then bindS (in_store (commit_if (b_storage D) (sample_try_repending (b_storage D) (b_codec D) run rec))) (\<lambda>applied.
            if applied then enqueue_sample D sid else returnS False)
       else returnS False)"

definition scan_item :: "('s, 't, 'q, 'o) batch_deps \<Rightarrow> run_id \<Rightarrow> u64 \<Rightarrow> u64 \<Rightarrow> content_id \<Rightarrow> sampling_params \<Rightarrow> input_item
    \<Rightarrow> (('s, 'q, 'o) batch_world, bool) io" where
  "scan_item D run stale_after now model sampling item =
     bindS (liftE (sample_id (b_hash D) (b_params D) model (item_prompt item) sampling (item_idx item))) (\<lambda>sid.
     bindS (in_store (readS (get_bytes (b_storage D) (sample_key run sid)))) (\<lambda>existing. case existing of
       None \<Rightarrow> scan_new D run now item sid
     | Some b \<Rightarrow> bindS (liftE (decode_sample (b_codec D) b)) (\<lambda>rec. scan_old D run stale_after now sid rec)))"

fun scan_items :: "('s, 't, 'q, 'o) batch_deps \<Rightarrow> run_id \<Rightarrow> u64 \<Rightarrow> u64 \<Rightarrow> content_id \<Rightarrow> sampling_params \<Rightarrow> input_item list
    \<Rightarrow> nat \<Rightarrow> (('s, 'q, 'o) batch_world, nat) io" where
  "scan_items D run stale_after now model sampling [] enqueued = returnS enqueued"
| "scan_items D run stale_after now model sampling (item # items) enqueued =
     bindS (scan_item D run stale_after now model sampling item) (\<lambda>added.
     scan_items D run stale_after now model sampling items (if added then enqueued + 1 else enqueued))"

definition scan_and_enqueue :: "('s, 't, 'q, 'o) batch_deps \<Rightarrow> run_id \<Rightarrow> u64 \<Rightarrow> systime \<Rightarrow> input_item list \<Rightarrow> content_id
    \<Rightarrow> sampling_params \<Rightarrow> (('s, 'q, 'o) batch_world, nat) io" where
  "scan_and_enqueue D run stale_after clock inputs model sampling =
     scan_items D run stale_after (batch_now_ms clock) model sampling inputs 0"

definition load_sample :: "('s, 't, 'q, 'o) batch_deps \<Rightarrow> run_id \<Rightarrow> content_id \<Rightarrow> 's \<Rightarrow> sample_record res" where
  "load_sample D run sid s =
     bindE (get_bytes (b_storage D) (sample_key run sid) s) (\<lambda>stored. case stored of
       None \<Rightarrow> Inl (internal (''sample '' @ content_id_to_string sid @ '' not found''))
     | Some b \<Rightarrow> decode_sample (b_codec D) b)"

definition sample_range :: "run_id \<Rightarrow> key_range" where
  "sample_range run = \<lparr>range_prefix = \<lparr>namespace = ''infer'', key_run = Some run, path = [''samples'']\<rparr>, range_limit = None\<rparr>"

definition is_sdone :: "sample_state \<Rightarrow> bool" where
  "is_sdone st \<longleftrightarrow> (case st of SDone _ _ \<Rightarrow> True | _ \<Rightarrow> False)"

definition collect_done_records :: "('s, 't, 'q, 'o) batch_deps \<Rightarrow> run_id \<Rightarrow> 's \<Rightarrow> sample_record list res" where
  "collect_done_records D run s =
     bindE (scan_bytes (b_storage D) (sample_range run) s) (\<lambda>entries.
     bindE (collectE (\<lambda>e. decode_sample (b_codec D) (snd e)) entries) (\<lambda>recs.
     Inr (sort_key input_idx (filter (\<lambda>rec. is_sdone (sample_st rec)) recs))))"

section \<open>The worker\<close>

datatype run_outcome = Completed | RFailed | Skipped | Drained

definition parse_sample_id :: "(bytes \<Rightarrow> string) \<Rightarrow> bytes \<Rightarrow> content_id res" where
  "parse_sample_id utf8_msg payload =
     bindE (map_err (\<lambda>e. internal (''queue payload not UTF-8: '' @ e)) (from_utf8 utf8_msg payload)) (\<lambda>text.
     case content_id_from_str text of
       Inr sid \<Rightarrow> Inr sid
     | Inl (Err e) \<Rightarrow> Inl (internal (''parse ContentId: '' @ e))
     | Inl (Panic m) \<Rightarrow> Inl (Panic m))"

record batch_worker =
  w_run :: run_id
  w_id :: worker_id
  w_sampling :: sampling_params
  w_stale_after_ms :: u64

definition ack_with :: "('s, 't, 'q, 'o) batch_deps \<Rightarrow> queue_item_id \<Rightarrow> run_outcome \<Rightarrow> (('s, 'q, 'o) batch_world, run_outcome) io" where
  "ack_with D qid out = bindS (in_queue (ack_item (b_queue D) qid)) (\<lambda>_. returnS out)"

text \<open>The part of \<open>run_one\<close> between the claim and the acknowledgement, on the record it just wrote.\<close>

definition run_claimed :: "('s, 't, 'q, 'o) batch_deps \<Rightarrow> batch_worker \<Rightarrow> generate \<Rightarrow> u64 \<Rightarrow> sample_record
    \<Rightarrow> (('s, 'q, 'o) batch_world, run_outcome) io" where
  "run_claimed D w gen finish_now running =
     bindS (in_objects (readS (get_blob (b_objects D) (prompt_blob running)))) (\<lambda>prompt_bytes.
     bindS (liftE (map_err (\<lambda>e. internal (''prompt blob not UTF-8: '' @ e)) (from_utf8 (b_utf8_msg D) prompt_bytes))) (\<lambda>prompt_text.
     case gen [prompt_text] (w_sampling w) of
       Inr completions \<Rightarrow>
         (case rev completions of
            [] \<Rightarrow> failS (internal ''backend returned empty completion vec'')
          | answer # _ \<Rightarrow>
              bindS (in_objects (put_blob (b_objects D) (as_bytes (completion_text answer)) put_hint_default)) (\<lambda>blob.
              bindS (in_store (commit_if (b_storage D) (sample_try_complete (b_storage D) (b_codec D) (w_run w) running blob finish_now))) (\<lambda>applied.
              if \<not> applied then failS (internal (''CAS Running->Done lost for '' @ content_id_to_string (sample_rid running)))
              else returnS Completed)))
     | Inl e \<Rightarrow>
         bindS (in_store (in_txn (b_storage D) (sample_try_fail (b_storage D) (b_codec D) (w_run w) running (b_show_error D e) finish_now))) (\<lambda>_.
         returnS RFailed)))"

definition run_loaded :: "('s, 't, 'q, 'o) batch_deps \<Rightarrow> batch_worker \<Rightarrow> generate \<Rightarrow> u64 \<Rightarrow> u64 \<Rightarrow> queue_item_id \<Rightarrow> sample_record
    \<Rightarrow> (('s, 'q, 'o) batch_world, run_outcome) io" where
  "run_loaded D w gen claim_now finish_now qid rec =
     (if is_terminal_sample (sample_st rec) then ack_with D qid Skipped
      else bindS (in_store (commit_if (b_storage D)
             (sample_try_claim (b_storage D) (b_codec D) (w_run w) rec (w_id w) claim_now (w_stale_after_ms w)))) (\<lambda>claimed.
           if \<not> claimed then ack_with D qid Skipped
           else bindS (run_claimed D w gen finish_now (rec\<lparr>sample_st := SRunning (w_id w) claim_now\<rparr>)) (\<lambda>out.
                ack_with D qid out)))"

definition run_one :: "('s, 't, 'q, 'o) batch_deps \<Rightarrow> batch_worker \<Rightarrow> generate \<Rightarrow> u64 \<Rightarrow> u64
    \<Rightarrow> (('s, 'q, 'o) batch_world, run_outcome) io" where
  "run_one D w gen claim_now finish_now =
     bindS (in_queue (dequeue_item (b_queue D))) (\<lambda>item. case item of
       None \<Rightarrow> returnS Drained
     | Some (qid, payload) \<Rightarrow>
         bindS (liftE (parse_sample_id (b_utf8_msg D) payload)) (\<lambda>sid.
         bindS (in_store (readS (get_bytes (b_storage D) (sample_key (w_run w) sid)))) (\<lambda>stored. case stored of
           None \<Rightarrow> ack_with D qid Skipped
         | Some b \<Rightarrow> bindS (liftE (decode_sample (b_codec D) b)) (\<lambda>rec. run_loaded D w gen claim_now finish_now qid rec))))"

text \<open>
  The pull loop. \<open>stopped\<close> reads the shared stop flag, \<open>clock\<close> the two clock readings of an iteration;
  None is a loop that used up its fuel.
\<close>

fun run_loop :: "('s, 't, 'q, 'o) batch_deps \<Rightarrow> batch_worker \<Rightarrow> generate \<Rightarrow> (nat \<Rightarrow> bool) \<Rightarrow> (nat \<Rightarrow> u64 \<times> u64) \<Rightarrow> nat \<Rightarrow> nat \<Rightarrow> nat
    \<Rightarrow> ('s, 'q, 'o) batch_world \<Rightarrow> (nat res \<times> ('s, 'q, 'o) batch_world) option" where
  "run_loop D w gen stopped clock 0 i completed world = None"
| "run_loop D w gen stopped clock (Suc fuel) i completed world =
     (if stopped i then Some (Inr completed, world)
      else case run_one D w gen (fst (clock i)) (snd (clock i)) world of
        (Inl e, world') \<Rightarrow> Some (Inl e, world')
      | (Inr Drained, world') \<Rightarrow> Some (Inr completed, world')
      | (Inr Completed, world') \<Rightarrow> run_loop D w gen stopped clock fuel (Suc i) (completed + 1) world'
      | (Inr _, world') \<Rightarrow> run_loop D w gen stopped clock fuel (Suc i) completed world')"

text \<open>\<open>poll_preemption\<close>: a notice sets the stop flag.\<close>

definition poll_preemption :: "duration option res \<Rightarrow> bool \<Rightarrow> duration option res \<times> bool" where
  "poll_preemption signal stop_pull = (case signal of
     Inr (Some lead) \<Rightarrow> (Inr (Some lead), True) | _ \<Rightarrow> (signal, stop_pull))"

section \<open>Lookups and worlds\<close>

lemma store_call: "in_store f ((s, q), ob) = (r, w) \<longleftrightarrow> (\<exists>s'. f s = (r, s') \<and> w = ((s', q), ob))"
  by (auto simp: on_store_def split: prod.splits)

lemma queue_call_eq: "in_queue f ((s, q), ob) = (r, w) \<longleftrightarrow> (\<exists>s' q'. f (s, q) = (r, (s', q')) \<and> w = ((s', q'), ob))"
  by (auto simp: on_store_def split: prod.splits)

lemma object_call: "in_objects f (u, ob) = (r, w) \<longleftrightarrow> (\<exists>ob'. f ob = (r, ob') \<and> w = (u, ob'))"
  by (auto simp: on_sink_def split: prod.splits)

lemmas world_calls = queue_call_eq object_call on_store_eq

text \<open>
  What the batch relies on in its rows: every sample row is the encoding of a record with the
  row's own identifier, and content identifiers have 32 bytes.
\<close>

definition sample_rows_ok :: "sample_record codec \<Rightarrow> run_id \<Rightarrow> store_view \<Rightarrow> bool" where
  "sample_rows_ok C run v \<longleftrightarrow> (\<forall>sid b. v (sample_key run sid) = Some b \<longrightarrow>
     (\<exists>rec. encode C rec = Inr b \<and> sample_rid rec = sid \<and> content_id_wf (prompt_blob rec)))"

lemma sample_rows_lookup:
  assumes "codec_ok C" "sample_rows_ok C run v"
  shows "v (sample_key run sid) = Some b \<longleftrightarrow> (\<exists>rec. sample_row C run sid v = Some rec \<and> encode C rec = Inr b)"
    and "sample_row C run sid v = Some rec \<Longrightarrow> sample_rid rec = sid \<and> content_id_wf (prompt_blob rec)"
    and "sample_row C run sid v = Some rec \<Longrightarrow> \<exists>b. v (sample_key run sid) = Some b \<and> encode C rec = Inr b"
  using assms unfolding sample_rows_ok_def
  by (fastforce simp: sample_row_def codec_okD split: option.splits sum.splits)+

lemma sample_rows_ok_moved:
  assumes "codec_ok C" "sample_rows_ok C run v" "moved C run rec st v v'"
  shows "sample_rows_ok C run v'"
  unfolding sample_rows_ok_def
proof (intro allI impI)
  fix sid b assume b: "v' (sample_key run sid) = Some b"
  show "\<exists>rec. encode C rec = Inr b \<and> sample_rid rec = sid \<and> content_id_wf (prompt_blob rec)"
  proof (cases "sid = sample_rid rec")
    case True
    have "content_id_wf (prompt_blob rec)" using sample_rows_lookup(2)[OF assms(1,2) moved_row(1)[OF assms(1,3)]] by simp
    with True b assms(3) show ?thesis by (intro exI[of _ "rec\<lparr>sample_st := st\<rparr>"]) (auto simp: moved_def)
  next
    case False
    with b assms(2,3) show ?thesis by (auto simp: moved_def sample_rows_ok_def)
  qed
qed

lemma sample_rows_ok_frame:
  "sample_rows_ok C run v \<Longrightarrow> (\<And>sid. v' (sample_key run sid) = v (sample_key run sid)) \<Longrightarrow> sample_rows_ok C run v'"
  by (simp add: sample_rows_ok_def)

lemma sample_row_frame:
  "v' (sample_key run sid) = v (sample_key run sid) \<Longrightarrow> sample_row C run sid v' = sample_row C run sid v"
  by (simp add: sample_row_def)

context storage
begin

lemma cas_sample_wins:
  assumes "tinv t" "okk (sample_key run (sample_rid rec))" "cas_sample S C run rec st t = (Inr won, t')"
  shows "won \<longleftrightarrow> (\<exists>e. encode C rec = Inr e \<and> tview t (sample_key run (sample_rid rec)) = Some e)"
  using assms cas_law[OF assms(1,2)] by (fastforce simp: cas_sample_def encode_sample_def comp_iff)

text \<open>A swap from the stored record, run alone, either wins or fails with an error.\<close>

lemma sample_commit_current:
  assumes "inv s" "okk (sample_key run (sample_rid rec))" "commit_if S (cas_sample S C run rec st) s = (Inr ok, s')"
    and "encode C rec = Inr e" "view s (sample_key run (sample_rid rec)) = Some e"
  shows "ok \<and> moved C run rec st (view s) (view s')"
proof (cases ok)
  case True
  with sample_commit_outcomes[OF assms(1-3)] show ?thesis by simp
next
  case False
  then obtain t t1 where "begin_txn S s = Inr t" "cas_sample S C run rec st t = (Inr False, t1)"
    using assms(3) by (auto simp: commit_if_def comp_iff split: if_splits)
  with cas_sample_wins[OF _ assms(2)] begin_law[OF assms(1)] assms(4,5) show ?thesis by fastforce
qed

lemma sample_txn_outcomes:
  assumes "inv s" "okk (sample_key run (sample_rid rec))" "in_txn S (cas_sample S C run rec st) s = (r, s')"
  shows "inv s' \<and> (view s' = view s \<or> moved C run rec st (view s) (view s'))
    \<and> (r = Inr () \<longrightarrow> encode C rec = Inr e \<longrightarrow> view s (sample_key run (sample_rid rec)) = Some e \<longrightarrow> moved C run rec st (view s) (view s'))"
proof -
  consider (err) x where "r = Inl x" "s' = s"
    | (ran) t u t1 where "begin_txn S s = Inr t" "cas_sample S C run rec st t = (Inr u, t1)" "commit_txn S t1 s = (r, s')"
    using assms(3) by (cases r) (auto simp: in_txn_def comp_iff bindS_eq_Inl within_eq_Inl)
  then show ?thesis
  proof cases
    case ran
    note t = begin_law[OF assms(1) ran(1)]
    then have t1: "tinv t1 \<and> (if u then moved C run rec st (view s) (tview t1) else tview t1 = view s)"
      and u: "u \<longleftrightarrow> (\<exists>e. encode C rec = Inr e \<and> view s (sample_key run (sample_rid rec)) = Some e)"
      using cas_sample_law[OF _ assms(2) ran(2)] cas_sample_wins[OF _ assms(2) ran(2)] by auto
    with commit_law[OF assms(1) _ ran(3)] show ?thesis by (cases u) auto
  qed (use assms(1) in auto)
qed

end

section \<open>What one pull does\<close>

text \<open>The state a claimed sample ends in: the last completion the backend returns, or its error.\<close>

definition result_state :: "('s, 't, 'q, 'o) batch_deps \<Rightarrow> blake3 \<Rightarrow> batch_worker \<Rightarrow> generate \<Rightarrow> u64 \<Rightarrow> bytes \<Rightarrow> run_outcome \<Rightarrow> sample_state \<Rightarrow> bool" where
  "result_state D H w gen finish_now prompt_bytes out st \<longleftrightarrow>
     (case from_utf8 (b_utf8_msg D) prompt_bytes of Inl _ \<Rightarrow> False
      | Inr prompt \<Rightarrow>
          (case gen [prompt] (w_sampling w) of
             Inr answers \<Rightarrow> answers \<noteq> [] \<and> out = Completed
               \<and> st = SDone (content_id_of H (as_bytes (completion_text (last answers)))) finish_now
           | Inl e \<Rightarrow> out = RFailed \<and> st = SFailed (b_show_error D e) finish_now))"

definition pull_spec :: "('s, 't, 'q, 'o) batch_deps \<Rightarrow> blake3 \<Rightarrow> batch_worker \<Rightarrow> generate \<Rightarrow> u64 \<Rightarrow> u64
    \<Rightarrow> (content_id \<Rightarrow> bytes option) \<Rightarrow> (content_id \<Rightarrow> bytes option) \<Rightarrow> sample_record option \<Rightarrow> run_outcome \<Rightarrow> sample_record option \<Rightarrow> bool" where
  "pull_spec D H w gen claim_now finish_now blobs blobs' before out after \<longleftrightarrow> (case before of
     None \<Rightarrow> out = Skipped \<and> after = None
   | Some rec \<Rightarrow>
       if \<not> claimable claim_now (w_stale_after_ms w) (sample_st rec) then out = Skipped \<and> after = Some rec
       else \<exists>pb st. blobs (prompt_blob rec) = Some pb \<and> result_state D H w gen finish_now pb out st
              \<and> after = Some (rec\<lparr>sample_st := st\<rparr>) \<and> (out = Completed \<longrightarrow> blobs' (completion_blob st) \<noteq> None))"

lemma collectE_map: "collectE f xs = Inr ys \<Longrightarrow> ys = map (projr \<circ> f) xs"
  by (induction xs arbitrary: ys) (auto simp: comp_iff)

lemma pull_spec_not_drained: "\<not> pull_spec D H w gen now fin bl bl' before Drained after"
  by (auto simp: pull_spec_def result_state_def split: option.splits sum.splits)

lemma terminal_not_claimable: "is_terminal_sample st \<Longrightarrow> \<not> claimable now stale_after st"
  by (auto simp: is_terminal_sample_def claimable_def split: sample_state.splits)

lemma result_state_terminal: "result_state D H w gen fin pb out st \<Longrightarrow> is_terminal_sample st"
  unfolding result_state_def
  by (cases "from_utf8 (b_utf8_msg D) pb"; cases "gen [projr (from_utf8 (b_utf8_msg D) pb)] (w_sampling w)")
    (auto simp: is_terminal_sample_def)

lemma pull_spec_row:
  assumes "pull_spec D H w gen now fin bl bl' (Some rec) out after"
  shows "sample_st rec = SPending \<Longrightarrow> \<exists>rec'. after = Some rec' \<and> is_terminal_sample (sample_st rec')"
    and "is_terminal_sample (sample_st rec) \<Longrightarrow> after = Some rec"
proof -
  assume "sample_st rec = SPending"
  then obtain pb st where "result_state D H w gen fin pb out st" "after = Some (rec\<lparr>sample_st := st\<rparr>)"
    using assms by (auto simp: pull_spec_def claimable_def)
  then show "\<exists>rec'. after = Some rec' \<and> is_terminal_sample (sample_st rec')" using result_state_terminal by auto
next
  assume "is_terminal_sample (sample_st rec)"
  then show "after = Some rec" using assms terminal_not_claimable by (auto simp: pull_spec_def)
qed

text \<open>Every pending sample of a list of queue items ends terminal, and terminal samples stay as they are.\<close>

definition drains :: "('s, 't, 'q, 'o) batch_deps \<Rightarrow> run_id \<Rightarrow> (queue_item_id \<times> bytes) list \<Rightarrow> store_view \<Rightarrow> store_view \<Rightarrow> bool" where
  "drains D run L v v' \<longleftrightarrow>
     (\<forall>(qid, p) \<in> set L. \<forall>sid rec. parse_sample_id (b_utf8_msg D) p = Inr sid \<longrightarrow> sample_row (b_codec D) run sid v = Some rec \<longrightarrow>
        sample_st rec = SPending \<longrightarrow> (\<exists>rec'. sample_row (b_codec D) run sid v' = Some rec' \<and> is_terminal_sample (sample_st rec')))
     \<and> (\<forall>sid rec. sample_row (b_codec D) run sid v = Some rec \<longrightarrow> is_terminal_sample (sample_st rec) \<longrightarrow>
        sample_row (b_codec D) run sid v' = Some rec)"

lemma drains_step:
  assumes "drains D run L v1 v'" "parse_sample_id (b_utf8_msg D) p = Inr sid"
    and "\<forall>sid'. sid' \<noteq> sid \<longrightarrow> sample_row (b_codec D) run sid' v1 = sample_row (b_codec D) run sid' v"
    and "pull_spec D H w gen now fin bl bl' (sample_row (b_codec D) run sid v) out (sample_row (b_codec D) run sid v1)"
  shows "drains D run ((qid, p) # L) v v'"
proof -
  let ?row = "sample_row (b_codec D) run"
  have final: "?row i v' = Some rec" if "?row i v1 = Some rec" "is_terminal_sample (sample_st rec)" for i rec
    using assms(1) that by (auto simp: drains_def)
  have own: "\<exists>rec'. ?row sid v' = Some rec' \<and> is_terminal_sample (sample_st rec')" if "?row sid v = Some rec" "sample_st rec = SPending" for rec
    using pull_spec_row(1)[OF assms(4)[unfolded that(1)] that(2)] final by blast
  have other: "\<exists>rec'. ?row i v' = Some rec' \<and> is_terminal_sample (sample_st rec')"
    if "(qid', p') \<in> set L" "parse_sample_id (b_utf8_msg D) p' = Inr i" "?row i v = Some rec" "sample_st rec = SPending" for qid' p' i rec
    using assms(1,3) own that by (cases "i = sid") (auto simp: drains_def)
  have settled: "?row i v' = Some rec" if "?row i v = Some rec" "is_terminal_sample (sample_st rec)" for i rec
    using assms(3,4) pull_spec_row(2)[of D H w gen now fin bl bl' rec out "?row sid v1"] final that by (cases "i = sid") auto
  show ?thesis using own other settled assms(2) by (auto simp: drains_def)
qed

section \<open>What planning does\<close>

text \<open>Planning keeps every row, except that running rows it puts back on the queue become pending.\<close>

definition replans :: "sample_record codec \<Rightarrow> run_id \<Rightarrow> (queue_item_id \<times> bytes) list \<Rightarrow> store_view \<Rightarrow> store_view \<Rightarrow> bool" where
  "replans C run L v v' \<longleftrightarrow> (\<forall>sid rec. sample_row C run sid v = Some rec \<longrightarrow>
     (\<exists>rec'. sample_row C run sid v' = Some rec' \<and> (rec' = rec \<or> is_srunning (sample_st rec) \<and> rec' = rec\<lparr>sample_st := SPending\<rparr>
        \<and> as_bytes (content_id_to_string sid) \<in> snd ` set L)))"

text \<open>An input is planned when its sample has a row that is done, held by a worker, or on the queue.\<close>

definition planned :: "sample_record codec \<Rightarrow> run_id \<Rightarrow> (queue_item_id \<times> bytes) list \<Rightarrow> store_view \<Rightarrow> content_id \<Rightarrow> bool" where
  "planned C run L v sid \<longleftrightarrow> (\<exists>rec. sample_row C run sid v = Some rec
     \<and> (is_sdone (sample_st rec) \<or> is_srunning (sample_st rec) \<or> as_bytes (content_id_to_string sid) \<in> snd ` set L))"

definition keeps_terminal :: "sample_record codec \<Rightarrow> run_id \<Rightarrow> store_view \<Rightarrow> store_view \<Rightarrow> bool" where
  "keeps_terminal C run v v' \<longleftrightarrow> (\<forall>sid rec. sample_row C run sid v = Some rec \<longrightarrow> is_terminal_sample (sample_st rec) \<longrightarrow>
     sample_row C run sid v' = Some rec)"

lemma replans_trans:
  assumes "replans C run L1 v v1" "replans C run L2 v1 v2"
  shows "replans C run (L1 @ L2) v v2"
  unfolding replans_def
proof (intro allI impI)
  fix sid rec assume "sample_row C run sid v = Some rec"
  with assms(1) obtain rec1 where r1: "sample_row C run sid v1 = Some rec1"
    "rec1 = rec \<or> is_srunning (sample_st rec) \<and> rec1 = rec\<lparr>sample_st := SPending\<rparr> \<and> as_bytes (content_id_to_string sid) \<in> snd ` set L1"
    unfolding replans_def by blast
  with assms(2) obtain rec2 where "sample_row C run sid v2 = Some rec2"
    "rec2 = rec1 \<or> is_srunning (sample_st rec1) \<and> rec2 = rec1\<lparr>sample_st := SPending\<rparr> \<and> as_bytes (content_id_to_string sid) \<in> snd ` set L2"
    unfolding replans_def by blast
  with r1(2) show "\<exists>rec'. sample_row C run sid v2 = Some rec' \<and> (rec' = rec \<or> is_srunning (sample_st rec) \<and> rec' = rec\<lparr>sample_st := SPending\<rparr>
        \<and> as_bytes (content_id_to_string sid) \<in> snd ` set (L1 @ L2))"
    by (auto simp: image_Un is_srunning_def)
qed

lemma planned_later: "planned C run L1 v sid \<Longrightarrow> replans C run L2 v v' \<Longrightarrow> planned C run (L1 @ L2) v' sid"
  by (fastforce simp: planned_def replans_def is_srunning_def is_sdone_def image_Un split: sample_state.splits)

lemma planned_more: "planned C run L2 v sid \<Longrightarrow> planned C run (L1 @ L2) v sid"
  by (auto simp: planned_def image_Un)

lemma keeps_terminal_trans: "keeps_terminal C run v v1 \<Longrightarrow> keeps_terminal C run v1 v2 \<Longrightarrow> keeps_terminal C run v v2"
  by (auto simp: keeps_terminal_def)

lemma replans_same: "(\<And>sid. sample_row C run sid v \<noteq> None \<Longrightarrow> sample_row C run sid v' = sample_row C run sid v) \<Longrightarrow> replans C run L v v'"
  unfolding replans_def by (metis option.distinct(1))

lemma keeps_terminal_same: "(\<And>sid. sample_row C run sid v \<noteq> None \<Longrightarrow> sample_row C run sid v' = sample_row C run sid v) \<Longrightarrow> keeps_terminal C run v v'"
  unfolding keeps_terminal_def by (metis option.distinct(1))

lemma keeps_terminal_moved:
  assumes "codec_ok C" "moved C run rec st v v'" "\<not> is_terminal_sample (sample_st rec)"
  shows "keeps_terminal C run v v'"
  unfolding keeps_terminal_def using moved_row(1,3)[OF assms(1,2)] assms(3) by (metis option.inject)

lemma sample_rows_ok_put:
  assumes "sample_rows_ok C run v" "encode C rec = Inr b" "sample_rid rec = sid" "content_id_wf (prompt_blob rec)"
  shows "sample_rows_ok C run (v(sample_key run sid \<mapsto> b))"
  using assms by (auto simp: sample_rows_ok_def)

section \<open>The three contracts together\<close>

locale batch_runtime =
  storage "b_storage D" view tview okk inv tinv inscope + work_queue "b_queue D" view winv waiting unacked own
    + object_store "b_objects D" blobs oinv H
  for D :: "('s, 't, 'q, 'o) batch_deps"
    and view :: "'s \<Rightarrow> store_view" and tview :: "'t \<Rightarrow> store_view" and okk :: "storage_key \<Rightarrow> bool"
    and inv :: "'s \<Rightarrow> bool" and tinv :: "'t \<Rightarrow> bool" and inscope :: "storage_key \<Rightarrow> storage_key \<Rightarrow> bool"
    and winv :: "'s \<times> 'q \<Rightarrow> bool" and waiting :: "'q \<Rightarrow> (queue_item_id \<times> bytes) list"
    and unacked :: "store_view \<Rightarrow> queue_item_id \<Rightarrow> bytes option" and own :: "storage_key \<Rightarrow> bool"
    and blobs :: "'o \<Rightarrow> content_id \<Rightarrow> bytes option" and oinv :: "'o \<Rightarrow> bool" and H :: blake3
  + assumes winv_inv: "winv (s, q) \<Longrightarrow> inv s"
    and winv_frame: "winv (s, q) \<Longrightarrow> inv s' \<Longrightarrow> (\<And>k. own k \<Longrightarrow> view s' k = view s k) \<Longrightarrow> winv (s', q)"
    and sample_key_okk: "winv (s, q) \<Longrightarrow> okk (sample_key run sid)"
    and sample_key_foreign: "\<not> own (sample_key run sid)"
begin

text \<open>The world a run lives in.\<close>

abbreviation good :: "run_id \<Rightarrow> ('s \<times> 'q) \<times> 'o \<Rightarrow> bool" where
  "good run w \<equiv> winv (fst w) \<and> oinv (snd w) \<and> sample_rows_ok (b_codec D) run (view (fst (fst w)))"

lemma winv_moved:
  assumes "winv (s, q)" "inv s'" "view s' = view s \<or> moved C run rec st (view s) (view s')"
  shows "winv (s', q)"
  using assms sample_key_foreign by (intro winv_frame[OF assms(1,2)]) (auto simp: moved_def)

lemma good_moved:
  assumes "codec_ok (b_codec D)" "good run ((s, q), ob)" "inv s'"
    and "view s' = view s \<or> moved (b_codec D) run rec st (view s) (view s')"
  shows "good run ((s', q), ob)"
proof -
  have w: "winv (s, q)" and rows: "sample_rows_ok (b_codec D) run (view s)" using assms(2) by simp_all
  from winv_moved[OF w assms(3,4)] have "winv (s', q)" .
  moreover have "sample_rows_ok (b_codec D) run (view s')"
    using assms(4) rows sample_rows_ok_moved[OF assms(1) rows] by (elim disjE) simp_all
  ultimately show ?thesis using assms(2) by simp
qed

lemma sample_cas_world:
  assumes "codec_ok (b_codec D)" "good run ((s, q), ob)"
    and "in_store (commit_if (b_storage D) (cas_sample (b_storage D) (b_codec D) run rec st)) ((s, q), ob) = (r, w)"
  shows "\<exists>s'. w = ((s', q), ob) \<and> good run w \<and> (view s' = view s \<or> moved (b_codec D) run rec st (view s) (view s'))
    \<and> (\<forall>ok. r = Inr ok \<longrightarrow> sample_row (b_codec D) run (sample_rid rec) (view s) = Some rec \<longrightarrow> ok \<and> moved (b_codec D) run rec st (view s) (view s'))
    \<and> (r = Inr True \<longrightarrow> moved (b_codec D) run rec st (view s) (view s')) \<and> (r = Inr False \<longrightarrow> view s' = view s)"
proof -
  from assms(3) obtain s' where c: "commit_if (b_storage D) (cas_sample (b_storage D) (b_codec D) run rec st) s = (r, s')"
    and w: "w = ((s', q), ob)" by (auto simp: world_calls)
  have inv: "inv s" "okk (sample_key run (sample_rid rec))" using assms(2) winv_inv sample_key_okk by auto
  note out = sample_commit_outcomes[OF inv c]
  have "good run w" unfolding w using out by (intro good_moved[OF assms(1,2), of s' rec st]) simp_all
  moreover have "ok \<and> moved (b_codec D) run rec st (view s) (view s')"
    if "r = Inr ok" "sample_row (b_codec D) run (sample_rid rec) (view s) = Some rec" for ok
    using sample_commit_current[OF inv c[unfolded that(1)]] sample_rows_lookup(3)[OF assms(1) _ that(2)] assms(2) by auto
  ultimately show ?thesis using out w by auto
qed

lemma sample_fail_world:
  assumes "codec_ok (b_codec D)" "good run ((s, q), ob)"
    and "in_store (in_txn (b_storage D) (cas_sample (b_storage D) (b_codec D) run rec st)) ((s, q), ob) = (r, w)"
  shows "\<exists>s'. w = ((s', q), ob) \<and> good run w \<and> (view s' = view s \<or> moved (b_codec D) run rec st (view s) (view s'))
    \<and> (r = Inr () \<longrightarrow> sample_row (b_codec D) run (sample_rid rec) (view s) = Some rec \<longrightarrow> moved (b_codec D) run rec st (view s) (view s'))"
proof -
  from assms(3) obtain s' where c: "in_txn (b_storage D) (cas_sample (b_storage D) (b_codec D) run rec st) s = (r, s')"
    and w: "w = ((s', q), ob)" by (auto simp: world_calls)
  have inv: "inv s" "okk (sample_key run (sample_rid rec))" using assms(2) winv_inv sample_key_okk by auto
  note out = sample_txn_outcomes[OF inv c]
  have "good run w" unfolding w using out by (intro good_moved[OF assms(1,2), of s' rec st]) simp_all
  moreover have "moved (b_codec D) run rec st (view s) (view s')"
    if "r = Inr ()" "sample_row (b_codec D) run (sample_rid rec) (view s) = Some rec"
    using out that(1) sample_rows_lookup(3)[OF assms(1) _ that(2)] assms(2) by auto
  ultimately show ?thesis using out w by auto
qed

lemma ack_world:
  assumes "good run ((s, q), ob)" "qid \<notin> fst ` set (waiting q)" "ack_with D qid out ((s, q), ob) = (r, w)"
  shows "\<exists>s' q'. w = ((s', q'), ob) \<and> good run w \<and> waiting q' = waiting q
    \<and> (\<forall>C sid. sample_row C run sid (view s') = sample_row C run sid (view s)) \<and> (\<forall>x. r = Inr x \<longrightarrow> x = out \<and> unacked (view s') qid = None)"
proof -
  obtain r1 s' q' where a: "ack_item (b_queue D) qid (s, q) = (r1, (s', q'))" by (metis prod.collapse)
  then have w: "w = ((s', q'), ob)" and r: "\<forall>x. r = Inr x \<longrightarrow> x = out \<and> r1 = Inr ()"
    using assms(3) by (auto simp: ack_with_def bindS_def on_store_def split: sum.splits)
  from ack_law[OF _ assms(2) a] assms(1) have law: "winv (s', q')" "\<forall>k. \<not> own k \<longrightarrow> view s' k = view s k" "waiting q' = waiting q"
    "r1 = Inr () \<longrightarrow> unacked (view s') qid = None" by auto
  with assms(1) w have "good run w" using sample_rows_ok_frame[of _ run "view s" "view s'"] sample_key_foreign by auto
  moreover have "sample_row C run sid (view s') = sample_row C run sid (view s)" for C sid
    using law(2) sample_key_foreign by (intro sample_row_frame) simp
  ultimately show ?thesis using w r law by auto
qed

lemma run_claimed_world:
  assumes "codec_ok (b_codec D)" "good (w_run w) ((s, q), ob)"
    and "sample_row (b_codec D) (w_run w) (sample_rid running) (view s) = Some running"
    and "run_claimed D w gen fin running ((s, q), ob) = (r, W)"
  shows "\<exists>s' ob'. W = ((s', q), ob') \<and> good (w_run w) W
    \<and> (\<forall>k. k \<noteq> sample_key (w_run w) (sample_rid running) \<longrightarrow> view s' k = view s k)
    \<and> (\<forall>i. blobs ob i \<noteq> None \<longrightarrow> blobs ob' i = blobs ob i)
    \<and> (\<forall>out. r = Inr out \<longrightarrow> (\<exists>pb st. blobs ob (prompt_blob running) = Some pb \<and> result_state D H w gen fin pb out st
         \<and> sample_row (b_codec D) (w_run w) (sample_rid running) (view s') = Some (running\<lparr>sample_st := st\<rparr>)
         \<and> (out = Completed \<longrightarrow> blobs ob' (completion_blob st) \<noteq> None)))"
proof -
  let ?run = "w_run w"
  have wf: "content_id_wf (prompt_blob running)" using sample_rows_lookup(2)[OF assms(1) _ assms(3)] assms(2) by auto
  consider (early) e where "r = Inl e" "W = ((s, q), ob)"
    | (go) pb prompt where "get_blob (b_objects D) (prompt_blob running) ob = Inr pb" "from_utf8 (b_utf8_msg D) pb = Inr prompt"
    using assms(4) by (cases "get_blob (b_objects D) (prompt_blob running) ob"; cases "from_utf8 (b_utf8_msg D) (projr (get_blob (b_objects D) (prompt_blob running) ob))")
      (auto simp: run_claimed_def bindS_def on_sink_def)
  then show ?thesis
  proof cases
    case early
    with assms(2) show ?thesis by auto
  next
    case go
    have pb: "blobs ob (prompt_blob running) = Some pb" using get_blob_law[OF _ wf go(1)] assms(2) by auto
    show ?thesis
    proof (cases "gen [prompt] (w_sampling w)")
      case (Inl e)
      obtain r1 W1 where f: "in_store (in_txn (b_storage D) (cas_sample (b_storage D) (b_codec D) ?run running (SFailed (b_show_error D e) fin))) ((s, q), ob) = (r1, W1)"
        by (metis surj_pair)
      from sample_fail_world[OF assms(1,2) f] assms(3) obtain s' where W1: "W1 = ((s', q), ob)" "good ?run W1"
        "view s' = view s \<or> moved (b_codec D) ?run running (SFailed (b_show_error D e) fin) (view s) (view s')"
        "r1 = Inr () \<longrightarrow> moved (b_codec D) ?run running (SFailed (b_show_error D e) fin) (view s) (view s')" by auto
      have "W = W1" "\<forall>out. r = Inr out \<longrightarrow> out = RFailed \<and> r1 = Inr ()"
        using assms(4) go Inl f by (auto simp: run_claimed_def sample_try_fail_def bindS_def on_sink_def split: sum.splits)
      with W1 pb go(2) Inl moved_row(2,4)[OF assms(1)] show ?thesis
        by (intro exI[of _ s'] exI[of _ ob]) (auto simp: result_state_def)
    next
      case (Inr answers)
      show ?thesis
      proof (cases answers rule: rev_cases)
        case Nil
        with assms(2,4) go Inr show ?thesis by (auto simp: run_claimed_def bindS_def on_sink_def)
      next
        case (snoc xs a)
        obtain r1 ob1 where put: "put_blob (b_objects D) (as_bytes (completion_text a)) put_hint_default ob = (r1, ob1)" by fastforce
        from put_blob_law[OF _ put] assms(2) have ob1: "oinv ob1" "\<forall>i. blobs ob i \<noteq> None \<longrightarrow> blobs ob1 i = blobs ob i"
          "\<forall>cid. r1 = Inr cid \<longrightarrow> cid = content_id_of H (as_bytes (completion_text a)) \<and> blobs ob1 cid \<noteq> None" by auto
        show ?thesis
        proof (cases r1)
          case (Inl e)
          with assms(2,4) go Inr snoc put ob1 show ?thesis by (auto simp: run_claimed_def bindS_def on_sink_def)
        next
          case blob: (Inr blob)
          obtain r2 W2 where c: "in_store (commit_if (b_storage D) (cas_sample (b_storage D) (b_codec D) ?run running (SDone blob fin))) ((s, q), ob1) = (r2, W2)"
            by (metis surj_pair)
          have "good ?run ((s, q), ob1)" using assms(2) ob1(1) by auto
          from sample_cas_world[OF assms(1) this c] obtain s' where W2: "W2 = ((s', q), ob1)" "good ?run W2"
            "view s' = view s \<or> moved (b_codec D) ?run running (SDone blob fin) (view s) (view s')"
            "r2 = Inr True \<longrightarrow> moved (b_codec D) ?run running (SDone blob fin) (view s) (view s')" by auto
          have "W = W2" "\<forall>out. r = Inr out \<longrightarrow> out = Completed \<and> r2 = Inr True"
            using assms(4) go Inr snoc put blob c
            by (auto simp: run_claimed_def sample_try_complete_def bindS_def on_sink_def split: sum.splits if_splits)
          with W2 pb go(2) Inr snoc ob1 blob moved_row(2,4)[OF assms(1)] show ?thesis
            by (intro exI[of _ s'] exI[of _ ob1]) (auto simp: result_state_def)
        qed
      qed
    qed
  qed
qed

lemma run_loaded_world:
  assumes "codec_ok (b_codec D)" "good (w_run w) ((s, q), ob)" "qid \<notin> fst ` set (waiting q)"
    and "sample_row (b_codec D) (w_run w) sid (view s) = Some rec"
    and "run_loaded D w gen now fin qid rec ((s, q), ob) = (r, W)"
  shows "\<exists>s' q' ob'. W = ((s', q'), ob') \<and> good (w_run w) W
    \<and> (\<forall>sid'. sid' \<noteq> sid \<longrightarrow> sample_row (b_codec D) (w_run w) sid' (view s') = sample_row (b_codec D) (w_run w) sid' (view s))
    \<and> (\<forall>i. blobs ob i \<noteq> None \<longrightarrow> blobs ob' i = blobs ob i)
    \<and> (\<forall>out. r = Inr out \<longrightarrow> waiting q' = waiting q \<and> unacked (view s') qid = None
         \<and> pull_spec D H w gen now fin (blobs ob) (blobs ob') (Some rec) out (sample_row (b_codec D) (w_run w) sid (view s')))"
proof -
  let ?run = "w_run w" let ?C = "b_codec D"
  have rid: "sample_rid rec = sid" using sample_rows_lookup(2)[OF assms(1) _ assms(4)] assms(2) by auto
  have acked: ?thesis if skip: "\<not> claimable now (w_stale_after_ms w) (sample_st rec)"
    and g: "good ?run ((s1, q), ob)" and v: "view s1 = view s" and a: "ack_with D qid Skipped ((s1, q), ob) = (r, W)" for s1
  proof -
    from ack_world[OF g assms(3) a] v obtain s' q' where "W = ((s', q'), ob)" "good ?run W" "waiting q' = waiting q"
      "\<forall>C sid. sample_row C ?run sid (view s') = sample_row C ?run sid (view s)" "\<forall>x. r = Inr x \<longrightarrow> x = Skipped \<and> unacked (view s') qid = None"
      by metis
    with skip assms(4) show ?thesis by (intro exI[of _ s'] exI[of _ q'] exI[of _ ob]) (simp add: pull_spec_def)
  qed
  show ?thesis
  proof (cases "claimable now (w_stale_after_ms w) (sample_st rec)")
    case False
    show ?thesis
    proof (cases "is_terminal_sample (sample_st rec)")
      case True
      with acked[OF False assms(2)] assms(5) show ?thesis by (simp add: run_loaded_def)
    next
      case live: False
      obtain r1 s1 where c: "commit_if (b_storage D) (returnS False) s = (r1, s1)" by (metis surj_pair)
      have inv: "inv s" using assms(2) winv_inv by auto
      from commit_if_outcomes[OF inv c, of "\<lambda>_. False"] have s1: "inv s1" "view s1 = view s" "r1 \<noteq> Inr True" by auto
      have g: "good ?run ((s1, q), ob)" using s1(1,2) by (intro good_moved[OF assms(1,2)]) simp_all
      have run: "bindS (in_store (commit_if (b_storage D) (returnS False))) (\<lambda>claimed. if \<not> claimed then ack_with D qid Skipped
          else bindS (run_claimed D w gen fin (rec\<lparr>sample_st := SRunning (w_id w) now\<rparr>)) (\<lambda>out. ack_with D qid out)) ((s, q), ob) = (r, W)"
        using assms(5) False live by (simp add: run_loaded_def sample_try_claim_def)
      then show ?thesis
      proof (cases rule: bindS_cases)
        case (1 e)
        then have "W = ((s1, q), ob)" using c by (simp add: world_calls)
        with g 1(2) s1(2) show ?thesis by auto
      next
        case (2 claimed W1)
        then have "W1 = ((s1, q), ob)" "\<not> claimed" using c s1(3) by (auto simp: world_calls)
        with 2(2) acked[OF False g s1(2)] show ?thesis by simp
      qed
    qed
  next
    case True
    let ?running = "rec\<lparr>sample_st := SRunning (w_id w) now\<rparr>"
    have live: "\<not> is_terminal_sample (sample_st rec)" using True terminal_not_claimable by blast
    have run: "bindS (in_store (commit_if (b_storage D) (cas_sample (b_storage D) ?C ?run rec (SRunning (w_id w) now)))) (\<lambda>claimed.
        if \<not> claimed then ack_with D qid Skipped
        else bindS (run_claimed D w gen fin ?running) (\<lambda>out. ack_with D qid out)) ((s, q), ob) = (r, W)"
      using assms(5) True live by (simp add: run_loaded_def sample_try_claim_def)
    then show ?thesis
    proof (cases rule: bindS_cases)
      case (1 e)
      from sample_cas_world[OF assms(1,2) 1(1)] obtain s1 where "W = ((s1, q), ob)" "good ?run W"
        "view s1 = view s \<or> moved ?C ?run rec (SRunning (w_id w) now) (view s) (view s1)" by auto
      with 1(2) moved_row(3)[OF assms(1)] rid show ?thesis by (intro exI[of _ s1] exI[of _ q] exI[of _ ob]) auto
    next
      case (2 claimed W1)
      from sample_cas_world[OF assms(1,2) 2(1)] assms(4) rid obtain s1 where W1: "W1 = ((s1, q), ob)" "good ?run W1"
        and mv: "moved ?C ?run rec (SRunning (w_id w) now) (view s) (view s1)" and won: claimed by auto
      note rows = moved_row(1-3)[OF assms(1) mv, unfolded rid]
      from 2(2) won have run: "bindS (run_claimed D w gen fin ?running) (\<lambda>out. ack_with D qid out) ((s1, q), ob) = (r, W)" by (simp add: W1)
      then show ?thesis
      proof (cases rule: bindS_cases)
        case (1 e)
        from run_claimed_world[OF assms(1) W1(2)[unfolded W1(1)] _ 1(1)] rows(2) rid obtain s2 ob2 where "W = ((s2, q), ob2)" "good ?run W"
          "\<forall>k. k \<noteq> sample_key ?run sid \<longrightarrow> view s2 k = view s1 k" "\<forall>i. blobs ob i \<noteq> None \<longrightarrow> blobs ob2 i = blobs ob i" by auto
        moreover from this(3) rows(3) have "sid' \<noteq> sid \<longrightarrow> sample_row ?C ?run sid' (view s2) = sample_row ?C ?run sid' (view s)" for sid'
          using sample_row_frame[of "view s2" ?run sid' "view s1" ?C] by simp
        ultimately show ?thesis using 1(2) by (intro exI[of _ s2] exI[of _ q] exI[of _ ob2] conjI allI impI) simp_all
      next
        case (2 out W2)
        from run_claimed_world[OF assms(1) W1(2)[unfolded W1(1)] _ 2(1)] rows(2) rid obtain s2 ob2 pb st where W2: "W2 = ((s2, q), ob2)" "good ?run W2"
          and frame: "\<forall>k. k \<noteq> sample_key ?run sid \<longrightarrow> view s2 k = view s1 k" "\<forall>i. blobs ob i \<noteq> None \<longrightarrow> blobs ob2 i = blobs ob i"
          and res: "blobs ob (prompt_blob rec) = Some pb" "result_state D H w gen fin pb out st"
            "sample_row ?C ?run sid (view s2) = Some (rec\<lparr>sample_st := st\<rparr>)" "out = Completed \<longrightarrow> blobs ob2 (completion_blob st) \<noteq> None" by auto
        have rest: "sample_row ?C ?run sid' (view s2) = sample_row ?C ?run sid' (view s)" if "sid' \<noteq> sid" for sid'
          using rows(3)[OF that] sample_row_frame[of "view s2" ?run sid' "view s1" ?C] frame(1) that by simp
        from ack_world[OF W2(2)[unfolded W2(1)] assms(3) 2(2)[unfolded W2(1)]] obtain s' q' where "W = ((s', q'), ob2)" "good ?run W"
          "waiting q' = waiting q" "\<forall>C sid. sample_row C ?run sid (view s') = sample_row C ?run sid (view s2)"
          "\<forall>x. r = Inr x \<longrightarrow> x = out \<and> unacked (view s') qid = None" by metis
        moreover have "pull_spec D H w gen now fin (blobs ob) (blobs ob2) (Some rec) out (sample_row ?C ?run sid (view s2))"
          using res True by (auto simp: pull_spec_def)
        ultimately show ?thesis using rest frame(2)
          by (intro exI[of _ s'] exI[of _ q'] exI[of _ ob2] conjI allI impI) simp_all
      qed
    qed
  qed
qed

lemma run_one_world:
  assumes "codec_ok (b_codec D)" "good (w_run w) ((s, q), ob)" "run_one D w gen now fin ((s, q), ob) = (r, W)"
  shows "\<exists>s' q' ob'. W = ((s', q'), ob') \<and> good (w_run w) W
    \<and> (\<forall>i. blobs ob i \<noteq> None \<longrightarrow> blobs ob' i = blobs ob i)
    \<and> (r = Inr Drained \<longrightarrow> waiting q = [] \<and> waiting q' = [] \<and> view s' = view s)
    \<and> (\<forall>out. r = Inr out \<longrightarrow> out \<noteq> Drained \<longrightarrow> (\<exists>qid p sid. waiting q = (qid, p) # waiting q' \<and> unacked (view s') qid = None
         \<and> parse_sample_id (b_utf8_msg D) p = Inr sid
         \<and> (\<forall>sid'. sid' \<noteq> sid \<longrightarrow> sample_row (b_codec D) (w_run w) sid' (view s') = sample_row (b_codec D) (w_run w) sid' (view s))
         \<and> pull_spec D H w gen now fin (blobs ob) (blobs ob') (sample_row (b_codec D) (w_run w) sid (view s)) out
             (sample_row (b_codec D) (w_run w) sid (view s'))))"
proof -
  let ?run = "w_run w" let ?C = "b_codec D"
  obtain r1 s1 q1 where d: "dequeue_item (b_queue D) (s, q) = (r1, (s1, q1))" by (metis prod.collapse)
  from dequeue_law[OF _ d] assms(2) have law: "winv (s1, q1)" "view s1 = view s" by auto
  then have g: "good ?run ((s1, q1), ob)" using assms(2) by simp
  have idle: "waiting q = [] \<and> waiting q1 = []" if "r1 = Inr None" using dequeue_law[OF _ d] assms(2) that by auto
  consider (early) e where "r = Inl e" "W = ((s1, q1), ob)" | (empty) "r = Inr Drained" "r1 = Inr None" "W = ((s1, q1), ob)"
    | (item) qid p sid stored where "r1 = Inr (Some (qid, p))" "parse_sample_id (b_utf8_msg D) p = Inr sid"
        "get_bytes (b_storage D) (sample_key ?run sid) s1 = Inr stored"
        "(case stored of None \<Rightarrow> ack_with D qid Skipped | Some b \<Rightarrow> bindS (liftE (decode_sample ?C b)) (\<lambda>rec. run_loaded D w gen now fin qid rec)) ((s1, q1), ob) = (r, W)"
    using assms(3) d by (auto simp: run_one_def bindS_def on_store_def split: sum.splits option.splits prod.splits)
  then show ?thesis
  proof cases
    case early
    with g show ?thesis by auto
  next
    case empty
    with g idle law(2) show ?thesis by auto
  next
    case item
    have q: "waiting q = (qid, p) # waiting q1" "qid \<notin> fst ` set (waiting q1)"
      using dequeue_law[OF _ d] item(1) dequeued_in_flight[OF _ d[unfolded item(1)]] assms(2) by auto
    have st: "stored = view s (sample_key ?run sid)"
      using get_law[OF winv_inv[OF law(1)] sample_key_okk[OF law(1)] item(3)] law(2) by simp
    show ?thesis
    proof (cases stored)
      case None
      then have none: "sample_row ?C ?run sid (view s) = None" using st by (simp add: sample_row_def)
      from None item(4) have "ack_with D qid Skipped ((s1, q1), ob) = (r, W)" by simp
      from ack_world[OF g q(2) this, unfolded law(2)] obtain s' q' where "W = ((s', q'), ob)" "good ?run W" "waiting q' = waiting q1"
        "\<forall>C sid. sample_row C ?run sid (view s') = sample_row C ?run sid (view s)" "\<forall>x. r = Inr x \<longrightarrow> x = Skipped \<and> unacked (view s') qid = None"
        by blast
      with q(1) item(2) none show ?thesis by (intro exI[of _ s'] exI[of _ q'] exI[of _ ob]) (auto simp: pull_spec_def)
    next
      case (Some b)
      with st sample_rows_lookup(1)[OF assms(1)] assms(2) obtain rec where rec: "sample_row ?C ?run sid (view s) = Some rec" "encode ?C rec = Inr b"
        by (metis fst_conv)
      then have "run_loaded D w gen now fin qid rec ((s1, q1), ob) = (r, W)"
        using item(4) Some codec_okD[OF assms(1)] by (simp add: decode_sample_def bindS_def)
      from run_loaded_world[OF assms(1) g q(2) _ this, unfolded law(2), OF rec(1)]
      obtain s' q' ob' where W: "W = ((s', q'), ob')" "good ?run W" "\<forall>i. blobs ob i \<noteq> None \<longrightarrow> blobs ob' i = blobs ob i"
        and rest: "\<forall>sid'. sid' \<noteq> sid \<longrightarrow> sample_row ?C ?run sid' (view s') = sample_row ?C ?run sid' (view s)"
        and out: "\<forall>out. r = Inr out \<longrightarrow> waiting q' = waiting q1 \<and> unacked (view s') qid = None
          \<and> pull_spec D H w gen now fin (blobs ob) (blobs ob') (Some rec) out (sample_row ?C ?run sid (view s'))" by blast
      have "r \<noteq> Inr Drained" using out pull_spec_not_drained by metis
      with W rest out q(1) item(2) rec(1) show ?thesis
        by (intro exI[of _ s'] exI[of _ q'] exI[of _ ob'] conjI allI impI exI[of _ qid] exI[of _ p] exI[of _ sid]) simp_all
    qed
  qed
qed

text \<open>The pull loop takes one item off the queue per iteration.\<close>

lemma run_loop_returns:
  assumes "codec_ok (b_codec D)" "good (w_run w) ((s, q), ob)" "length (waiting q) < fuel"
  shows "\<exists>r s' q' ob'. run_loop D w gen stopped clock fuel i n ((s, q), ob) = Some (r, ((s', q'), ob')) \<and> good (w_run w) ((s', q'), ob')
    \<and> (\<forall>m. r = Inr m \<longrightarrow> (\<forall>j. \<not> stopped j) \<longrightarrow> waiting q' = [] \<and> drains D (w_run w) (waiting q) (view s) (view s'))"
  using assms(2,3)
proof (induction fuel arbitrary: i n s q ob)
  case (Suc fuel)
  let ?row = "sample_row (b_codec D) (w_run w)"
  obtain r W where one: "run_one D w gen (fst (clock i)) (snd (clock i)) ((s, q), ob) = (r, W)" by (metis surj_pair)
  from run_one_world[OF assms(1) Suc.prems(1) one] obtain s1 q1 ob1 where W: "W = ((s1, q1), ob1)" "good (w_run w) W"
    and dr: "r = Inr Drained \<longrightarrow> waiting q = [] \<and> waiting q1 = [] \<and> view s1 = view s"
    and it: "\<forall>out. r = Inr out \<longrightarrow> out \<noteq> Drained \<longrightarrow> (\<exists>qid p sid. waiting q = (qid, p) # waiting q1 \<and> unacked (view s1) qid = None
         \<and> parse_sample_id (b_utf8_msg D) p = Inr sid \<and> (\<forall>sid'. sid' \<noteq> sid \<longrightarrow> ?row sid' (view s1) = ?row sid' (view s))
         \<and> pull_spec D H w gen (fst (clock i)) (snd (clock i)) (blobs ob) (blobs ob1) (?row sid (view s)) out (?row sid (view s1)))"
    by blast
  consider (stop) "stopped i" | (err) e where "\<not> stopped i" "r = Inl e" | (drained) "\<not> stopped i" "r = Inr Drained"
    | (more) out m where "\<not> stopped i" "r = Inr out" "out \<noteq> Drained"
        "run_loop D w gen stopped clock (Suc fuel) i n ((s, q), ob) = run_loop D w gen stopped clock fuel (Suc i) m W"
    using one by (cases r; cases "projr r") (auto split: run_outcome.splits)
  then show ?case
  proof cases
    case stop
    with Suc.prems(1) show ?thesis by auto
  next
    case err
    with one W show ?thesis by simp
  next
    case drained
    with one W dr show ?thesis by (simp add: drains_def)
  next
    case more
    from it more(2,3) obtain qid p sid where p: "waiting q = (qid, p) # waiting q1" "parse_sample_id (b_utf8_msg D) p = Inr sid"
      "\<forall>sid'. sid' \<noteq> sid \<longrightarrow> ?row sid' (view s1) = ?row sid' (view s)"
      "pull_spec D H w gen (fst (clock i)) (snd (clock i)) (blobs ob) (blobs ob1) (?row sid (view s)) out (?row sid (view s1))" by blast
    have "length (waiting q1) < fuel" using p(1) Suc.prems(2) by simp
    from Suc.IH[OF W(2)[unfolded W(1)] this, of "Suc i" m] drains_step[OF _ p(2-4), of "waiting q1" _ qid] p(1) more(4) W(1)
    show ?thesis by fastforce
  qed
qed simp

lemma enqueue_world:
  assumes "good run ((s, q), ob)" "enqueue_sample D sid ((s, q), ob) = (r, W)"
  shows "\<exists>s' q'. W = ((s', q'), ob) \<and> good run W \<and> (\<forall>C sid. sample_row C run sid (view s') = sample_row C run sid (view s))
    \<and> (\<forall>b. r = Inr b \<longrightarrow> b \<and> (\<exists>qid. waiting q' = waiting q @ [(qid, as_bytes (content_id_to_string sid))]))"
proof -
  obtain r1 s' q' where e: "enqueue_item (b_queue D) (as_bytes (content_id_to_string sid)) (s, q) = (r1, (s', q'))" by (metis prod.collapse)
  then have W: "W = ((s', q'), ob)" and r: "\<forall>b. r = Inr b \<longrightarrow> b \<and> (\<exists>qid. r1 = Inr qid)"
    using assms(2) by (auto simp: enqueue_sample_def bindS_def on_store_def split: sum.splits)
  from enqueue_law[OF _ e] assms(1) have law: "winv (s', q')" "\<forall>k. \<not> own k \<longrightarrow> view s' k = view s k"
    "\<forall>qid. r1 = Inr qid \<longrightarrow> waiting q' = waiting q @ [(qid, as_bytes (content_id_to_string sid))]" by auto
  have "sample_row C run i (view s') = sample_row C run i (view s)" for C i
    using law(2) sample_key_foreign by (intro sample_row_frame) simp
  moreover have "good run W" using assms(1) W law sample_rows_ok_frame[of _ run "view s" "view s'"] sample_key_foreign by auto
  ultimately show ?thesis using W r law(3) by auto
qed

text \<open>What every step of planning leaves behind, and what it means that it succeeded.\<close>

abbreviation scan_kept :: "run_id \<Rightarrow> ('s \<times> 'q) \<times> 'o \<Rightarrow> ('s \<times> 'q) \<times> 'o \<Rightarrow> bool" where
  "scan_kept run w w' \<equiv> good run w' \<and> keeps_terminal (b_codec D) run (view (fst (fst w))) (view (fst (fst w')))
     \<and> (\<forall>i. blobs (snd w) i \<noteq> None \<longrightarrow> blobs (snd w') i = blobs (snd w) i)"

abbreviation scan_added :: "run_id \<Rightarrow> content_id \<Rightarrow> bool \<Rightarrow> ('s \<times> 'q) \<times> 'o \<Rightarrow> ('s \<times> 'q) \<times> 'o \<Rightarrow> bool" where
  "scan_added run sid b w w' \<equiv> (\<exists>L. length L = (if b then 1 else 0) \<and> waiting (snd (fst w')) = waiting (snd (fst w)) @ L
     \<and> replans (b_codec D) run L (view (fst (fst w))) (view (fst (fst w'))) \<and> planned (b_codec D) run L (view (fst (fst w'))) sid)"

lemma enqueue_scan:
  assumes "good run w1" "enqueue_sample D sid w1 = (r, W)" "scan_kept run w w1" "waiting (snd (fst w1)) = waiting (snd (fst w))"
    and "\<And>L. as_bytes (content_id_to_string sid) \<in> snd ` set L \<Longrightarrow> replans (b_codec D) run L (view (fst (fst w))) (view (fst (fst w1)))"
    and "sample_row (b_codec D) run sid (view (fst (fst w1))) = Some rec"
  shows "scan_kept run w W \<and> (\<forall>b. r = Inr b \<longrightarrow> scan_added run sid b w W)"
proof -
  obtain s1 q1 ob where w1: "w1 = ((s1, q1), ob)" by (metis prod.collapse)
  from enqueue_world[OF assms(1,2)[unfolded w1]] obtain s' q' where W: "W = ((s', q'), ob)" "good run W"
    and rows: "\<And>C i. sample_row C run i (view s') = sample_row C run i (view s1)"
    and r: "\<forall>b. r = Inr b \<longrightarrow> b \<and> (\<exists>qid. waiting q' = waiting q1 @ [(qid, as_bytes (content_id_to_string sid))])" by blast
  have kept: "scan_kept run w W" using assms(3) W rows by (simp add: w1 keeps_terminal_def)
  have "scan_added run sid b w W" if "r = Inr b" for b
  proof -
    from r that obtain qid where b: b and q': "waiting q' = waiting q1 @ [(qid, as_bytes (content_id_to_string sid))]" by blast
    let ?L = "[(qid, as_bytes (content_id_to_string sid))]"
    have "replans (b_codec D) run ?L (view (fst (fst w))) (view s')" using assms(5)[of ?L] rows by (simp add: w1 replans_def)
    moreover have "planned (b_codec D) run ?L (view s') sid" using assms(6) rows by (simp add: w1 planned_def)
    ultimately show ?thesis using b q' assms(4) by (intro exI[of _ ?L]) (simp add: W(1) w1)
  qed
  with kept show ?thesis by blast
qed

lemma scan_new_world:
  assumes "codec_ok (b_codec D)" "good run ((s, q), ob)" "view s (sample_key run sid) = None"
    and "scan_new D run now item sid ((s, q), ob) = (r, W)"
  shows "scan_kept run ((s, q), ob) W \<and> (\<forall>b. r = Inr b \<longrightarrow> scan_added run sid b ((s, q), ob) W)"
proof -
  obtain r1 ob1 where put: "put_blob (b_objects D) (as_bytes (item_prompt item)) put_hint_default ob = (r1, ob1)" by (metis surj_pair)
  from put_blob_law[OF _ put] assms(2) have ob1: "oinv ob1" "\<forall>i. blobs ob i \<noteq> None \<longrightarrow> blobs ob1 i = blobs ob i"
    "\<forall>cid. r1 = Inr cid \<longrightarrow> content_id_wf cid" by auto
  let ?rec = "\<lambda>blob. \<lparr>sample_rid = sid, prompt_blob = blob, sample_st = SPending, created_at_ms = now, input_idx = item_idx item\<rparr>"
  have same: "scan_kept run ((s, q), ob) ((s, q), ob1)" using assms(2) ob1 by (simp add: keeps_terminal_def)
  consider (early) e where "r = Inl e" "W = ((s, q), ob1)"
    | (row) blob b where "r1 = Inr blob" "encode (b_codec D) (?rec blob) = Inr b"
        "bindS (in_store (in_txn (b_storage D) (put_bytes (b_storage D) (sample_key run sid) b))) (\<lambda>_. enqueue_sample D sid) ((s, q), ob1) = (r, W)"
    using assms(4) put by (cases r1; cases "encode (b_codec D) (?rec (projr r1))") (auto simp: scan_new_def encode_sample_def bindS_def on_sink_def)
  then show ?thesis
  proof cases
    case early
    with same show ?thesis by simp
  next
    case row
    obtain r2 s2 where p: "in_txn (b_storage D) (put_bytes (b_storage D) (sample_key run sid) b) s = (r2, s2)" by (metis surj_pair)
    have inv: "inv s" "okk (sample_key run sid)" using assms(2) winv_inv sample_key_okk by auto
    from put_txn_outcomes[OF inv p] have s2: "inv s2" "view s2 = view s \<or> view s2 = (view s)(sample_key run sid \<mapsto> b)"
      "r2 = Inr () \<longrightarrow> view s2 = (view s)(sample_key run sid \<mapsto> b)" by auto
    have rows: "sample_rows_ok (b_codec D) run (view s2)"
      using s2(2) assms(2) sample_rows_ok_put[OF _ row(2)] ob1(3) row(1) by auto
    have w: "winv (s, q)" using assms(2) by simp
    have "winv (s2, q)" using s2(2) sample_key_foreign by (intro winv_frame[OF w s2(1)]) auto
    then have g2: "good run ((s2, q), ob1)" using rows ob1(1) by simp
    have rest: "sample_row (b_codec D) run i (view s) \<noteq> None \<Longrightarrow> sample_row (b_codec D) run i (view s2) = sample_row (b_codec D) run i (view s)" for i
      using s2(2) assms(3) by (cases "i = sid") (auto simp: sample_row_def)
    have kept2: "scan_kept run ((s, q), ob) ((s2, q), ob1)" using g2 ob1(2) keeps_terminal_same[OF rest] by simp
    from row(3) show ?thesis
    proof (cases rule: bindS_cases)
      case (1 e)
      then have "W = ((s2, q), ob1)" using p by (simp add: world_calls)
      with kept2 1(2) show ?thesis by simp
    next
      case (2 u W1)
      then have W1: "W1 = ((s2, q), ob1)" "r2 = Inr ()" using p by (auto simp: world_calls)
      have "sample_row (b_codec D) run sid (view s2) = Some (?rec blob)"
        using s2(3) W1(2) codec_okD[OF assms(1) row(2)] by (simp add: sample_row_def)
      from enqueue_scan[OF g2 2(2)[unfolded W1(1)] kept2 _ _ ] this replans_same[OF rest] show ?thesis by simp
    qed
  qed
qed

lemma scan_old_world:
  assumes "codec_ok (b_codec D)" "good run w" "sample_row (b_codec D) run sid (view (fst (fst w))) = Some rec"
    and "scan_old D run stale now sid rec w = (r, W)"
  shows "scan_kept run w W \<and> (\<forall>b. r = Inr b \<longrightarrow> scan_added run sid b w W)"
proof -
  obtain s q ob where w: "w = ((s, q), ob)" by (metis prod.collapse)
  have rid: "sample_rid rec = sid" using sample_rows_lookup(2)[OF assms(1) _ assms(3)] assms(2) by auto
  have kept: "scan_kept run w w" using assms(2) by (simp add: keeps_terminal_def)
  have same: "replans (b_codec D) run L v v" for L v by (rule replans_same) simp
  have stay: ?thesis if "r = Inr False" "W = w" "is_sdone (sample_st rec) \<or> is_srunning (sample_st rec)"
    using that kept same[of "[]"] assms(3) by (auto simp: planned_def)
  have enq: ?thesis if "enqueue_sample D sid w = (r, W)"
    using enqueue_scan[OF assms(2) that kept _ same assms(3)] by simp
  show ?thesis
  proof (cases "sample_st rec")
    case SPending
    with enq assms(4) show ?thesis by (simp add: scan_old_def)
  next
    case (SDone blob n)
    with assms(4) have "r = Inr False" "W = w" by (simp_all add: scan_old_def)
    with stay SDone show ?thesis by (simp add: is_sdone_def)
  next
    case (SFailed e n)
    with enq assms(4) show ?thesis by (simp add: scan_old_def)
  next
    case (SRunning w0 started)
    then have live: "is_srunning (sample_st rec)" "\<not> is_terminal_sample (sample_st rec)" by (simp_all add: is_srunning_def is_terminal_sample_def)
    show ?thesis
    proof (cases "saturating_sub now started > stale")
      case False
      with SRunning assms(4) have "r = Inr False" "W = w" by (simp_all add: scan_old_def)
      with stay live show ?thesis by simp
    next
      case True
      then have "bindS (in_store (commit_if (b_storage D) (cas_sample (b_storage D) (b_codec D) run rec SPending))) (\<lambda>applied.
          if applied then enqueue_sample D sid else returnS False) w = (r, W)"
        using SRunning assms(4) by (simp add: scan_old_def sample_try_repending_def)
      then show ?thesis
      proof (cases rule: bindS_cases)
        case (1 e)
        from sample_cas_world[OF assms(1) assms(2)[unfolded w] 1(1)[unfolded w]] obtain s1 where W: "W = ((s1, q), ob)" "good run W"
          "view s1 = view s \<or> moved (b_codec D) run rec SPending (view s) (view s1)" by auto
        have "keeps_terminal (b_codec D) run (view s) (view s1)"
          using W(3) keeps_terminal_moved[OF assms(1) _ live(2)] by (elim disjE) (simp_all add: keeps_terminal_def)
        with W 1(2) show ?thesis by (simp add: w)
      next
        case (2 applied W1)
        from sample_cas_world[OF assms(1) assms(2)[unfolded w] 2(1)[unfolded w]] assms(3) rid obtain s1 where W1: "W1 = ((s1, q), ob)" "good run W1"
          and mv: "moved (b_codec D) run rec SPending (view s) (view s1)" and applied by (auto simp: w)
        note rows = moved_row(1-3)[OF assms(1) mv, unfolded rid]
        have k: "keeps_terminal (b_codec D) run (view s) (view s1)" by (rule keeps_terminal_moved[OF assms(1) mv live(2)])
        have rp: "replans (b_codec D) run L (view s) (view s1)" if "as_bytes (content_id_to_string sid) \<in> snd ` set L" for L
          unfolding replans_def using rows live(1) that by (metis option.inject)
        have "scan_kept run w W1" using W1 k by (simp add: w)
        from enqueue_scan[OF W1(2) _ this] 2(2) \<open>applied\<close> rp rows(2) show ?thesis by (simp add: w W1(1))
      qed
    qed
  qed
qed

lemma scan_item_world:
  assumes "codec_ok (b_codec D)" "good run w" "scan_item D run stale now model sampling item w = (r, W)"
  shows "scan_kept run w W \<and> (\<forall>b. r = Inr b \<longrightarrow>
    (\<exists>sid. sample_id (b_hash D) (b_params D) model (item_prompt item) sampling (item_idx item) = Inr sid \<and> scan_added run sid b w W))"
proof -
  obtain s q ob where w: "w = ((s, q), ob)" by (metis prod.collapse)
  have kept: "scan_kept run w w" using assms(2) by (simp add: keeps_terminal_def)
  consider (early) e where "r = Inl e" "W = w"
    | (go) sid stored where "sample_id (b_hash D) (b_params D) model (item_prompt item) sampling (item_idx item) = Inr sid"
        "get_bytes (b_storage D) (sample_key run sid) s = Inr stored"
        "(case stored of None \<Rightarrow> scan_new D run now item sid
          | Some b \<Rightarrow> bindS (liftE (decode_sample (b_codec D) b)) (\<lambda>rec. scan_old D run stale now sid rec)) w = (r, W)"
    using assms(3) by (auto simp: scan_item_def bindS_def on_store_def w split: sum.splits)
  then show ?thesis
  proof cases
    case early
    with kept show ?thesis by simp
  next
    case go
    have winv: "winv (s, q)" using assms(2) w by simp
    have st: "stored = view s (sample_key run sid)" by (rule get_law[OF winv_inv[OF winv] sample_key_okk[OF winv] go(2)])
    show ?thesis
    proof (cases stored)
      case None
      with go st scan_new_world[OF assms(1) assms(2)[unfolded w], of sid now item r W] show ?thesis by (simp add: w)
    next
      case (Some b)
      with st sample_rows_lookup(1)[OF assms(1)] assms(2) obtain rec where rec: "sample_row (b_codec D) run sid (view s) = Some rec"
        "encode (b_codec D) rec = Inr b" unfolding w by (metis fst_conv)
      then have "scan_old D run stale now sid rec w = (r, W)"
        using go(3) Some codec_okD[OF assms(1)] by (simp add: decode_sample_def bindS_def)
      from scan_old_world[OF assms(1,2) _ this] rec(1) go(1) show ?thesis by (simp add: w)
    qed
  qed
qed

lemma scan_items_world:
  assumes "codec_ok (b_codec D)" "good run w" "scan_items D run stale now model sampling items n w = (r, W)"
  shows "scan_kept run w W \<and> (\<forall>m. r = Inr m \<longrightarrow> (\<exists>L. m = n + length L \<and> waiting (snd (fst W)) = waiting (snd (fst w)) @ L
    \<and> replans (b_codec D) run L (view (fst (fst w))) (view (fst (fst W)))
    \<and> (\<forall>item \<in> set items. \<exists>sid. sample_id (b_hash D) (b_params D) model (item_prompt item) sampling (item_idx item) = Inr sid
          \<and> planned (b_codec D) run L (view (fst (fst W))) sid)))"
  using assms(2,3)
proof (induction items arbitrary: w n)
  case Nil
  then have "r = Inr n" "W = w" by simp_all
  with Nil.prems(1) show ?case using replans_same[of "b_codec D" run "view (fst (fst w))"] by (auto simp: keeps_terminal_def)
next
  case (Cons item items)
  from Cons.prems(2) have "bindS (scan_item D run stale now model sampling item)
      (\<lambda>added. scan_items D run stale now model sampling items (if added then n + 1 else n)) w = (r, W)" by simp
  then show ?case
  proof (cases rule: bindS_cases)
    case (1 e)
    with scan_item_world[OF assms(1) Cons.prems(1) 1(1)] show ?thesis by simp
  next
    case (2 b w1)
    from scan_item_world[OF assms(1) Cons.prems(1) 2(1)] obtain sid L1 where k1: "scan_kept run w w1"
      and sid: "sample_id (b_hash D) (b_params D) model (item_prompt item) sampling (item_idx item) = Inr sid"
      and L1: "length L1 = (if b then 1 else 0)" "waiting (snd (fst w1)) = waiting (snd (fst w)) @ L1"
        "replans (b_codec D) run L1 (view (fst (fst w))) (view (fst (fst w1)))" "planned (b_codec D) run L1 (view (fst (fst w1))) sid" by blast
    from Cons.IH[OF _ 2(2)] k1 have k2: "scan_kept run w1 W"
      and ok: "\<forall>m. r = Inr m \<longrightarrow> (\<exists>L. m = (if b then n + 1 else n) + length L \<and> waiting (snd (fst W)) = waiting (snd (fst w1)) @ L
        \<and> replans (b_codec D) run L (view (fst (fst w1))) (view (fst (fst W)))
        \<and> (\<forall>item \<in> set items. \<exists>sid. sample_id (b_hash D) (b_params D) model (item_prompt item) sampling (item_idx item) = Inr sid
              \<and> planned (b_codec D) run L (view (fst (fst W))) sid))" by blast+
    have kept: "scan_kept run w W" using k1 k2 keeps_terminal_trans by auto
    have "\<exists>L. m = n + length L \<and> waiting (snd (fst W)) = waiting (snd (fst w)) @ L
        \<and> replans (b_codec D) run L (view (fst (fst w))) (view (fst (fst W)))
        \<and> (\<forall>x \<in> set (item # items). \<exists>sid. sample_id (b_hash D) (b_params D) model (item_prompt x) sampling (item_idx x) = Inr sid
              \<and> planned (b_codec D) run L (view (fst (fst W))) sid)" if "r = Inr m" for m
    proof -
      from ok that obtain L2 where L2: "m = (if b then n + 1 else n) + length L2" "waiting (snd (fst W)) = waiting (snd (fst w1)) @ L2"
        "replans (b_codec D) run L2 (view (fst (fst w1))) (view (fst (fst W)))"
        "\<forall>item \<in> set items. \<exists>sid. sample_id (b_hash D) (b_params D) model (item_prompt item) sampling (item_idx item) = Inr sid
              \<and> planned (b_codec D) run L2 (view (fst (fst W))) sid" by blast
      show ?thesis
      proof (intro exI[of _ "L1 @ L2"] conjI ballI)
        show "m = n + length (L1 @ L2)" using L1(1) L2(1) by simp
        show "waiting (snd (fst W)) = waiting (snd (fst w)) @ L1 @ L2" using L1(2) L2(2) by simp
        show "replans (b_codec D) run (L1 @ L2) (view (fst (fst w))) (view (fst (fst W)))" by (rule replans_trans[OF L1(3) L2(3)])
        fix x assume "x \<in> set (item # items)"
        then show "\<exists>sid. sample_id (b_hash D) (b_params D) model (item_prompt x) sampling (item_idx x) = Inr sid
              \<and> planned (b_codec D) run (L1 @ L2) (view (fst (fst W))) sid"
          using sid planned_later[OF L1(4) L2(3)] L2(4) planned_more by fastforce
      qed
    qed
    with kept show ?thesis by blast
  qed
qed

lemma collect_done_world:
  assumes "codec_ok (b_codec D)" "inv s" "sample_rows_ok (b_codec D) run (view s)"
    and "\<And>k. key_has_prefix k (range_prefix (sample_range run)) \<Longrightarrow> view s k \<noteq> None \<Longrightarrow> \<exists>sid. k = sample_key run sid"
    and "collect_done_records D run s = Inr recs"
  shows "sorted (map input_idx recs) \<and> distinct (map sample_rid recs)
    \<and> set recs = {rec. \<exists>sid. sample_row (b_codec D) run sid (view s) = Some rec \<and> is_sdone (sample_st rec)}"
proof -
  let ?C = "b_codec D" let ?f = "\<lambda>e. decode_sample ?C (snd e)"
  obtain entries recs0 where scan: "scan_bytes (b_storage D) (sample_range run) s = Inr entries" and col: "collectE ?f entries = Inr recs0"
    and recs: "recs = sort_key input_idx (filter (\<lambda>rec. is_sdone (sample_st rec)) recs0)"
    using assms(5) by (auto simp: collect_done_records_def comp_iff)
  have rows: "distinct (map fst entries)" "set entries = {(k, v). view s k = Some v \<and> key_has_prefix k (range_prefix (sample_range run))}"
    using scan_rows[OF assms(2) scan[unfolded sample_range_def]] by (auto simp: sample_range_def)
  have entry: "\<exists>rec. ?f e = Inr rec \<and> fst e = sample_key run (sample_rid rec) \<and> sample_row ?C run (sample_rid rec) (view s) = Some rec" if "e \<in> set entries" for e
  proof -
    from that rows(2) have v: "view s (fst e) = Some (snd e)" "key_has_prefix (fst e) (range_prefix (sample_range run))" by auto
    with assms(4) obtain sid where sid: "fst e = sample_key run sid" by blast
    with v(1) sample_rows_lookup(1)[OF assms(1,3)] obtain rec where "sample_row ?C run sid (view s) = Some rec" "encode ?C rec = Inr (snd e)" by metis
    with sid sample_rows_lookup(2)[OF assms(1,3)] codec_okD[OF assms(1)] show ?thesis by (auto simp: decode_sample_def)
  qed
  from collectE_map[OF col] have recs0: "recs0 = map (projr \<circ> ?f) entries" by simp
  have keys: "map (sample_key run \<circ> sample_rid) recs0 = map fst entries" unfolding recs0 using entry by fastforce
  then have "distinct (map sample_rid recs0)" using rows(1) by (metis distinct_map list.map_comp)
  moreover have "set recs0 = {rec. \<exists>sid. sample_row ?C run sid (view s) = Some rec}"
  proof (intro equalityI subsetI)
    fix rec assume "rec \<in> set recs0"
    with entry show "rec \<in> {rec. \<exists>sid. sample_row ?C run sid (view s) = Some rec}" unfolding recs0 by fastforce
  next
    fix rec assume "rec \<in> {rec. \<exists>sid. sample_row ?C run sid (view s) = Some rec}"
    then obtain sid b where b: "view s (sample_key run sid) = Some b" "encode ?C rec = Inr b" using sample_rows_lookup(3)[OF assms(1,3)] by blast
    then have "(sample_key run sid, b) \<in> set entries" unfolding rows(2) by (auto simp: sample_range_def sample_key_def key_has_prefix_def)
    with b(2) codec_okD[OF assms(1)] show "rec \<in> set recs0" unfolding recs0 by (force simp: decode_sample_def image_iff)
  qed
  ultimately show ?thesis unfolding recs by (auto simp: distinct_map intro: inj_on_subset)
qed

end

section \<open>The local runtime\<close>

text \<open>The three local backends, as the command line wires them.\<close>

definition local_deps :: "redb \<Rightarrow> key_codec \<Rightarrow> 'g queue_crate \<Rightarrow> fs_object_store \<Rightarrow> sample_record codec \<Rightarrow> sampling_params codec
    \<Rightarrow> (bytes \<Rightarrow> string) \<Rightarrow> (core_error \<Rightarrow> string) \<Rightarrow> (embedded_storage, embedded_txn, 'g inmem_queue, files) batch_deps" where
  "local_deps R K E st C P utf8_msg show_error = \<lparr>b_storage = embedded_ops R K, b_queue = inmem_ops (embedded_ops R K) E,
     b_objects = fs_object_ops st, b_codec = C, b_params = P, b_hash = hash st, b_utf8_msg = utf8_msg, b_show_error = show_error\<rparr>"

lemma local_deps_simps [simp]:
  "b_storage (local_deps R K E st C P m e) = embedded_ops R K"
  "b_queue (local_deps R K E st C P m e) = inmem_ops (embedded_ops R K) E"
  "b_objects (local_deps R K E st C P m e) = fs_object_ops st"
  "b_codec (local_deps R K E st C P m e) = C" "b_params (local_deps R K E st C P m e) = P"
  "b_hash (local_deps R K E st C P m e) = hash st" "b_utf8_msg (local_deps R K E st C P m e) = m"
  "b_show_error (local_deps R K E st C P m e) = e"
  by (simp_all add: local_deps_def)

definition local_inv :: "key_codec \<Rightarrow> 'g queue_crate \<Rightarrow> ('g \<Rightarrow> ulid) \<Rightarrow> fs_object_store \<Rightarrow> sample_record codec \<Rightarrow> run_id
    \<Rightarrow> (embedded_storage \<times> 'g inmem_queue) \<times> files \<Rightarrow> bool" where
  "local_inv K E lst st C run w \<longleftrightarrow> codec_ok C \<and> inmem_inv K E lst (fst w) \<and> fs_inv st (snd w)
     \<and> sample_rows_ok C run (embedded_view K (fst (fst w)))"

lemma infer_table: "''infer'' \<in> set table_names"
  by code_simp

interpretation local_batch: batch_runtime "local_deps R K E st C P m e" "embedded_view K" "embedded_tview K" "embedded_okk K"
  "embedded_inv K" "embedded_tinv K" key_has_prefix "inmem_inv K E lst" deque "unacked_rows (q_text E)" is_queue_key
  "fs_blobs st" "fs_inv st" "hash st" for R K E lst st C P m e
proof (rule batch_runtime.intro)
  show "storage (b_storage (local_deps R K E st C P m e)) (embedded_view K) (embedded_tview K) (embedded_okk K)
    (embedded_inv K) (embedded_tinv K) key_has_prefix" by (simp add: redb.storage_axioms)
  show "work_queue (b_queue (local_deps R K E st C P m e)) (embedded_view K) (inmem_inv K E lst) deque (unacked_rows (q_text E)) is_queue_key"
    by (simp add: inmem.work_queue_axioms)
  show "object_store (b_objects (local_deps R K E st C P m e)) (fs_blobs st) (fs_inv st) (hash st)"
    by (simp add: fs_store.object_store_axioms)
  show "batch_runtime_axioms (embedded_view K) (embedded_okk K) (embedded_inv K) (inmem_inv K E lst) is_queue_key"
  proof
    fix s q s'
    assume w: "inmem_inv K E lst (s, q)"
    then show "embedded_inv K s" by (simp add: inmem_inv_def)
    assume s': "embedded_inv K s'" "\<And>k. is_queue_key k \<Longrightarrow> embedded_view K s' k = embedded_view K s k"
    have "queue_rows_ok (q_text E) (lst (ids q)) (embedded_view K s') (deque q)"
      using w s'(2) by (auto simp: inmem_inv_def queue_rows_ok_def)
    with w s'(1) show "inmem_inv K E lst (s', q)" by (simp add: inmem_inv_def)
  next
    fix s q run sid
    assume "inmem_inv K E lst (s, q)"
    then show "embedded_okk K (sample_key run sid)" using infer_table by (auto simp: inmem_inv_def all_keys_ok_def sample_key_def)
  next
    fix run sid
    show "\<not> is_queue_key (sample_key run sid)" by (simp add: is_queue_key_def sample_key_def queue_namespace_def)
  qed
qed

section \<open>Properties of the local runtime\<close>

lemma utf8_ascii: "\<forall>b \<in> set bs. b \<le> 127 \<Longrightarrow> utf8_valid bs"
  by (induction bs) auto

lemma parse_own_payload: "content_id_wf sid \<Longrightarrow> parse_sample_id m (as_bytes (content_id_to_string sid)) = Inr sid"
proof -
  assume wf: "content_id_wf sid"
  let ?t = "content_id_to_string sid"
  have ascii: "(of_char c :: nat) < 128" if "c \<in> set ?t" for c using hex_concat_ascii that by (simp add: content_id_to_string_def)
  then have "utf8_valid (as_bytes ?t)"
    by (intro utf8_ascii) (fastforce simp: as_bytes_def word_le_nat_alt unat_of_nat)
  moreover have "map (\<lambda>x. char_of (unat x)) (as_bytes ?t) = ?t" by (simp add: as_bytes_def unat_of_nat comp_def)
  ultimately show ?thesis by (simp add: parse_sample_id_def from_utf8_def content_id_text_parses[OF wf])
qed

text \<open>
  One pull does exactly what it reports. On the local backends, \<open>run_one\<close> takes the oldest item,
  acknowledges it, touches no other sample, and its outcome tells what became of the sample: a
  sample without row or that is not claimable is skipped and left alone; a claimed one ends done
  with the blob of the backend's last completion for its stored prompt, that blob being in the
  store, or failed with the backend's error. An empty queue drains and changes nothing.
\<close>
theorem run_one_reports_truth:
  assumes "local_inv K E lst st C (w_run w) ((s, q), ob)"
    and "run_one (local_deps R K E st C P m e) w gen now fin ((s, q), ob) = (Inr out, ((s', q'), ob'))"
  shows "local_inv K E lst st C (w_run w) ((s', q'), ob') \<and>
    (if out = Drained then deque q = [] \<and> deque q' = [] \<and> embedded_view K s' = embedded_view K s
     else \<exists>qid p sid. deque q = (qid, p) # deque q' \<and> embedded_view K s' (key_for (q_text E) qid) = None
        \<and> parse_sample_id m p = Inr sid
        \<and> (\<forall>i. i \<noteq> sid \<longrightarrow> sample_row C (w_run w) i (embedded_view K s') = sample_row C (w_run w) i (embedded_view K s))
        \<and> pull_spec (local_deps R K E st C P m e) (hash st) w gen now fin (fs_blobs st ob) (fs_blobs st ob')
             (sample_row C (w_run w) sid (embedded_view K s)) out (sample_row C (w_run w) sid (embedded_view K s')))"
  using local_batch.run_one_world[where R = R and K = K and E = E and st = st and C = C and P = P and m = m and e = e and lst = lst and w = w and s = s and q = q
    and ob = ob and gen = gen and now = now and fin = fin and r = "Inr out" and W = "((s', q'), ob')"] assms
  by (simp add: local_inv_def unacked_rows_def)

text \<open>
  Planning covers every input and never disturbs finished work. When \<open>scan_and_enqueue\<close> succeeds it
  has appended as many items to the queue as it returns, every input's sample has a row that is
  done, held by a live worker or queued, and done and failed samples are as they were; a running
  sample changed only by being put back on the queue.
\<close>
theorem scan_plans_every_input:
  assumes "local_inv K E lst st C run ((s, q), ob)"
    and "scan_and_enqueue (local_deps R K E st C P m e) run stale clock inputs model sampling ((s, q), ob) = (Inr n, ((s', q'), ob'))"
  shows "\<exists>L. n = length L \<and> deque q' = deque q @ L \<and> local_inv K E lst st C run ((s', q'), ob')
    \<and> keeps_terminal C run (embedded_view K s) (embedded_view K s') \<and> replans C run L (embedded_view K s) (embedded_view K s')
    \<and> (\<forall>item \<in> set inputs. \<exists>sid. sample_id (hash st) P model (item_prompt item) sampling (item_idx item) = Inr sid
         \<and> planned C run L (embedded_view K s') sid)"
  using local_batch.scan_items_world[where R = R and K = K and E = E and st = st and C = C and P = P and m = m and e = e and lst = lst and run = run
    and w = "((s, q), ob)" and stale = stale and now = "batch_now_ms clock" and model = model and sampling = sampling and items = inputs
    and n = 0 and r = "Inr n" and W = "((s', q'), ob')"] assms
  by (simp add: local_inv_def scan_and_enqueue_def)

text \<open>
  C17. The pull loop terminates. From any state of the local backends one iteration more than there are
  waiting items is enough for \<open>run_loop\<close> to return, whatever the backend answers and whenever the
  stop flag is raised; if it returns normally without having been stopped, the queue is empty and
  every pending sample that was waiting is done or failed.
\<close>
theorem run_loop_terminates:
  assumes "local_inv K E lst st C (w_run w) ((s, q), ob)" "length (deque q) < fuel"
  shows "\<exists>r s' q' ob'. run_loop (local_deps R K E st C P m e) w gen stopped clock fuel i n ((s, q), ob) = Some (r, ((s', q'), ob'))
    \<and> local_inv K E lst st C (w_run w) ((s', q'), ob')
    \<and> (\<forall>k. r = Inr k \<longrightarrow> (\<forall>j. \<not> stopped j) \<longrightarrow> deque q' = []
         \<and> drains (local_deps R K E st C P m e) (w_run w) (deque q) (embedded_view K s) (embedded_view K s'))"
  using local_batch.run_loop_returns[where R = R and K = K and E = E and st = st and C = C and P = P and m = m and e = e and lst = lst and w = w and s = s and q = q
    and ob = ob and fuel = fuel and gen = gen and stopped = stopped and clock = clock and i = i and n = n] assms
  by (simp add: local_inv_def)

text \<open>
  Completions are collected in input order. \<open>collect_done_records\<close> returns every done sample of the
  run and nothing else, each once, ordered by the position of its input.
\<close>
theorem done_records_in_input_order:
  assumes "local_inv K E lst st C run ((s, q), ob)"
    and "\<And>k. key_has_prefix k (range_prefix (sample_range run)) \<Longrightarrow> embedded_view K s k \<noteq> None \<Longrightarrow> \<exists>sid. k = sample_key run sid"
    and "collect_done_records (local_deps R K E st C P m e) run s = Inr recs"
  shows "sorted (map input_idx recs) \<and> distinct (map sample_rid recs)
    \<and> set recs = {rec. \<exists>sid. sample_row C run sid (embedded_view K s) = Some rec \<and> is_sdone (sample_st rec)}"
  using local_batch.collect_done_world[where R = R and K = K and E = E and st = st and C = C and P = P and m = m and e = e
    and s = s and run = run and recs = recs] assms by (simp add: local_inv_def inmem_inv_def)


section \<open>Witnesses\<close>

text \<open>One prompt, planned on empty backends and completed by one worker.\<close>

definition batch_demo_sid :: content_id where
  "batch_demo_sid = ContentId (replicate 32 0)"

definition batch_demo_rec :: "sample_state \<Rightarrow> sample_record" where
  "batch_demo_rec st = \<lparr>sample_rid = batch_demo_sid, prompt_blob = ContentId (replicate 32 7), sample_st = st, created_at_ms = 0, input_idx = 0\<rparr>"

definition batch_demo_codec :: "sample_record codec" where
  "batch_demo_codec = table_codec (map batch_demo_rec
     [SPending, SRunning (WorkerId 1) 10, SDone (ContentId (replicate 32 0)) 20])"

definition batch_demo_sampling :: sampling_params where
  "batch_demo_sampling = \<lparr>temperature = 0, top_p = 0, top_k = 0, max_tokens = 16, seed = None, stop = [], stream = False\<rparr>"

definition batch_demo_deps :: "(embedded_storage, embedded_txn, ulid inmem_queue, files) batch_deps" where
  "batch_demo_deps = local_deps faultless plain_keys queue_demo_crate fs_demo batch_demo_codec (table_codec [batch_demo_sampling]) (\<lambda>_. ''utf8'') (\<lambda>_. ''err'')"

definition batch_demo_worker :: batch_worker where
  "batch_demo_worker = \<lparr>w_run = RunId 1, w_id = WorkerId 1, w_sampling = batch_demo_sampling, w_stale_after_ms = 60\<rparr>"

definition batch_demo_gen :: generate where
  "batch_demo_gen prompts params = Inr (map (\<lambda>p. \<lparr>completion_text = ''MOCK:'' @ p, finish_reason = ''stop'', prompt_tokens = 0, completion_tokens = 0\<rparr>) prompts)"

definition batch_demo_start :: "(embedded_storage \<times> ulid inmem_queue) \<times> files" where
  "batch_demo_start = (queue_demo_start, Map.empty)"

definition batch_demo_item :: input_item where
  "batch_demo_item = \<lparr>item_idx = 0, item_prompt = [char_of (7::nat)]\<rparr>"

definition batch_demo_scan :: "nat res \<times> (embedded_storage \<times> ulid inmem_queue) \<times> files" where
  "batch_demo_scan = scan_and_enqueue batch_demo_deps (RunId 1) 60 0 [batch_demo_item] (ContentId [1]) batch_demo_sampling batch_demo_start"

lemma batch_demo_scan_result: "fst batch_demo_scan = Inr 1"
  by code_simp

lemma batch_demo_inv: "local_inv plain_keys queue_demo_crate (\<lambda>g. g) fs_demo batch_demo_codec (RunId 1) batch_demo_start"
  using queue_demo_inv fs_demo_inv(1)
  by (simp add: local_inv_def batch_demo_start_def batch_demo_codec_def sample_rows_ok_def embedded_view_def db_view_def table_rows_def)

lemma batch_demo_scan_eq: "batch_demo_scan = (Inr 1, ((fst (fst (snd batch_demo_scan)), snd (fst (snd batch_demo_scan))), snd (snd batch_demo_scan)))"
  using batch_demo_scan_result by (metis prod.collapse)

definition batch_demo_s1 :: embedded_storage where "batch_demo_s1 = fst (fst (snd batch_demo_scan))"
definition batch_demo_q1 :: "ulid inmem_queue" where "batch_demo_q1 = snd (fst (snd batch_demo_scan))"
definition batch_demo_o1 :: files where "batch_demo_o1 = snd (snd batch_demo_scan)"

lemma batch_demo_planned:
  "scan_and_enqueue batch_demo_deps (RunId 1) 60 0 [batch_demo_item] (ContentId [1]) batch_demo_sampling batch_demo_start
     = (Inr 1, ((batch_demo_s1, batch_demo_q1), batch_demo_o1))"
  using batch_demo_scan_eq unfolding batch_demo_scan_def batch_demo_s1_def batch_demo_q1_def batch_demo_o1_def .

lemma batch_demo_inv1:
  "local_inv plain_keys queue_demo_crate (\<lambda>g. g) fs_demo batch_demo_codec (RunId 1) ((batch_demo_s1, batch_demo_q1), batch_demo_o1)"
  "length (deque batch_demo_q1) = 1"
  using local_batch.scan_items_world[OF _ _ batch_demo_planned[unfolded batch_demo_deps_def scan_and_enqueue_def], of "\<lambda>g. g"] batch_demo_inv
  by (auto simp: local_inv_def batch_demo_start_def)

lemma batch_demo_one:
  "\<exists>s q ob. run_one batch_demo_deps batch_demo_worker batch_demo_gen 10 20 ((batch_demo_s1, batch_demo_q1), batch_demo_o1)
     = (Inr Completed, ((s, q), ob)) \<and> deque q = []"
proof -
  let ?run = "run_one batch_demo_deps batch_demo_worker batch_demo_gen 10 20 ((batch_demo_s1, batch_demo_q1), batch_demo_o1)"
  have "fst ?run = Inr Completed" by code_simp
  then obtain s q ob where run: "?run = (Inr Completed, ((s, q), ob))" by (metis prod.collapse)
  from local_batch.run_one_world[OF _ _ run[unfolded batch_demo_deps_def], of "\<lambda>g. g"] batch_demo_inv1
  have "deque q = []" by (auto simp: local_inv_def batch_demo_worker_def)
  with run show ?thesis by blast
qed

theorem run_one_reports_truth_witness:
  "\<exists>s q ob p. deque batch_demo_q1 = p # deque q \<and> local_inv plain_keys queue_demo_crate (\<lambda>g. g) fs_demo batch_demo_codec (RunId 1) ((s, q), ob)"
proof -
  obtain s q ob where run: "run_one batch_demo_deps batch_demo_worker batch_demo_gen 10 20 ((batch_demo_s1, batch_demo_q1), batch_demo_o1)
     = (Inr Completed, ((s, q), ob))" using batch_demo_one by blast
  have "w_run batch_demo_worker = RunId 1" by (simp add: batch_demo_worker_def)
  with run_one_reports_truth[OF _ run[unfolded batch_demo_deps_def], of "\<lambda>g. g"] batch_demo_inv1(1) show ?thesis by auto
qed

theorem scan_plans_every_input_witness:
  "\<exists>L. length L = (1::nat) \<and> deque batch_demo_q1 = L
     \<and> keeps_terminal batch_demo_codec (RunId 1) (embedded_view plain_keys (fst (fst batch_demo_start))) (embedded_view plain_keys batch_demo_s1)"
  using scan_plans_every_input[OF batch_demo_inv[unfolded batch_demo_start_def] batch_demo_planned[unfolded batch_demo_deps_def batch_demo_start_def]]
  by (auto simp: batch_demo_start_def)

theorem run_loop_terminates_witness:
  "\<exists>r w. run_loop batch_demo_deps batch_demo_worker batch_demo_gen (\<lambda>_. False) (\<lambda>_. (10, 20)) 2 0 0
     ((batch_demo_s1, batch_demo_q1), batch_demo_o1) = Some (r, w)"
proof -
  have "length (deque batch_demo_q1) < 2" "w_run batch_demo_worker = RunId 1" using batch_demo_inv1(2) by (simp_all add: batch_demo_worker_def)
  with run_loop_terminates[where w = batch_demo_worker, OF _ this(1)] batch_demo_inv1(1) show ?thesis
    unfolding batch_demo_deps_def by metis
qed

lemma batch_demo_loop:
  "\<exists>s q ob. run_loop batch_demo_deps batch_demo_worker batch_demo_gen (\<lambda>_. False) (\<lambda>_. (10, 20)) 2 0 0
     ((batch_demo_s1, batch_demo_q1), batch_demo_o1) = Some (Inr 1, ((s, q), ob))"
proof -
  obtain s q ob where one: "run_one batch_demo_deps batch_demo_worker batch_demo_gen 10 20 ((batch_demo_s1, batch_demo_q1), batch_demo_o1)
     = (Inr Completed, ((s, q), ob))" and "deque q = []" using batch_demo_one by blast
  then have "run_one batch_demo_deps batch_demo_worker batch_demo_gen 10 20 ((s, q), ob) = (Inr Drained, ((s, q), ob))"
    by (simp add: run_one_def batch_demo_deps_def bindS_def on_store_def on_sink_def inmem_ops_def inmem_dequeue_def)
  with one show ?thesis by (simp add: numeral_2_eq_2)
qed


text \<open>A store that holds one done sample.\<close>

definition batch_demo_done :: embedded_storage where
  "batch_demo_done = \<lparr>db = [''infer'' \<mapsto> [(key_bytes plain_keys (sample_key (RunId 1) batch_demo_sid), [2])]], watchers = []\<rparr>"

lemma batch_demo_done_rows: "embedded_view plain_keys batch_demo_done k = Some v \<Longrightarrow> k = sample_key (RunId 1) batch_demo_sid \<and> v = [2]"
proof -
  let ?k = "sample_key (RunId 1) batch_demo_sid"
  assume "embedded_view plain_keys batch_demo_done k = Some v"
  then have ok: "embedded_okk plain_keys k" and ns: "namespace k = ''infer''" and kb: "key_bytes plain_keys k = key_bytes plain_keys ?k" and v: "v = [2]"
    by (auto simp: embedded_view_def db_view_def batch_demo_done_def table_rows_def split: if_splits option.splits)
  have "embedded_okk plain_keys ?k" using plain_keys_ok(2) infer_table by (simp add: all_keys_ok_def sample_key_def)
  with ok kb have "(key_run k, path k) = (key_run ?k, path ?k)" by (metis embedded_okk_def sum.inject(2))
  with ns v show ?thesis by (cases k) (simp add: sample_key_def)
qed

lemma batch_demo_done_inv:
  "local_inv plain_keys queue_demo_crate (\<lambda>g. g) fs_demo batch_demo_codec (RunId 1) ((batch_demo_done, \<lparr>deque = [], ids = 0\<rparr>), Map.empty)"
proof -
  have enc: "encode batch_demo_codec (batch_demo_rec (SDone (ContentId (replicate 32 0)) 20)) = Inr [2]" by code_simp
  have "sample_rows_ok batch_demo_codec (RunId 1) (embedded_view plain_keys batch_demo_done)" unfolding sample_rows_ok_def
    using batch_demo_done_rows enc
    by (fastforce intro!: exI[of _ "batch_demo_rec (SDone (ContentId (replicate 32 0)) 20)"] simp: batch_demo_rec_def content_id_wf_def)
  moreover have "\<not> is_queue_key (sample_key (RunId 1) batch_demo_sid)" by (simp add: is_queue_key_def sample_key_def queue_namespace_def)
  then have "queue_rows_ok U 0 (embedded_view plain_keys batch_demo_done) []" for U using batch_demo_done_rows by (fastforce simp: queue_rows_ok_def)
  moreover have "embedded_inv plain_keys batch_demo_done" by code_simp
  moreover have "queue_crate_ok queue_demo_crate (\<lambda>g. g)" using queue_demo_inv by (simp add: inmem_inv_def)
  ultimately show ?thesis using fs_demo_inv(1) plain_keys_ok(2) by (simp add: local_inv_def inmem_inv_def batch_demo_codec_def)
qed

theorem done_records_in_input_order_witness:
  "{rec. \<exists>sid. sample_row batch_demo_codec (RunId 1) sid (embedded_view plain_keys batch_demo_done) = Some rec \<and> is_sdone (sample_st rec)}
     = {batch_demo_rec (SDone (ContentId (replicate 32 0)) 20)}"
proof -
  have c: "collect_done_records batch_demo_deps (RunId 1) batch_demo_done = Inr [batch_demo_rec (SDone (ContentId (replicate 32 0)) 20)]" by code_simp
  have "\<exists>sid. k = sample_key (RunId 1) sid" if "embedded_view plain_keys batch_demo_done k \<noteq> None" for k
    using batch_demo_done_rows that by blast
  from done_records_in_input_order[OF batch_demo_done_inv this c[unfolded batch_demo_deps_def]] show ?thesis by simp
qed

end
