(* ===== verification/Http_Filter.thy ===== *)
theory Http_Filter
  imports Core_Types
begin

text \<open>
  The post-DNS address filter of the HTTP tools
  (\<open>rollout-harness-tool/src/http/connector.rs\<close>): the addresses of \<open>std::net\<close> with the
  predicates the filter asks of them, the block list, the allow list and the choice of the pinned
  address. The block list is shown to be a list of CIDR ranges over the numeric address.
\<close>

unbundle bit_operations_syntax

section \<open>Addresses\<close>

text \<open>Four octets, eight segments.\<close>

datatype ipv4 = Ipv4 u8 u8 u8 u8
datatype ipv6 = Ipv6 u16 u16 u16 u16 u16 u16 u16 u16
datatype ip_addr = V4 ipv4 | V6 ipv6

text \<open>The predicates of \<open>Ipv4Addr\<close>.\<close>

fun v4_is_loopback :: "ipv4 \<Rightarrow> bool" where
  "v4_is_loopback (Ipv4 a b c d) \<longleftrightarrow> a = 127"

fun v4_is_unspecified :: "ipv4 \<Rightarrow> bool" where
  "v4_is_unspecified (Ipv4 a b c d) \<longleftrightarrow> a = 0 \<and> b = 0 \<and> c = 0 \<and> d = 0"

fun v4_is_link_local :: "ipv4 \<Rightarrow> bool" where
  "v4_is_link_local (Ipv4 a b c d) \<longleftrightarrow> a = 169 \<and> b = 254"

fun v4_is_private :: "ipv4 \<Rightarrow> bool" where
  "v4_is_private (Ipv4 a b c d) \<longleftrightarrow>
     a = 10 \<or> a = 172 \<and> 16 \<le> b \<and> b \<le> 31 \<or> a = 192 \<and> b = 168"

fun v4_is_multicast :: "ipv4 \<Rightarrow> bool" where
  "v4_is_multicast (Ipv4 a b c d) \<longleftrightarrow> 224 \<le> a \<and> a \<le> 239"

fun v4_is_broadcast :: "ipv4 \<Rightarrow> bool" where
  "v4_is_broadcast (Ipv4 a b c d) \<longleftrightarrow> a = 255 \<and> b = 255 \<and> c = 255 \<and> d = 255"

text \<open>The predicates of \<open>Ipv6Addr\<close>, and its embedded IPv4 address (mapped or compatible).\<close>

fun v6_is_loopback :: "ipv6 \<Rightarrow> bool" where
  "v6_is_loopback v \<longleftrightarrow> v = Ipv6 0 0 0 0 0 0 0 1"

fun v6_is_unspecified :: "ipv6 \<Rightarrow> bool" where
  "v6_is_unspecified v \<longleftrightarrow> v = Ipv6 0 0 0 0 0 0 0 0"

fun v6_is_multicast :: "ipv6 \<Rightarrow> bool" where
  "v6_is_multicast (Ipv6 s0 s1 s2 s3 s4 s5 s6 s7) \<longleftrightarrow> s0 AND 0xff00 = 0xff00"

fun to_ipv4 :: "ipv6 \<Rightarrow> ipv4 option" where
  "to_ipv4 (Ipv6 s0 s1 s2 s3 s4 s5 s6 s7) =
     (if s0 = 0 \<and> s1 = 0 \<and> s2 = 0 \<and> s3 = 0 \<and> s4 = 0 \<and> (s5 = 0 \<or> s5 = 0xffff)
      then Some (Ipv4 (ucast (drop_bit 8 s6)) (ucast s6) (ucast (drop_bit 8 s7)) (ucast s7))
      else None)"

section \<open>The block list\<close>

datatype block_reason =
    Private
  | Cgnat
  | LinkLocal
  | Loopback
  | Ipv6LinkLocal
  | Ipv6UniqueLocal
  | Multicast
  | Unspecified
  | MappedV4
  | NotAllowlisted

fun block_reason_str :: "block_reason \<Rightarrow> string" where
  "block_reason_str Private = ''RFC1918 private address''"
| "block_reason_str Cgnat = ''CGNAT shared address space''"
| "block_reason_str LinkLocal = ''link-local / cloud IMDS (169.254/16)''"
| "block_reason_str Loopback = ''loopback address''"
| "block_reason_str Ipv6LinkLocal = ''IPv6 link-local (fe80::/10)''"
| "block_reason_str Ipv6UniqueLocal = ''IPv6 unique-local (fc00::/7)''"
| "block_reason_str Multicast = ''multicast address''"
| "block_reason_str Unspecified = ''unspecified address''"
| "block_reason_str MappedV4 = ''IPv4-mapped IPv6 wrapping a blocked address''"
| "block_reason_str NotAllowlisted = ''resolved IP not in egress allowlist''"

fun octet0 :: "ipv4 \<Rightarrow> u8" where "octet0 (Ipv4 a b c d) = a"
fun octet1 :: "ipv4 \<Rightarrow> u8" where "octet1 (Ipv4 a b c d) = b"
fun segment0 :: "ipv6 \<Rightarrow> u16" where "segment0 (Ipv6 s0 s1 s2 s3 s4 s5 s6 s7) = s0"

definition blocked_v4 :: "ipv4 \<Rightarrow> block_reason option" where
  "blocked_v4 v =
     (if v4_is_loopback v then Some Loopback
      else if v4_is_unspecified v then Some Unspecified
      else if v4_is_link_local v then Some LinkLocal
      else if v4_is_private v then Some Private
      else if v4_is_multicast v \<or> v4_is_broadcast v then Some Multicast
      else if octet0 v = 100 \<and> 64 \<le> octet1 v \<and> octet1 v \<le> 127 then Some Cgnat
      else None)"

definition blocked_v6 :: "ipv6 \<Rightarrow> block_reason option" where
  "blocked_v6 v =
     (if v6_is_loopback v then Some Loopback
      else if v6_is_unspecified v then Some Unspecified
      else if v6_is_multicast v then Some Multicast
      else if segment0 v AND 0xffc0 = 0xfe80 then Some Ipv6LinkLocal
      else if segment0 v AND 0xfe00 = 0xfc00 then Some Ipv6UniqueLocal
      else None)"

definition blocked_range :: "ip_addr \<Rightarrow> block_reason option" where
  "blocked_range ip = (case ip of
       V4 v4 \<Rightarrow> blocked_v4 v4
     | V6 v6 \<Rightarrow> (case to_ipv4 v6 of
           Some v4 \<Rightarrow> if blocked_v4 v4 \<noteq> None then Some MappedV4 else blocked_v6 v6
         | None \<Rightarrow> blocked_v6 v6))"

section \<open>The filter and the pinned address\<close>

definition filter_ip :: "ip_addr \<Rightarrow> ip_addr list \<Rightarrow> bool \<Rightarrow> block_reason option" where
  "filter_ip ip allowlist allow_loopback =
     (let gate = (if allowlist \<noteq> [] \<and> ip \<notin> set allowlist then Some NotAllowlisted else None)
      in case blocked_range ip of
           Some reason \<Rightarrow> if allow_loopback \<and> reason = Loopback then gate else Some reason
         | None \<Rightarrow> gate)"

text \<open>The loop of \<open>pick_safe_ip\<close>, with the last reason as its accumulator.\<close>

fun pick_loop :: "block_reason \<Rightarrow> ip_addr list \<Rightarrow> ip_addr list \<Rightarrow> bool \<Rightarrow> block_reason + ip_addr" where
  "pick_loop final [] allowlist allow_loopback = Inl final"
| "pick_loop final (ip # ips) allowlist allow_loopback =
     (case filter_ip ip allowlist allow_loopback of
        None \<Rightarrow> Inr ip
      | Some r \<Rightarrow> pick_loop r ips allowlist allow_loopback)"

definition pick_safe_ip :: "ip_addr list \<Rightarrow> ip_addr list \<Rightarrow> bool \<Rightarrow> block_reason + ip_addr" where
  "pick_safe_ip ips allowlist allow_loopback = pick_loop Unspecified ips allowlist allow_loopback"

section \<open>Reference: CIDR ranges over the numeric address\<close>

text \<open>An address as a number, most significant part first, and membership in \<open>base/len\<close>.\<close>

definition digits :: "nat \<Rightarrow> nat list \<Rightarrow> nat" where
  "digits base ds = foldl (\<lambda>acc d. acc * base + d) 0 ds"

fun v4_number :: "ipv4 \<Rightarrow> nat" where
  "v4_number (Ipv4 a b c d) = digits 256 [unat a, unat b, unat c, unat d]"

fun v6_number :: "ipv6 \<Rightarrow> nat" where
  "v6_number (Ipv6 s0 s1 s2 s3 s4 s5 s6 s7) =
     digits 65536 (map unat [s0, s1, s2, s3, s4, s5, s6, s7])"

definition in_cidr :: "nat \<Rightarrow> nat \<times> nat \<Rightarrow> nat \<Rightarrow> bool" where
  "in_cidr width c n \<longleftrightarrow> n div 2 ^ (width - snd c) = fst c div 2 ^ (width - snd c)"

abbreviation quad :: "nat \<Rightarrow> nat \<Rightarrow> nat \<Rightarrow> nat \<Rightarrow> nat" where
  "quad a b c d \<equiv> digits 256 [a, b, c, d]"

definition blocked_v4_nets :: "(nat \<times> nat) list" where
  "blocked_v4_nets =
     [(quad 127 0 0 0, 8), (quad 0 0 0 0, 32), (quad 169 254 0 0, 16), (quad 10 0 0 0, 8),
      (quad 172 16 0 0, 12), (quad 192 168 0 0, 16), (quad 224 0 0 0, 4), (quad 255 255 255 255, 32),
      (quad 100 64 0 0, 10)]"

text \<open>\<open>ff00::/8\<close>, \<open>fe80::/10\<close>, \<open>fc00::/7\<close>, \<open>::1/128\<close>.\<close>

definition blocked_v6_nets :: "(nat \<times> nat) list" where
  "blocked_v6_nets = [(0xff00 * 2 ^ 112, 8), (0xfe80 * 2 ^ 112, 10), (0xfc00 * 2 ^ 112, 7), (1, 128)]"

text \<open>The IPv4 address inside \<open>::/96\<close> and \<open>::ffff:0:0/96\<close>.\<close>

definition embedded_v4 :: "nat \<Rightarrow> nat option" where
  "embedded_v4 n = (if n div 2 ^ 32 = 0 \<or> n div 2 ^ 32 = 0xffff then Some (n mod 2 ^ 32) else None)"

definition cidr_blocked :: "ip_addr \<Rightarrow> bool" where
  "cidr_blocked ip = (case ip of
       V4 v \<Rightarrow> \<exists>c\<in>set blocked_v4_nets. in_cidr 32 c (v4_number v)
     | V6 v \<Rightarrow> (\<exists>c\<in>set blocked_v6_nets. in_cidr 128 c (v6_number v))
         \<or> (case embedded_v4 (v6_number v) of
              Some n \<Rightarrow> \<exists>c\<in>set blocked_v4_nets. in_cidr 32 c n
            | None \<Rightarrow> False))"

lemma segment_lt: "unat (x::u16) < 65536"
  using unsigned_less [of x] by simp

text \<open>Comparisons with literals, read as numbers.\<close>

lemma u8_literal: "(x::u8) = y \<longleftrightarrow> unat x = unat y"
  by (simp add: word_eq_iff_unsigned)

lemma u16_literal: "(x::u16) = y \<longleftrightarrow> unat x = unat y"
  by (simp add: word_eq_iff_unsigned)

lemma split_digit: "y < m \<Longrightarrow> x * m + y = k \<longleftrightarrow> x = k div m \<and> y = k mod (m::nat)"
  by (metis add.commute div_mult_mod_eq div_mult_self1 div_less mod_less mod_mult_self1
      add.right_neutral plus_nat.add_0 not_less0)

lemma div_range: "0 < m \<Longrightarrow> b div m = k \<longleftrightarrow> k * m \<le> b \<and> b < Suc k * (m::nat)"
  by (metis div_less_iff_less_mult less_Suc_eq_le less_eq_div_iff_mult_less_eq order_antisym_conv order_refl)

lemma small_ranges:
  "(b::nat) div 16 = 1 \<longleftrightarrow> 16 \<le> b \<and> b \<le> 31"
  "b div 16 = 14 \<longleftrightarrow> 224 \<le> b \<and> b \<le> 239"
  "b div 64 = 1 \<longleftrightarrow> 64 \<le> b \<and> b \<le> 127"
  by (auto simp: div_range)

lemmas small_ranges_Suc = small_ranges [unfolded One_nat_def]

lemma quad_div:
  assumes "a < 256" "b < 256" "c < 256" "d < 256"
  shows "quad a b c d div 16777216 = a"
    "quad a b c d div 65536 = a * 256 + b"
    "quad a b c d div 1048576 = a * 16 + b div 16"
    "quad a b c d div 268435456 = a div 16"
    "quad a b c d div 4194304 = a * 4 + b div 64"
  using assms by (simp_all add: digits_def)

lemma quad_literals:
  "quad 127 0 0 0 = 127 * 16777216" "quad 10 0 0 0 = 10 * 16777216"
  "quad 169 254 0 0 = 43518 * 65536" "quad 192 168 0 0 = 49320 * 65536"
  "quad 172 16 0 0 = 2753 * 1048576" "quad 224 0 0 0 = 14 * 268435456"
  "quad 100 64 0 0 = 401 * 4194304" "quad 0 0 0 0 = 0" "quad 255 255 255 255 = 4294967295"
  by (simp_all add: digits_def)

lemma quad_extremes:
  assumes "a < 256" "b < 256" "c < 256" "d < 256"
  shows "quad a b c d = 0 \<longleftrightarrow> a = 0 \<and> b = 0 \<and> c = 0 \<and> d = 0"
    and "quad a b c d = 4294967295 \<longleftrightarrow> a = 255 \<and> b = 255 \<and> c = 255 \<and> d = 255"
proof -
  have nested: "quad a b c d = ((a * 256 + b) * 256 + c) * 256 + d" by (simp add: digits_def)
  show "quad a b c d = 0 \<longleftrightarrow> a = 0 \<and> b = 0 \<and> c = 0 \<and> d = 0"
    by (simp add: digits_def)
  show "quad a b c d = 4294967295 \<longleftrightarrow> a = 255 \<and> b = 255 \<and> c = 255 \<and> d = 255"
    unfolding nested by (simp only: split_digit assms) simp
qed

lemma blocked_v4_octets:
  "blocked_v4 (Ipv4 a b c d) \<noteq> None \<longleftrightarrow>
      unat a = 127 \<or> unat a = 0 \<and> unat b = 0 \<and> unat c = 0 \<and> unat d = 0
    \<or> unat a = 169 \<and> unat b = 254 \<or> unat a = 10 \<or> unat a = 172 \<and> 16 \<le> unat b \<and> unat b \<le> 31
    \<or> unat a = 192 \<and> unat b = 168 \<or> 224 \<le> unat a \<and> unat a \<le> 239
    \<or> unat a = 255 \<and> unat b = 255 \<and> unat c = 255 \<and> unat d = 255
    \<or> unat a = 100 \<and> 64 \<le> unat b \<and> unat b \<le> 127"
  by (simp add: blocked_v4_def u8_literal word_le_nat_alt)

lemma blocked_v4_cidr:
  "blocked_v4 v \<noteq> None \<longleftrightarrow> (\<exists>c\<in>set blocked_v4_nets. in_cidr 32 c (v4_number v))"
proof (cases v)
  case (Ipv4 a b c d)
  have lt: "unat a < 256" "unat b < 256" "unat c < 256" "unat d < 256"
    by (simp_all add: unat_u8_lt)
  then have small: "unat b div 16 < 16" "unat b div 64 < 4" by simp_all
  show ?thesis
    unfolding Ipv4 blocked_v4_octets blocked_v4_nets_def in_cidr_def quad_literals v4_number.simps
    by (simp add: quad_div [OF lt] quad_extremes [OF lt] split_digit lt small small_ranges
        small_ranges_Suc)
qed

text \<open>A masked comparison of the high bits compares the numbers above the mask.\<close>

lemma high_bits:
  assumes "c = push_bit n (drop_bit n c)"
  shows "s AND NOT (mask n) = c \<longleftrightarrow> drop_bit n s = drop_bit n (c::u16)"
proof
  have mask: "x AND NOT (mask n) = push_bit n (drop_bit n x)" for x :: u16
    by (rule bit_word_eqI) (auto simp: bit_simps)
  show "s AND NOT (mask n) = c" if "drop_bit n s = drop_bit n c"
    using assms that by (simp add: mask)
  have low: "drop_bit n (x AND NOT (mask n)) = drop_bit n x" for x :: u16
    by (rule bit_word_eqI) (auto simp: bit_simps dest: bit_imp_le_length)
  show "drop_bit n s = drop_bit n c" if "s AND NOT (mask n) = c"
    using low [of s] that by simp
qed

lemma high_masks: "0xff00 = NOT (mask 8 :: u16)" "0xffc0 = NOT (mask 6 :: u16)"
    "0xfe00 = NOT (mask 9 :: u16)"
  by code_simp+

lemma mask_range:
  "(s::u16) AND 0xff00 = 0xff00 \<longleftrightarrow> unat s div 256 = 255"
  "s AND 0xffc0 = 0xfe80 \<longleftrightarrow> unat s div 64 = 1018"
  "s AND 0xfe00 = 0xfc00 \<longleftrightarrow> unat s div 512 = 126"
proof -
  have nat: "drop_bit n s = drop_bit n c \<longleftrightarrow> unat s div 2 ^ n = unat c div 2 ^ n" for n and c :: u16
    by (metis drop_bit_eq_div unat_drop_bit_eq unsigned_word_eqI)
  show "s AND 0xff00 = 0xff00 \<longleftrightarrow> unat s div 256 = 255"
    using high_bits [of "0xff00" 8 s] nat [of 8 "0xff00"] by (simp add: flip: high_masks)
  show "s AND 0xffc0 = 0xfe80 \<longleftrightarrow> unat s div 64 = 1018"
    using high_bits [of "0xfe80" 6 s] nat [of 6 "0xfe80"] by (simp add: flip: high_masks)
  show "s AND 0xfe00 = 0xfc00 \<longleftrightarrow> unat s div 512 = 126"
    using high_bits [of "0xfc00" 9 s] nat [of 9 "0xfc00"] by (simp add: flip: high_masks)
qed

lemma digits_snoc: "digits base (xs @ [d]) = digits base xs * base + d"
  by (simp add: digits_def)

lemma digits_append: "digits base (xs @ ys) = digits base xs * base ^ length ys + digits base ys"
proof (induction ys rule: rev_induct)
  case (snoc d ys)
  then show ?case by (simp add: digits_snoc algebra_simps flip: append_assoc)
qed (simp add: digits_def)

lemma digits_lt: "\<forall>d\<in>set ds. d < base \<Longrightarrow> digits base ds < base ^ length ds"
proof (induction ds rule: rev_induct)
  case (snoc d ds)
  then have "digits base ds * base + d < Suc (digits base ds) * base" by simp
  also have "\<dots> \<le> base ^ length ds * base" using snoc by (intro mult_right_mono) auto
  finally show ?case by (simp add: digits_snoc mult.commute)
qed (simp add: digits_def)

lemma digits_eq_0: "0 < base \<Longrightarrow> digits base ds = 0 \<longleftrightarrow> (\<forall>d\<in>set ds. d = 0)"
  by (induction ds rule: rev_induct) (auto simp: digits_snoc, auto simp: digits_def)

lemma digits_split:
  assumes "\<forall>d\<in>set ys. d < base" and "0 < base"
  shows "digits base (xs @ ys) div base ^ length ys = digits base xs"
    and "digits base (xs @ ys) mod base ^ length ys = digits base ys"
  using digits_lt [OF assms(1)] assms(2) by (auto simp: digits_append div_add1_eq [of "_ * _"])

lemma v6_number_parts:
  "v6_number (Ipv6 s0 s1 s2 s3 s4 s5 s6 s7) div 2 ^ 112 = unat s0"
  "v6_number (Ipv6 s0 s1 s2 s3 s4 s5 s6 s7) div 2 ^ 32
     = digits 65536 (map unat [s0, s1, s2, s3, s4, s5])"
  "v6_number (Ipv6 s0 s1 s2 s3 s4 s5 s6 s7) mod 2 ^ 32 = digits 65536 (map unat [s6, s7])"
  using digits_split [of "map unat [s1, s2, s3, s4, s5, s6, s7]" 65536 "[unat s0]"]
    digits_split [of "map unat [s6, s7]" 65536 "map unat [s0, s1, s2, s3, s4, s5]"]
  by (simp_all add: segment_lt) (simp add: digits_def)

lemma segment_bytes:
  "unat (ucast s :: u8) = unat (s::u16) mod 256"
  "unat (drop_bit 8 s) mod 256 = unat s div 256"
  using segment_lt [of s]
  by (simp_all add: unsigned_ucast_eq take_bit_eq_mod unat_drop_bit_eq drop_bit_eq_div [where 'a = nat]
      del: drop_bit_eq_div)

lemma embedded_v4_to_ipv4: "embedded_v4 (v6_number v) = map_option v4_number (to_ipv4 v)"
proof (cases v)
  case (Ipv6 s0 s1 s2 s3 s4 s5 s6 s7)
  let ?mid = "digits 65536 (map unat [s0, s1, s2, s3, s4, s5])"
  have snoc: "?mid = digits 65536 (map unat [s0, s1, s2, s3, s4]) * 65536 + unat s5"
    using digits_snoc [of 65536 "map unat [s0, s1, s2, s3, s4]" "unat s5"] by simp
  have mid: "(?mid = 0 \<or> ?mid = 65535) \<longleftrightarrow>
      s0 = 0 \<and> s1 = 0 \<and> s2 = 0 \<and> s3 = 0 \<and> s4 = 0 \<and> (s5 = 0 \<or> s5 = 0xffff)"
    unfolding snoc using segment_lt [of s5]
    by (auto simp: split_digit digits_eq_0 u16_literal)
  have "digits 65536 (map unat [s6, s7])
      = quad (unat s6 div 256) (unat s6 mod 256) (unat s7 div 256) (unat s7 mod 256)"
    by (simp add: digits_def)
  then show ?thesis
    unfolding Ipv6 embedded_v4_def v6_number_parts mid
    by (simp only: to_ipv4.simps v4_number.simps segment_bytes option.map split: if_split) simp
qed

lemma v6_is_one: "v6_number v = 1 \<longleftrightarrow> v6_is_loopback v"
proof (cases v)
  case (Ipv6 s0 s1 s2 s3 s4 s5 s6 s7)
  have "v6_number v = digits 65536 (map unat [s0, s1, s2, s3, s4, s5, s6]) * 65536 + unat s7"
    using digits_snoc [of 65536 "map unat [s0, s1, s2, s3, s4, s5, s6]" "unat s7"] by (simp add: Ipv6)
  then show ?thesis
    using segment_lt [of s7] by (simp add: Ipv6 split_digit digits_eq_0 u16_literal del: v6_number.simps) 
qed

lemma blocked_v6_cidr:
  assumes "\<not> v6_is_unspecified v"
  shows "blocked_v6 v \<noteq> None \<longleftrightarrow> (\<exists>c\<in>set blocked_v6_nets. in_cidr 128 c (v6_number v))"
proof (cases v)
  case (Ipv6 s0 s1 s2 s3 s4 s5 s6 s7)
  have top: "v6_number v div 2 ^ (112 + k) = unat s0 div 2 ^ k" for k
    unfolding Ipv6 power_add by (simp only: div_mult2_eq v6_number_parts)
  have "in_cidr 128 (0xff00 * 2 ^ 112, 8) (v6_number v) \<longleftrightarrow> unat s0 div 256 = 255"
    using top [of 8] by (simp add: in_cidr_def)
  moreover have "in_cidr 128 (0xfe80 * 2 ^ 112, 10) (v6_number v) \<longleftrightarrow> unat s0 div 64 = 1018"
    using top [of 6] by (simp add: in_cidr_def)
  moreover have "in_cidr 128 (0xfc00 * 2 ^ 112, 7) (v6_number v) \<longleftrightarrow> unat s0 div 512 = 126"
    using top [of 9] by (simp add: in_cidr_def)
  moreover have "in_cidr 128 (1, 128) (v6_number v) \<longleftrightarrow> v6_is_loopback v"
    unfolding v6_is_one [symmetric] by (simp add: in_cidr_def)
  ultimately show ?thesis
    using assms unfolding blocked_v6_def blocked_v6_nets_def
    by (auto simp: Ipv6 mask_range simp del: v6_number.simps v6_is_loopback.simps
        v6_is_unspecified.simps)
qed

text \<open>
  C19. The block list is exactly a list of CIDR ranges over the numeric address: an IPv4 address is
  refused if and only if it lies in 127/8, 0.0.0.0/32, 169.254/16, 10/8, 172.16/12, 192.168/16,
  224/4, 255.255.255.255/32 or 100.64/10, and an IPv6 address if and only if it lies in ff00::/8,
  fe80::/10, fc00::/7, ::1/128, or embeds (::/96, ::ffff:0:0/96) a refused IPv4 address.
\<close>

theorem blocked_range_is_cidr_list: "blocked_range ip \<noteq> None \<longleftrightarrow> cidr_blocked ip"
proof (cases ip)
  case (V4 v)
  then show ?thesis using blocked_v4_cidr [of v] by (simp add: blocked_range_def cidr_blocked_def)
next
  case (V6 v)
  show ?thesis
  proof (cases "v6_is_unspecified v")
    case True
    then have "to_ipv4 v = Some (Ipv4 0 0 0 0)" by simp
    moreover have "blocked_v4 (Ipv4 0 0 0 0) \<noteq> None" by (simp add: blocked_v4_def)
    ultimately show ?thesis
      using V6 blocked_v4_cidr [of "Ipv4 0 0 0 0"]
      by (simp add: blocked_range_def cidr_blocked_def embedded_v4_to_ipv4 del: v6_number.simps v4_number.simps)
  next
    case False
    then show ?thesis
      using V6 blocked_v6_cidr [of v] blocked_v4_cidr
      by (cases "to_ipv4 v") (auto simp: blocked_range_def cidr_blocked_def embedded_v4_to_ipv4)
  qed
qed

section \<open>What the filter and the pin let through\<close>

lemma filter_ip_None:
  "filter_ip ip allowlist allow_loopback = None \<longleftrightarrow>
     (blocked_range ip = None \<or> allow_loopback \<and> blocked_range ip = Some Loopback)
     \<and> (allowlist = [] \<or> ip \<in> set allowlist)"
  by (auto simp: filter_ip_def Let_def split: option.splits)

lemma pick_loop_Inr:
  assumes "pick_loop r ips allowlist lo = Inr ip"
  shows "\<exists>before after. ips = before @ ip # after \<and> filter_ip ip allowlist lo = None
    \<and> (\<forall>x\<in>set before. filter_ip x allowlist lo \<noteq> None)"
  using assms
proof (induction ips arbitrary: r)
  case (Cons x ips)
  show ?case
  proof (cases "filter_ip x allowlist lo")
    case None
    with Cons.prems have "x # ips = [] @ ip # ips" and "filter_ip ip allowlist lo = None" by simp_all
    then show ?thesis by (metis empty_iff empty_set)
  next
    case (Some reason)
    with Cons.prems have "pick_loop reason ips allowlist lo = Inr ip" by simp
    from Cons.IH [OF this] obtain before after where "ips = before @ ip # after"
      and "filter_ip ip allowlist lo = None" and "\<forall>y\<in>set before. filter_ip y allowlist lo \<noteq> None"
      by blast
    with Some have "x # ips = (x # before) @ ip # after"
      and "\<forall>y\<in>set (x # before). filter_ip y allowlist lo \<noteq> None" by simp_all
    with \<open>filter_ip ip allowlist lo = None\<close> show ?thesis by blast
  qed
qed simp

lemma pick_loop_Inl:
  "pick_loop r ips allowlist lo = Inl reason \<longleftrightarrow>
     (\<forall>x\<in>set ips. filter_ip x allowlist lo \<noteq> None)
     \<and> reason = (if ips = [] then r else the (filter_ip (last ips) allowlist lo))"
  by (induction ips arbitrary: r) (auto split: option.splits)

text \<open>
  The test-only loopback switch relaxes nothing else: an address outside the loopback ranges is
  treated alike with and without it.
\<close>

lemma loopback_switch_relaxes_loopback_only:
  "blocked_range ip \<noteq> Some Loopback \<Longrightarrow> filter_ip ip allowlist True = filter_ip ip allowlist False"
  by (auto simp: filter_ip_def split: option.splits)

end
