(* ===== verification/Http_Client.thy ===== *)
theory Http_Client
  imports Http_Filter
begin

text \<open>
  The HTTP client of the tools (\<open>rollout-harness-tool/src/http/mod.rs\<close>): one hop resolves the
  host, filters and pins an address, connects to that address and sends one request; \<open>fetch\<close>
  follows redirects by running a whole hop again, at most five times. Name resolution, sockets,
  TLS, hyper and the \<open>http\<close> crate's URI parser are a record of parameters; every lookup and every
  connection attempt is recorded in a trace.
\<close>

section \<open>Addresses as text\<close>

text \<open>\<open>Display\<close> of \<open>std::net\<close>: dotted quads; hexadecimal groups with the first longest run of
  at least two zero groups as \<open>::\<close>; mapped addresses with a dotted tail.\<close>

fun show_v4 :: "ipv4 \<Rightarrow> string" where
  "show_v4 (Ipv4 a b c d) = decimal (unat a) @ ''.'' @ decimal (unat b) @ ''.'' @ decimal (unat c)
     @ ''.'' @ decimal (unat d)"

fun hex_group :: "nat \<Rightarrow> string" where
  "hex_group n = (if n < 16 then [hex_digit n] else hex_group (n div 16) @ [hex_digit (n mod 16)])"

declare hex_group.simps [simp del]

fun join_groups :: "u16 list \<Rightarrow> string" where
  "join_groups [] = ''''"
| "join_groups [s] = hex_group (unat s)"
| "join_groups (s # ss) = hex_group (unat s) @ '':'' @ join_groups ss"

text \<open>The scan for the zero span: the current and the longest span as (start, length).\<close>

fun zero_span :: "nat \<Rightarrow> nat \<times> nat \<Rightarrow> nat \<times> nat \<Rightarrow> u16 list \<Rightarrow> nat \<times> nat" where
  "zero_span i cur longest [] = longest"
| "zero_span i (start, len) longest (s # ss) =
     (if s = 0 then
        let cur = (if len = 0 then i else start, len + 1) in
        zero_span (i + 1) cur (if snd cur > snd longest then cur else longest) ss
      else zero_span (i + 1) (0, 0) longest ss)"

fun segments :: "ipv6 \<Rightarrow> u16 list" where
  "segments (Ipv6 s0 s1 s2 s3 s4 s5 s6 s7) = [s0, s1, s2, s3, s4, s5, s6, s7]"

fun to_ipv4_mapped :: "ipv6 \<Rightarrow> ipv4 option" where
  "to_ipv4_mapped (Ipv6 s0 s1 s2 s3 s4 s5 s6 s7) =
     (if s5 = 0xffff then to_ipv4 (Ipv6 s0 s1 s2 s3 s4 s5 s6 s7) else None)"

definition show_v6 :: "ipv6 \<Rightarrow> string" where
  "show_v6 v = (case to_ipv4_mapped v of
       Some v4 \<Rightarrow> ''::ffff:'' @ show_v4 v4
     | None \<Rightarrow>
         let ss = segments v; (start, len) = zero_span 0 (0, 0) (0, 0) ss in
         if len > 1 then join_groups (take start ss) @ ''::'' @ join_groups (drop (start + len) ss)
         else join_groups ss)"

record socket_addr =
  sock_ip :: ip_addr
  sock_port :: u16

definition show_socket :: "socket_addr \<Rightarrow> string" where
  "show_socket a = (case sock_ip a of
       V4 v \<Rightarrow> show_v4 v @ '':'' @ decimal (unat (sock_port a))
     | V6 v \<Rightarrow> ''['' @ show_v6 v @ '']:'' @ decimal (unat (sock_port a)))"

section \<open>Requests, responses and errors\<close>

datatype http_method = Get | Post

fun method_str :: "http_method \<Rightarrow> string" where
  "method_str Get = ''GET''"
| "method_str Post = ''POST''"

datatype http_error =
    Blocked string block_reason
  | Resolve string
  | BadUrl string
  | TooManyRedirects
  | TimedOut
  | TransportError string

definition MAX_REDIRECTS :: nat where
  "MAX_REDIRECTS = 5"

fun http_error_str :: "http_error \<Rightarrow> string" where
  "http_error_str (Blocked host reason) = ''blocked SSRF target '' @ host @ '': '' @ block_reason_str reason"
| "http_error_str (Resolve msg) = ''dns resolution failed: '' @ msg"
| "http_error_str (BadUrl msg) = ''bad url: '' @ msg"
| "http_error_str TooManyRedirects = ''too many redirects (> '' @ decimal MAX_REDIRECTS @ '')''"
| "http_error_str TimedOut = ''request timed out''"
| "http_error_str (TransportError msg) = ''transport error: '' @ msg"

record http_response =
  resp_status :: u16
  resp_body :: bytes

record hop =
  hop_status :: u16
  hop_location :: "string option"
  hop_body :: bytes

record egress_config =
  egress_allowlist :: "ip_addr list"
  egress_allow_loopback :: bool

definition block_list_only :: egress_config where
  "block_list_only = \<lparr>egress_allowlist = [], egress_allow_loopback = False\<rparr>"

section \<open>The outside world\<close>

text \<open>The parts of a parsed \<open>http::Uri\<close> the client reads.\<close>

record uri =
  uri_scheme :: "string option"
  uri_host :: "string option"
  uri_authority :: "string option"
  uri_port :: "u16 option"
  uri_path_and_query :: "string option"

record request =
  req_method :: string
  req_uri :: string
  req_headers :: "(string \<times> string) list"
  req_body :: bytes

text \<open>
  An awaited operation either completes or is still pending when the deadline of \<open>timeout_at\<close>
  passes, which drops the hop and makes \<open>fetch\<close> return \<open>TimedOut\<close>.
\<close>

datatype 'a awaited = Elapsed | Ready 'a

text \<open>
  What the client calls: URI parsing, the resolver (blocking, hence never cut off by the deadline),
  TCP, TLS, the HTTP/1 handshake, request building and the exchange of one request, whose response
  is its status, its raw \<open>Location\<close> header and its body. \<open>'w\<close> is the state of the outside world
  and \<open>'c\<close> a connection.
\<close>

record ('w, 'c) network =
  parse_uri :: "string \<Rightarrow> string + uri"
  header_to_str :: "bytes \<Rightarrow> string option"
  add_deadline :: "duration \<Rightarrow> 'w \<Rightarrow> 'w option"
  resolve_host :: "string \<Rightarrow> 'w \<Rightarrow> (string + ip_addr list) \<times> 'w"
  tcp_connect :: "socket_addr \<Rightarrow> 'w \<Rightarrow> (string + 'c) awaited \<times> 'w"
  server_name :: "string \<Rightarrow> string + unit"
  tls_connect :: "string \<Rightarrow> 'c \<Rightarrow> 'w \<Rightarrow> (string + 'c) awaited \<times> 'w"
  http_handshake :: "'c \<Rightarrow> 'w \<Rightarrow> (string + 'c) awaited \<times> 'w"
  build_ok :: "request \<Rightarrow> string + unit"
  send_request :: "'c \<Rightarrow> request \<Rightarrow> 'w \<Rightarrow> (string + (u16 \<times> bytes option)) awaited \<times> 'w"
  collect_body :: "'c \<Rightarrow> 'w \<Rightarrow> (string + bytes) awaited \<times> 'w"

datatype wire_event =
    Looked_up string "ip_addr list"
  | Dialled socket_addr

record 'w wire =
  world :: 'w
  wire_log :: "wire_event list"

type_synonym ('w, 'a) fetching = "('w wire, http_error fault, 'a) comp"

definition awaitS :: "(string \<Rightarrow> http_error) \<Rightarrow> ('w \<Rightarrow> (string + 'a) awaited \<times> 'w) \<Rightarrow> ('w, 'a) fetching" where
  "awaitS err m s = (case m (world s) of
       (Elapsed, w) \<Rightarrow> (Inl (Err TimedOut), s\<lparr>world := w\<rparr>)
     | (Ready r, w) \<Rightarrow> (map_err (\<lambda>e. Err (err e)) r, s\<lparr>world := w\<rparr>))"

definition resolveS :: "('w, 'c) network \<Rightarrow> string \<Rightarrow> ('w, ip_addr list) fetching" where
  "resolveS N host s = (case resolve_host N host (world s) of
       (Inl e, w) \<Rightarrow> (Inl (Err (Resolve e)), s\<lparr>world := w\<rparr>)
     | (Inr ips, w) \<Rightarrow> (Inr ips, s\<lparr>world := w, wire_log := wire_log s @ [Looked_up host ips]\<rparr>))"

definition connectS :: "('w, 'c) network \<Rightarrow> socket_addr \<Rightarrow> ('w, 'c) fetching" where
  "connectS N addr s =
     awaitS (\<lambda>e. TransportError (''connect '' @ show_socket addr @ '': '' @ e)) (tcp_connect N addr)
       (s\<lparr>wire_log := wire_log s @ [Dialled addr]\<rparr>)"

section \<open>One hop\<close>

definition build_request :: "('w, 'c) network \<Rightarrow> http_method \<Rightarrow> uri \<Rightarrow> string \<Rightarrow> bytes option
    \<Rightarrow> http_error fault + request" where
  "build_request N meth u host body =
     (let req = \<lparr>req_method = method_str meth,
                 req_uri = (case uri_path_and_query u of None \<Rightarrow> ''/'' | Some pq \<Rightarrow> pq),
                 req_headers = [(''host'', host), (''user-agent'', ''rollout-harness-tool/0.1'')],
                 req_body = (case body of None \<Rightarrow> [] | Some b \<Rightarrow> b)\<rparr>
      in bindE (map_err (\<lambda>e. Err (TransportError (''build request: '' @ e))) (build_ok N req)) (\<lambda>_. Inr req))"

definition drive :: "('w, 'c) network \<Rightarrow> 'c \<Rightarrow> request \<Rightarrow> ('w, hop) fetching" where
  "drive N c req =
     bindS (awaitS (\<lambda>e. TransportError (''send: '' @ e)) (send_request N c req)) (\<lambda>(status, loc).
     bindS (awaitS (\<lambda>e. TransportError (''body: '' @ e)) (collect_body N c)) (\<lambda>body.
     returnS \<lparr>hop_status = status,
              hop_location = (case loc of None \<Rightarrow> None | Some v \<Rightarrow> header_to_str N v),
              hop_body = body\<rparr>))"

definition send_http :: "('w, 'c) network \<Rightarrow> http_method \<Rightarrow> uri \<Rightarrow> string \<Rightarrow> socket_addr \<Rightarrow> bytes option
    \<Rightarrow> ('w, hop) fetching" where
  "send_http N meth u host addr body =
     bindS (connectS N addr) (\<lambda>stream.
     bindS (awaitS (\<lambda>e. TransportError (''handshake: '' @ e)) (http_handshake N stream)) (\<lambda>sender.
     bindS (liftE (build_request N meth u host body)) (\<lambda>req.
     drive N sender req)))"

definition send_https :: "('w, 'c) network \<Rightarrow> http_method \<Rightarrow> uri \<Rightarrow> string \<Rightarrow> socket_addr \<Rightarrow> bytes option
    \<Rightarrow> ('w, hop) fetching" where
  "send_https N meth u host addr body =
     bindS (connectS N addr) (\<lambda>stream.
     bindS (liftE (map_err (\<lambda>e. Err (BadUrl (''invalid TLS server name '' @ host @ '': '' @ e)))
       (server_name N host))) (\<lambda>_.
     bindS (awaitS (\<lambda>e. TransportError (''tls handshake: '' @ e)) (tls_connect N host stream)) (\<lambda>tls.
     bindS (awaitS (\<lambda>e. TransportError (''handshake: '' @ e)) (http_handshake N tls)) (\<lambda>sender.
     bindS (liftE (build_request N meth u host body)) (\<lambda>req.
     drive N sender req)))))"

definition one_hop :: "('w, 'c) network \<Rightarrow> http_method \<Rightarrow> string \<Rightarrow> bytes option \<Rightarrow> egress_config
    \<Rightarrow> ('w, hop) fetching" where
  "one_hop N meth url body egress =
     bindS (liftE (map_err (\<lambda>e. Err (BadUrl e)) (parse_uri N url))) (\<lambda>u.
     let scheme = (case uri_scheme u of None \<Rightarrow> ''http'' | Some sc \<Rightarrow> sc) in
     if scheme \<noteq> ''http'' \<and> scheme \<noteq> ''https''
     then failS (Err (BadUrl (''unsupported scheme: '' @ scheme)))
     else case uri_host u of
       None \<Rightarrow> failS (Err (BadUrl ''missing host''))
     | Some host \<Rightarrow>
         let port = (case uri_port u of Some p \<Rightarrow> p | None \<Rightarrow> if scheme = ''https'' then 443 else 80) in
         bindS (resolveS N host) (\<lambda>ips.
         if ips = [] then failS (Err (Resolve (''no addresses for '' @ host)))
         else
           bindS (liftE (map_err (\<lambda>reason. Err (Blocked host reason))
             (pick_safe_ip ips (egress_allowlist egress) (egress_allow_loopback egress)))) (\<lambda>pinned.
           let addr = \<lparr>sock_ip = pinned, sock_port = port\<rparr> in
           if scheme = ''https'' then send_https N meth u host addr body
           else send_http N meth u host addr body)))"

section \<open>Redirects\<close>

definition resolve_redirect :: "('w, 'c) network \<Rightarrow> string \<Rightarrow> string \<Rightarrow> http_error fault + string" where
  "resolve_redirect N current location =
     (if sublist ''://'' location then Inr location
      else
        bindE (map_err (\<lambda>e. Err (BadUrl e)) (parse_uri N current)) (\<lambda>base.
        let scheme = (case uri_scheme base of None \<Rightarrow> ''http'' | Some sc \<Rightarrow> sc) in
        case uri_authority base of
          None \<Rightarrow> Inl (Err (BadUrl ''redirect base missing authority''))
        | Some authority \<Rightarrow>
            if prefix ''/'' location then Inr (scheme @ ''://'' @ authority @ location)
            else Inr (scheme @ ''://'' @ authority @ ''/'' @ location)))"

text \<open>
  The loop of \<open>fetch\<close>. The counter is a \<open>u8\<close> in the code; it never exceeds six, so it does not wrap.
\<close>

function fetch_loop :: "('w, 'c) network \<Rightarrow> http_method \<Rightarrow> bytes option \<Rightarrow> egress_config \<Rightarrow> string
    \<Rightarrow> nat \<Rightarrow> ('w, http_response) fetching" where
  "fetch_loop N meth body egress current redirects s =
     (case one_hop N meth current body egress s of
        (Inl e, s') \<Rightarrow> (Inl e, s')
      | (Inr resp, s') \<Rightarrow>
          (case (if 300 \<le> hop_status resp \<and> hop_status resp < 400 then hop_location resp else None) of
             None \<Rightarrow> (Inr \<lparr>resp_status = hop_status resp, resp_body = hop_body resp\<rparr>, s')
           | Some loc \<Rightarrow>
               if redirects + 1 > MAX_REDIRECTS then (Inl (Err TooManyRedirects), s')
               else (case resolve_redirect N current loc of
                   Inl e \<Rightarrow> (Inl e, s')
                 | Inr target \<Rightarrow> fetch_loop N meth body egress target (redirects + 1) s')))"
  by pat_completeness auto

termination by (relation "measure (\<lambda>(N, meth, body, egress, current, redirects, s). MAX_REDIRECTS - redirects)") auto

declare fetch_loop.simps [simp del]

text \<open>\<open>Instant::now() + timeout\<close> panics when the sum is not representable.\<close>

definition fetch :: "('w, 'c) network \<Rightarrow> http_method \<Rightarrow> string \<Rightarrow> bytes option \<Rightarrow> egress_config
    \<Rightarrow> duration \<Rightarrow> ('w, http_response) fetching" where
  "fetch N meth url body egress timeout s = (case add_deadline N timeout (world s) of
       None \<Rightarrow> (Inl (Panic ''overflow when adding duration to instant''), s)
     | Some w \<Rightarrow> fetch_loop N meth body egress url 0 (s\<lparr>world := w\<rparr>))"

section \<open>What a fetch may put on the wire\<close>

text \<open>
  The log of one hop: nothing, a lookup, or a lookup followed by one connection to the address
  that \<open>pick_safe_ip\<close> pins from that lookup's answer.
\<close>

fun hop_log :: "egress_config \<Rightarrow> wire_event list \<Rightarrow> bool" where
  "hop_log E [] = True"
| "hop_log E [Looked_up host ips] = True"
| "hop_log E [Looked_up host ips, Dialled a] =
     (pick_safe_ip ips (egress_allowlist E) (egress_allow_loopback E) = Inr (sock_ip a))"
| "hop_log E _ = False"

lemma quiet_await: "keeps (\<lambda>s. wire_log s = L) (awaitS err m)"
  by (auto simp: keeps_def awaitS_def split: prod.splits awaited.splits)

lemma quiet_drive: "keeps (\<lambda>s. wire_log s = L) (drive N c req)"
  unfolding drive_def by (auto intro!: quiet_await keeps_bind)

lemma connect_log: "connectS N addr s = (r, s') \<Longrightarrow> wire_log s' = wire_log s @ [Dialled addr]"
  by (auto simp: connectS_def awaitS_def split: prod.splits awaited.splits)

text \<open>After the connection, nothing more is dialled.\<close>

lemma bind_connect_log:
  assumes "bindS (connectS N addr) k s = (r, s')"
    and "\<And>c. keeps (\<lambda>s. wire_log s = wire_log s0 @ [Dialled addr]) (k c)" and "wire_log s = wire_log s0"
  shows "wire_log s' = wire_log s @ [Dialled addr]"
proof -
  obtain r1 s1 where c: "connectS N addr s = (r1, s1)" by (cases "connectS N addr s")
  then have "wire_log s1 = wire_log s0 @ [Dialled addr]" using connect_log assms(3) by fastforce
  with c assms show ?thesis by (cases r1) (auto simp: bindS_def dest: keepsD)
qed

lemma send_log:
  "send_http N meth u host addr body s = (r, s') \<Longrightarrow> wire_log s' = wire_log s @ [Dialled addr]"
  "send_https N meth u host addr body s = (r, s') \<Longrightarrow> wire_log s' = wire_log s @ [Dialled addr]"
  unfolding send_http_def send_https_def
  by (rule bind_connect_log [where s0 = s], assumption,
      auto intro!: keeps_bind quiet_await quiet_drive)+

lemma resolve_log:
  "resolveS N host s = (Inl e, s') \<Longrightarrow> wire_log s' = wire_log s"
  "resolveS N host s = (Inr ips, s') \<Longrightarrow> wire_log s' = wire_log s @ [Looked_up host ips]"
  by (auto simp: resolveS_def split: prod.splits sum.splits)

text \<open>The part of a hop after the lookup.\<close>

lemma pinned_log:
  assumes "bindS (liftE (map_err f (pick_safe_ip ips (egress_allowlist E) (egress_allow_loopback E))))
      send s = (r, s')"
    and send: "\<And>ip. send ip s = (r, s') \<Longrightarrow>
      wire_log s' = wire_log s @ [Dialled \<lparr>sock_ip = ip, sock_port = port\<rparr>]"
  shows "\<exists>new. wire_log s' = wire_log s @ new \<and> hop_log E (Looked_up host ips # new)"
proof (cases "pick_safe_ip ips (egress_allowlist E) (egress_allow_loopback E)")
  case (Inl reason)
  with assms have "s' = s" by (simp add: bindS_def)
  then show ?thesis by (intro exI [of _ "[]"]) simp
next
  case (Inr pinned)
  let ?addr = "\<lparr>sock_ip = pinned, sock_port = port\<rparr>"
  from Inr assms(1) have "send pinned s = (r, s')" by (simp add: bindS_def)
  with send have "wire_log s' = wire_log s @ [Dialled ?addr]" by blast
  with Inr show ?thesis by (intro exI [of _ "[Dialled ?addr]"]) simp
qed

lemma none_log: "s' = s \<Longrightarrow> \<exists>new. wire_log s' = wire_log s @ new \<and> hop_log E (evs @ new)"
  if "hop_log E evs"
  using that by (intro exI [of _ "[]"]) simp

lemma resolved_log:
  assumes "bindS (resolveS N host) k s = (r, s')"
    and k: "\<And>ips s1. k ips s1 = (r, s') \<Longrightarrow>
      \<exists>new. wire_log s' = wire_log s1 @ new \<and> hop_log E (Looked_up host ips # new)"
  shows "\<exists>new. wire_log s' = wire_log s @ new \<and> hop_log E new"
proof -
  obtain r1 s1 where res: "resolveS N host s = (r1, s1)" by (cases "resolveS N host s")
  show ?thesis
  proof (cases r1)
    case (Inl e)
    with res assms(1) have "s' = s1" by (simp add: bindS_def)
    with res Inl show ?thesis by (intro exI [of _ "[]"]) (simp add: resolve_log)
  next
    case (Inr ips)
    with res assms(1) have "k ips s1 = (r, s')" by (simp add: bindS_def)
    from k [OF this] obtain new where "wire_log s' = wire_log s1 @ new"
      and "hop_log E (Looked_up host ips # new)" by blast
    moreover from res Inr have "wire_log s1 = wire_log s @ [Looked_up host ips]"
      by (simp add: resolve_log)
    ultimately show ?thesis by simp
  qed
qed

lemma one_hop_log:
  assumes "one_hop N meth url body E s = (r, s')"
  shows "\<exists>new. wire_log s' = wire_log s @ new \<and> hop_log E new"
proof (cases "parse_uri N url")
  case (Inl e)
  with assms have "s' = s" by (simp add: one_hop_def bindS_def)
  then show ?thesis by (intro exI [of _ "[]"]) simp
next
  case (Inr u)
  with assms show ?thesis
    unfolding one_hop_def
    by (auto simp: bindS_run(1) Let_def none_log [of _ "[]", simplified] none_log [of _ "[_]", simplified]
        split: if_splits option.splits elim!: resolved_log pinned_log dest: send_log)
qed

lemma fetch_loop_log:
  assumes "fetch_loop N meth body E url n s = (r, s')" and "n \<le> MAX_REDIRECTS"
  shows "\<exists>hops. wire_log s' = wire_log s @ concat hops \<and> list_all (hop_log E) hops
    \<and> length hops + n \<le> MAX_REDIRECTS + 1"
  using assms
proof (induction N meth body E url n s rule: fetch_loop.induct)
  case (1 N meth body E url n s)
  obtain r1 s1 where hop: "one_hop N meth url body E s = (r1, s1)"
    by (cases "one_hop N meth url body E s")
  from one_hop_log [OF hop] obtain new where new: "wire_log s1 = wire_log s @ new" "hop_log E new"
    by blast
  have last_hop: ?case if "s' = s1"
    using that new 1(3) by (intro exI [of _ "[new]"]) simp
  show ?case
  proof (cases "s' = s1")
    case False
    with 1(2) hop obtain resp loc target
      where ok: "r1 = Inr resp" "300 \<le> hop_status resp \<and> hop_status resp < 400"
        "hop_location resp = Some loc" "n + 1 \<le> MAX_REDIRECTS"
        "resolve_redirect N url loc = Inr target"
        and rest: "fetch_loop N meth body E target (n + 1) s1 = (r, s')"
      by (subst (asm) fetch_loop.simps) (auto split: sum.splits option.splits if_splits)
    from 1(1) [OF hop [symmetric] ok(1) _ _ ok(5)] ok rest obtain hops
      where "wire_log s' = wire_log s1 @ concat hops" "list_all (hop_log E) hops"
        "length hops + (n + 1) \<le> MAX_REDIRECTS + 1"
      by auto
    with new show ?thesis by (intro exI [of _ "new # hops"]) simp
  qed (rule last_hop)
qed

lemma hop_log_dialled:
  "hop_log E evs \<Longrightarrow> Dialled a \<in> set evs \<Longrightarrow>
     filter_ip (sock_ip a) (egress_allowlist E) (egress_allow_loopback E) = None"
  by (cases "(E, evs)" rule: hop_log.cases) (auto simp: pick_safe_ip_def dest!: pick_loop_Inr)

lemma fetch_log:
  assumes "fetch N meth url body E timeout s = (r, s')"
  shows "\<exists>hops. wire_log s' = wire_log s @ concat hops \<and> length hops \<le> MAX_REDIRECTS + 1
    \<and> list_all (hop_log E) hops
    \<and> (\<forall>a. Dialled a \<in> set (concat hops) \<longrightarrow>
         filter_ip (sock_ip a) (egress_allowlist E) (egress_allow_loopback E) = None)"
proof (cases "add_deadline N timeout (world s)")
  case None
  with assms show ?thesis by (intro exI [of _ "[]"]) (simp add: fetch_def)
next
  case (Some w)
  with assms have "fetch_loop N meth body E url 0 (s\<lparr>world := w\<rparr>) = (r, s')"
    by (simp add: fetch_def)
  from fetch_loop_log [OF this] obtain hops where hops: "wire_log s' = wire_log s @ concat hops"
      "list_all (hop_log E) hops" "length hops \<le> MAX_REDIRECTS + 1"
    by auto
  then have "\<forall>a. Dialled a \<in> set (concat hops) \<longrightarrow>
      filter_ip (sock_ip a) (egress_allowlist E) (egress_allow_loopback E) = None"
    using hop_log_dialled by (fastforce simp: list_all_iff)
  with hops show ?thesis by blast
qed

text \<open>
  C18. Whatever the resolver, the servers and the URLs are, a fetch makes at most six hops, and each
  hop performs at most one name lookup followed by at most one connection, to the first address of
  that very lookup's answer that passes the filter. So no redirect and no second resolution can
  lead to a connection to a refused address.
\<close>

theorem fetch_dials_pinned_addresses:
  assumes "fetch N meth url body E timeout s = (r, s')"
  shows "\<exists>hops. wire_log s' = wire_log s @ concat hops \<and> length hops \<le> MAX_REDIRECTS + 1
    \<and> list_all (hop_log E) hops
    \<and> (\<forall>a. Dialled a \<in> set (concat hops) \<longrightarrow>
         filter_ip (sock_ip a) (egress_allowlist E) (egress_allow_loopback E) = None)"
  using assms by (rule fetch_log)

text \<open>
  A network for the witness: \<open>a.example\<close> resolves to a private and a public address, its server
  redirects to \<open>http://imds/latest\<close>, and \<open>imds\<close> resolves to the metadata address.
\<close>

definition demo_uri :: "string \<Rightarrow> string + uri" where
  "demo_uri url =
     (if url = ''http://a.example/'' then Inr \<lparr>uri_scheme = Some ''http'', uri_host = Some ''a.example'',
        uri_authority = Some ''a.example'', uri_port = None, uri_path_and_query = Some ''/''\<rparr>
      else if url = ''http://imds/latest'' then Inr \<lparr>uri_scheme = Some ''http'', uri_host = Some ''imds'',
        uri_authority = Some ''imds'', uri_port = None, uri_path_and_query = Some ''/latest''\<rparr>
      else Inl ''invalid uri'')"

definition demo_ips :: "ip_addr list" where
  "demo_ips = [V4 (Ipv4 10 0 0 1), V4 (Ipv4 93 184 216 34)]"

definition demo_imds :: "ip_addr list" where
  "demo_imds = [V4 (Ipv4 169 254 169 254)]"

definition demo_network :: "(unit, unit) network" where
  "demo_network =
     \<lparr>parse_uri = demo_uri,
      header_to_str = (\<lambda>b. Some (map (\<lambda>x. char_of (unat x)) b)),
      add_deadline = (\<lambda>_ w. Some w),
      resolve_host = (\<lambda>host w. (if host = ''a.example'' then Inr demo_ips else Inr demo_imds, w)),
      tcp_connect = (\<lambda>_ w. (Ready (Inr ()), w)),
      server_name = (\<lambda>_. Inr ()),
      tls_connect = (\<lambda>_ c w. (Ready (Inr c), w)),
      http_handshake = (\<lambda>c w. (Ready (Inr c), w)),
      build_ok = (\<lambda>_. Inr ()),
      send_request = (\<lambda>c req w.
        (Ready (Inr (302, Some (map (\<lambda>c. of_nat (of_char c)) ''http://imds/latest''))), w)),
      collect_body = (\<lambda>c w. (Ready (Inr []), w))\<rparr>"

definition demo_wire :: "unit wire" where
  "demo_wire = \<lparr>world = (), wire_log = []\<rparr>"

lemma demo_fetch:
  "fetch demo_network Get ''http://a.example/'' None block_list_only 10 demo_wire =
     (Inl (Err (Blocked ''imds'' LinkLocal)),
      \<lparr>world = (), wire_log = [Looked_up ''a.example'' demo_ips,
         Dialled \<lparr>sock_ip = V4 (Ipv4 93 184 216 34), sock_port = 80\<rparr>,
         Looked_up ''imds'' demo_imds]\<rparr>)"
  by code_simp

theorem fetch_dials_pinned_addresses_witness:
  "\<exists>hops. wire_log (snd (fetch demo_network Get ''http://a.example/'' None block_list_only 10 demo_wire))
      = wire_log demo_wire @ concat hops \<and> length hops \<le> MAX_REDIRECTS + 1
    \<and> list_all (hop_log block_list_only) hops
    \<and> (\<forall>a. Dialled a \<in> set (concat hops) \<longrightarrow>
         filter_ip (sock_ip a) (egress_allowlist block_list_only)
           (egress_allow_loopback block_list_only) = None)"
  using fetch_dials_pinned_addresses [OF demo_fetch] by (simp only: demo_fetch snd_conv)

end
