(* ===== verification/Sandbox.thy ===== *)
theory Sandbox
  imports Core_Types
begin

text \<open>
  The exec sandbox of the tool harness (\<open>rollout-harness-tool/src/sandbox\<close>): the seccomp filter
  (\<open>seccomp.rs\<close>), the cgroup subtree (\<open>cgroup.rs\<close>), the capability root of the file tools
  (\<open>capfs.rs\<close>) and the launcher that applies the layers and waits for the child (\<open>launcher.rs\<close>).
  The kernel is a parameter: every call to it is one \<open>os_call\<close>, answered by an oracle and recorded
  with its outcome in a log. Time passes by arbitrary amounts at every clock reading, and a sleep
  takes at least as long as was asked for.
\<close>

unbundle bit_operations_syntax

type_synonym path = string

section \<open>The seccomp filter\<close>

text \<open>The rules of the \<open>seccompiler\<close> crate: conditions on arguments, all of which must hold.\<close>

datatype seccomp_action = Allow | Errno u32

datatype cmp_op = MaskedEq u64

record seccomp_condition =
  cond_arg :: nat
  cond_op :: cmp_op
  cond_value :: u64

type_synonym seccomp_rule = "seccomp_condition list"
type_synonym syscall = string

record seccomp_filter =
  filter_rules :: "(syscall \<times> seccomp_rule list) list"
  mismatch_action :: seccomp_action
  match_action :: seccomp_action

text \<open>What the crate may refuse: the target architecture and each constructor.\<close>

record seccomp_crate =
  arch_of_target :: "string + unit"
  condition_new :: "seccomp_condition \<Rightarrow> string + unit"
  rule_new :: "seccomp_rule \<Rightarrow> string + unit"
  filter_new :: "seccomp_filter \<Rightarrow> string + unit"
  bpf_compile :: "seccomp_filter \<Rightarrow> string + unit"

definition EPERM :: u32 where
  "EPERM = 1"

definition CLONE_NEWUSER :: u64 where
  "CLONE_NEWUSER = 0x10000000"

definition ALLOWLIST :: "syscall list" where
  "ALLOWLIST =
     [''clone3'', ''clone'',
      ''openat2'', ''openat'', ''read'', ''write'', ''close'', ''lseek'', ''pread64'', ''pwrite64'', ''faccessat2'',
      ''rseq'', ''arch_prctl'', ''set_robust_list'', ''set_tid_address'', ''futex'', ''futex_waitv'', ''prctl'',
      ''rt_sigprocmask'', ''rt_sigaction'', ''rt_sigreturn'', ''sigaltstack'', ''pidfd_send_signal'',
      ''mmap'', ''munmap'', ''mprotect'', ''brk'', ''madvise'', ''mremap'',
      ''exit'', ''exit_group'', ''getpid'', ''gettid'', ''getrandom'', ''clock_gettime'', ''nanosleep'',
      ''clock_nanosleep'', ''getuid'', ''geteuid'', ''getgid'', ''getegid'',
      ''execve'', ''execveat'',
      ''getdents64'', ''statx'', ''newfstatat'', ''fstat'', ''readlinkat'',
      ''epoll_create1'', ''epoll_ctl'', ''epoll_wait'', ''pipe2'', ''dup'', ''dup3'', ''fcntl'']"

definition clone_condition :: seccomp_condition where
  "clone_condition = \<lparr>cond_arg = 0, cond_op = MaskedEq CLONE_NEWUSER, cond_value = 0\<rparr>"

text \<open>\<open>BTreeMap::insert\<close> on the rule table.\<close>

definition rule_insert :: "syscall \<Rightarrow> seccomp_rule list \<Rightarrow> (syscall \<times> seccomp_rule list) list
    \<Rightarrow> (syscall \<times> seccomp_rule list) list" where
  "rule_insert = AList.update"

fun build_rules :: "seccomp_crate \<Rightarrow> syscall list \<Rightarrow> (syscall \<times> seccomp_rule list) list
    \<Rightarrow> (syscall \<times> seccomp_rule list) list res" where
  "build_rules C [] rules = Inr rules"
| "build_rules C (sc # scs) rules =
     (if sc = ''clone'' \<or> sc = ''clone3'' then
        bindE (map_err (\<lambda>e. config_invalid (''clone flag condition: '' @ e)) (condition_new C clone_condition)) (\<lambda>_.
        bindE (map_err (\<lambda>e. config_invalid (''clone rule: '' @ e)) (rule_new C [clone_condition])) (\<lambda>_.
        build_rules C scs (rule_insert sc [[clone_condition]] rules)))
      else build_rules C scs (rule_insert sc [] rules))"

definition build_filter :: "seccomp_crate \<Rightarrow> seccomp_filter res" where
  "build_filter C =
     bindE (map_err (\<lambda>e. config_invalid (''unsupported seccomp target arch: '' @ e)) (arch_of_target C)) (\<lambda>_.
     bindE (build_rules C ALLOWLIST []) (\<lambda>rules.
     let f = \<lparr>filter_rules = rules, mismatch_action = Errno EPERM, match_action = Allow\<rparr> in
     bindE (map_err (\<lambda>e. config_invalid (''seccomp filter build: '' @ e)) (filter_new C f)) (\<lambda>_.
     bindE (map_err (\<lambda>e. config_invalid (''seccomp bpf compile: '' @ e)) (bpf_compile C f)) (\<lambda>_.
     Inr f))))"

text \<open>
  The documented decision of a \<open>SeccompFilter\<close>: a system call with an empty rule list matches, one
  with rules matches when all conditions of one rule hold, and everything else is a mismatch.
\<close>

fun condition_holds :: "u64 list \<Rightarrow> seccomp_condition \<Rightarrow> bool" where
  "condition_holds args c = (case cond_op c of MaskedEq m \<Rightarrow> args ! cond_arg c AND m = cond_value c)"

definition seccomp_decide :: "seccomp_filter \<Rightarrow> syscall \<Rightarrow> u64 list \<Rightarrow> seccomp_action" where
  "seccomp_decide f sc args = (case map_of (filter_rules f) sc of
       None \<Rightarrow> mismatch_action f
     | Some rules \<Rightarrow> if rules = [] \<or> list_ex (list_all (condition_holds args)) rules then match_action f
                     else mismatch_action f)"

section \<open>Calls to the kernel\<close>

datatype resource = Cpu | As | Nofile | Nproc

datatype fs_access = All_access | Read_access

datatype os_call =
    Open_write path
  | Create_dir_all path
  | Write_file path string
  | Remove_dir path
  | Fork
  | Chdir path
  | Unshare
  | Setrlimit resource u64
  | Landlock "(path \<times> fs_access) list"
  | Apply_filter seccomp_filter
  | Execve path "string list" "(string \<times> string) list"
  | Try_wait
  | Kill_child
  | Wait_child

text \<open>
  An exit status is the exit code, or none for a signal. \<open>elapsed\<close> is the time that passed before a
  clock reading and \<open>oversleep\<close> what a sleep took beyond its duration; \<open>instant_max\<close> is the largest
  \<open>Instant\<close>.
\<close>

record 'w os =
  os_answer :: "os_call \<Rightarrow> 'w \<Rightarrow> (string + unit) \<times> 'w"
  os_process_id :: "'w \<Rightarrow> u32"
  os_child_id :: "'w \<Rightarrow> u32"
  os_try_wait :: "'w \<Rightarrow> (string + int option option) \<times> 'w"
  os_wait :: "'w \<Rightarrow> (string + int option) \<times> 'w"
  os_stdout :: "'w \<Rightarrow> bytes \<times> 'w"
  os_stderr :: "'w \<Rightarrow> bytes \<times> 'w"
  elapsed :: "'w \<Rightarrow> nat"
  oversleep :: "'w \<Rightarrow> nat"
  instant_max :: nat

record 'w host =
  host_world :: 'w
  host_log :: "(os_call \<times> bool) list"
  host_now :: nat

type_synonym ('w, 'a) hosted = "('w host, core_error fault, 'a) comp"

definition answered :: "os_call \<Rightarrow> (string + 'a) \<times> 'w \<Rightarrow> ('w host, string, 'a) comp" where
  "answered c rw s = (fst rw, s\<lparr>host_world := snd rw, host_log := host_log s @ [(c, \<not> isl (fst rw))]\<rparr>)"

definition callS :: "'w os \<Rightarrow> os_call \<Rightarrow> ('w host, string, unit) comp" where
  "callS K c s = answered c (os_answer K c (host_world s)) s"

definition try_waitS :: "'w os \<Rightarrow> ('w host, string, int option option) comp" where
  "try_waitS K s = answered Try_wait (os_try_wait K (host_world s)) s"

definition waitS :: "'w os \<Rightarrow> ('w host, string, int option) comp" where
  "waitS K s = answered Wait_child (os_wait K (host_world s)) s"

definition orS :: "(string \<Rightarrow> core_error fault) \<Rightarrow> ('s, string, 'a) comp \<Rightarrow> ('s, core_error fault, 'a) comp" where
  "orS f m s = (case m s of (r, s') \<Rightarrow> (map_err f r, s'))"

text \<open>\<open>let _ = call;\<close>\<close>

definition ignoreS :: "('s, string, 'a) comp \<Rightarrow> ('s, 'e, unit) comp" where
  "ignoreS m s = (Inr (), snd (m s))"

definition tick :: "'w os \<Rightarrow> 'w host \<Rightarrow> 'w host" where
  "tick K s = s\<lparr>host_now := host_now s + elapsed K (host_world s)\<rparr>"

definition sleep :: "'w os \<Rightarrow> duration \<Rightarrow> 'w host \<Rightarrow> 'w host" where
  "sleep K d s = s\<lparr>host_now := host_now s + d + oversleep K (host_world s)\<rparr>"

section \<open>The cgroup subtree\<close>

definition cgroup_root :: path where
  "cgroup_root = ''/sys/fs/cgroup''"

definition delegated_tree :: "'w os \<Rightarrow> ('w host, 'e, path option) comp" where
  "delegated_tree K s = (case callS K (Open_write (cgroup_root @ ''/cgroup.subtree_control'')) s of
       (Inl _, s') \<Rightarrow> (Inr None, s') | (Inr _, s') \<Rightarrow> (Inr (Some cgroup_root), s'))"

definition write_limit :: "'w os \<Rightarrow> path \<Rightarrow> u64 option \<Rightarrow> ('w host, string, unit) comp" where
  "write_limit K file limit = (case limit of
       None \<Rightarrow> returnS () | Some n \<Rightarrow> callS K (Write_file file (decimal (unat n))))"

definition cgroup_create :: "'w os \<Rightarrow> string \<Rightarrow> u64 option \<Rightarrow> u64 option \<Rightarrow> ('w host, string, path option) comp" where
  "cgroup_create K name memory_max pids_max =
     bindS (delegated_tree K) (\<lambda>tree. case tree of
       None \<Rightarrow> returnS None
     | Some parent \<Rightarrow>
         let dir = parent @ ''/rollout-tool-'' @ name in
         bindS (callS K (Create_dir_all dir)) (\<lambda>_.
         bindS (write_limit K (dir @ ''/memory.max'') memory_max) (\<lambda>_.
         bindS (write_limit K (dir @ ''/pids.max'') pids_max) (\<lambda>_.
         returnS (Some dir)))))"

definition join_pid :: "'w os \<Rightarrow> path \<Rightarrow> u32 \<Rightarrow> ('w host, string, unit) comp" where
  "join_pid K dir pid = callS K (Write_file (dir @ ''/cgroup.procs'') (decimal (unat pid)))"

definition cgroup_drop :: "'w os \<Rightarrow> path option \<Rightarrow> 'w host \<Rightarrow> 'w host" where
  "cgroup_drop K cg s = (case cg of None \<Rightarrow> s | Some dir \<Rightarrow> snd (callS K (Remove_dir dir) s))"

section \<open>The launcher\<close>

record rlimits =
  cpu_secs :: u64
  as_bytes :: u64
  nofile :: u64
  nproc :: u64

record exec_request =
  exact_path :: path
  argv :: "string list"
  exec_timeout :: duration
  exec_tempdir :: path
  exec_rlimits :: rlimits
  exec_memory_max :: "u64 option"
  exec_pids_max :: "u64 option"

record exec_result =
  exit_code :: int
  exec_stdout :: bytes
  exec_stderr :: bytes
  timed_out :: bool

definition landlock_rules :: "path \<Rightarrow> path \<Rightarrow> (path \<times> fs_access) list" where
  "landlock_rules tempdir binary = [(tempdir, All_access), (binary, Read_access), (''/usr'', Read_access)]"

text \<open>The \<open>pre_exec\<close> hook: namespaces (best effort), limits, landlock, seccomp last.\<close>

definition pre_exec :: "'w os \<Rightarrow> exec_request \<Rightarrow> seccomp_filter \<Rightarrow> ('w host, string, unit) comp" where
  "pre_exec K req bpf =
     bindS (ignoreS (callS K Unshare)) (\<lambda>_.
     bindS (callS K (Setrlimit Cpu (cpu_secs (exec_rlimits req)))) (\<lambda>_.
     bindS (callS K (Setrlimit As (as_bytes (exec_rlimits req)))) (\<lambda>_.
     bindS (callS K (Setrlimit Nofile (nofile (exec_rlimits req)))) (\<lambda>_.
     bindS (callS K (Setrlimit Nproc (nproc (exec_rlimits req)))) (\<lambda>_.
     bindS (callS K (Landlock (landlock_rules (exec_tempdir req) (exact_path req)))) (\<lambda>_.
     callS K (Apply_filter bpf)))))))"

definition exec_env :: "exec_request \<Rightarrow> (string \<times> string) list" where
  "exec_env req = [(''PATH'', ''/usr/bin:/bin''), (''HOME'', exec_tempdir req), (''TMPDIR'', exec_tempdir req)]"

text \<open>
  \<open>Command::spawn\<close>: the child changes its directory, runs the hook and executes the binary; an
  error of any of these reaches the parent.
\<close>

definition spawn :: "'w os \<Rightarrow> exec_request \<Rightarrow> seccomp_filter \<Rightarrow> ('w host, string, unit) comp" where
  "spawn K req bpf =
     bindS (callS K Fork) (\<lambda>_.
     bindS (callS K (Chdir (exec_tempdir req))) (\<lambda>_.
     bindS (pre_exec K req bpf) (\<lambda>_.
     callS K (Execve (exact_path req) (drop 1 (argv req)) (exec_env req)))))"

definition poll_interval :: duration where
  "poll_interval = from_millis 5"

lemma answered_now: "answered c rw s = (r, s') \<Longrightarrow> host_now s' = host_now s"
  by (auto simp: answered_def)

lemma poll_interval_pos: "0 < poll_interval"
  by (simp add: poll_interval_def from_millis_def)

text \<open>The polling loop of \<open>wait_with_timeout\<close>: the status and whether the child was killed.\<close>

function wait_loop :: "'w os \<Rightarrow> nat \<Rightarrow> ('w, int option \<times> bool) hosted" where
  "wait_loop K deadline s = (case try_waitS K s of
       (Inl e, s1) \<Rightarrow> (Inl (config_invalid (''try_wait: '' @ e)), s1)
     | (Inr (Some status), s1) \<Rightarrow> (Inr (status, False), s1)
     | (Inr None, s1) \<Rightarrow>
         let s2 = tick K s1 in
         if deadline \<le> host_now s2 then
           bindS (ignoreS (callS K Kill_child)) (\<lambda>_.
           bindS (orS (\<lambda>e. config_invalid (''wait after kill: '' @ e)) (waitS K)) (\<lambda>status.
           returnS (status, True))) s2
         else wait_loop K deadline (sleep K poll_interval s2))"
  by pat_completeness auto

termination
proof (relation "measure (\<lambda>(K, deadline, s). deadline - host_now s)")
  fix K :: "'w os" and deadline s r s1 v s2
  assume "(r, s1) = try_waitS K s" "s2 = tick K s1" "\<not> deadline \<le> host_now s2"
  moreover from this have "host_now s1 = host_now s" by (simp add: try_waitS_def answered_now [OF sym])
  ultimately have "host_now s < deadline" and "host_now s < host_now (sleep K poll_interval s2)"
    using poll_interval_pos by (auto simp: sleep_def tick_def)
  then show "((K, deadline, sleep K poll_interval s2), K, deadline, s)
      \<in> measure (\<lambda>(K, deadline, s). deadline - host_now s)"
    by simp
qed simp

declare wait_loop.simps [simp del]

definition wait_with_timeout :: "'w os \<Rightarrow> duration \<Rightarrow> ('w, exec_result) hosted" where
  "wait_with_timeout K timeout s =
     (let s0 = tick K s; deadline = host_now s0 + timeout in
      if instant_max K < deadline then (Inl (Panic ''overflow when adding duration to instant''), s0)
      else bindS (wait_loop K deadline) (\<lambda>(status, killed) s1.
        let (out, w1) = os_stdout K (host_world s1); (err, w2) = os_stderr K w1 in
        (Inr \<lparr>exit_code = (case status of Some c \<Rightarrow> c | None \<Rightarrow> - 1), exec_stdout = out,
              exec_stderr = err, timed_out = killed\<rparr>, s1\<lparr>host_world := w2\<rparr>)) s0)"

text \<open>The \<open>CgroupSubtree\<close> is dropped on every way out.\<close>

definition with_cgroup :: "'w os \<Rightarrow> path option \<Rightarrow> ('w, 'a) hosted \<Rightarrow> ('w, 'a) hosted" where
  "with_cgroup K cg m s = (case m s of (r, s') \<Rightarrow> (r, cgroup_drop K cg s'))"

definition launch :: "'w os \<Rightarrow> seccomp_crate \<Rightarrow> exec_request \<Rightarrow> ('w, exec_result) hosted" where
  "launch K C req s =
     bindS (orS (\<lambda>e. config_invalid (''cgroup setup: '' @ e))
       (cgroup_create K (decimal (unat (os_process_id K (host_world s)))) (exec_memory_max req) (exec_pids_max req)))
     (\<lambda>cgroup. with_cgroup K cgroup
       (bindS (liftE (build_filter C)) (\<lambda>bpf.
        bindS (orS (\<lambda>e. config_invalid (''spawn '' @ exact_path req @ '': '' @ e)) (spawn K req bpf)) (\<lambda>_.
        bindS (case cgroup of
            None \<Rightarrow> returnS ()
          | Some dir \<Rightarrow> (\<lambda>s. let pid = os_child_id K (host_world s) in
              if unat pid < 2 ^ 31 then ignoreS (join_pid K dir pid) s else returnS () s)) (\<lambda>_.
        wait_with_timeout K (exec_timeout req)))))) s"

section \<open>The capability root of the file tools\<close>

text \<open>\<open>Path::components\<close> on Unix: empty and inner \<open>.\<close> components are skipped.\<close>

datatype component = RootDir | CurDir | ParentDir | Normal string

fun split_slash :: "string \<Rightarrow> string \<Rightarrow> string list" where
  "split_slash acc [] = [rev acc]"
| "split_slash acc (c # cs) = (if c = CHR ''/'' then rev acc # split_slash [] cs else split_slash (c # acc) cs)"

definition component_of :: "string \<Rightarrow> component option" where
  "component_of p = (if p = [] \<or> p = ''.'' then None else if p = ''..'' then Some ParentDir else Some (Normal p))"

definition is_absolute :: "path \<Rightarrow> bool" where
  "is_absolute p = prefix ''/'' p"

definition components :: "path \<Rightarrow> component list" where
  "components p =
     (if is_absolute p then [RootDir]
      else if p = ''.'' \<or> prefix ''./'' p then [CurDir] else [])
     @ List.map_filter component_of (split_slash [] p)"

definition reject_escape :: "path \<Rightarrow> unit res" where
  "reject_escape rel =
     (if is_absolute rel then Inl (config_invalid (''absolute path rejected: '' @ rel))
      else if list_ex (\<lambda>c. c = ParentDir \<or> c = RootDir) (components rel)
      then Inl (config_invalid (''path escape rejected: '' @ rel))
      else Inr ())"

text \<open>The directory calls of \<open>cap_std\<close>: open a root, read and write below it.\<close>

record 'w cap_std =
  cap_open :: "path \<Rightarrow> 'w \<Rightarrow> (string + unit) \<times> 'w"
  cap_read :: "path \<Rightarrow> path \<Rightarrow> 'w \<Rightarrow> (string + bytes) \<times> 'w"
  cap_write :: "path \<Rightarrow> path \<Rightarrow> bytes \<Rightarrow> 'w \<Rightarrow> (string + unit) \<times> 'w"

definition on_world :: "('w \<Rightarrow> (string + 'a) \<times> 'w) \<Rightarrow> ('w host, string, 'a) comp" where
  "on_world f s = (case f (host_world s) of (r, w) \<Rightarrow> (r, s\<lparr>host_world := w\<rparr>))"

definition cap_root_open :: "'w cap_std \<Rightarrow> path \<Rightarrow> ('w, unit) hosted" where
  "cap_root_open F root =
     orS (\<lambda>e. config_invalid (''cap-std open root '' @ root @ '': '' @ e)) (on_world (cap_open F root))"

definition cap_root_read :: "'w cap_std \<Rightarrow> path \<Rightarrow> path \<Rightarrow> ('w, bytes) hosted" where
  "cap_root_read F root rel =
     bindS (liftE (reject_escape rel)) (\<lambda>_.
     orS (\<lambda>e. config_invalid (''cap-std read '' @ rel @ '': '' @ e)) (on_world (cap_read F root rel)))"

definition cap_root_write :: "'w cap_std \<Rightarrow> path \<Rightarrow> path \<Rightarrow> bytes \<Rightarrow> ('w, unit) hosted" where
  "cap_root_write F root rel contents =
     bindS (liftE (reject_escape rel)) (\<lambda>_.
     orS (\<lambda>e. config_invalid (''cap-std write '' @ rel @ '': '' @ e)) (on_world (cap_write F root rel contents)))"

section \<open>What the filter decides\<close>

lemma build_rules_map:
  "build_rules C scs rules = Inr rules' \<Longrightarrow> map_of rules' sc =
     (if sc \<in> set scs then Some (if sc = ''clone'' \<or> sc = ''clone3'' then [[clone_condition]] else [])
      else map_of rules sc)"
  by (induction scs arbitrary: rules) (auto simp: rule_insert_def update_conv' comp_iff split: if_splits)

text \<open>
  Everything outside the allow list is answered with \<open>EPERM\<close>, and of the list only \<open>clone\<close> and
  \<open>clone3\<close> depend on their first argument, whose \<open>CLONE_NEWUSER\<close> bit must be clear.
\<close>

lemma seccomp_decision:
  assumes "build_filter C = Inr f"
  shows "seccomp_decide f sc args =
    (if sc \<in> set ALLOWLIST \<and> ((sc = ''clone'' \<or> sc = ''clone3'') \<longrightarrow> args ! 0 AND CLONE_NEWUSER = 0)
     then Allow else Errno EPERM)"
proof -
  from assms obtain rules where rules: "build_rules C ALLOWLIST [] = Inr rules"
    and f: "f = \<lparr>filter_rules = rules, mismatch_action = Errno EPERM, match_action = Allow\<rparr>"
    by (auto simp: build_filter_def Let_def comp_iff)
  from build_rules_map [OF rules, of sc] show ?thesis
    by (auto simp: seccomp_decide_def f clone_condition_def)
qed

definition denied_syscalls :: "syscall list" where
  "denied_syscalls = [''ptrace'', ''mount'', ''umount2'', ''keyctl'', ''add_key'', ''request_key'', ''bpf'',
     ''socket'', ''connect'', ''bind'', ''unshare'']"

lemma denied_not_listed: "list_all (\<lambda>sc. sc \<notin> set ALLOWLIST) denied_syscalls"
  by code_simp

lemma seccomp_denies:
  "build_filter C = Inr f \<Longrightarrow> sc \<in> set denied_syscalls \<Longrightarrow> seccomp_decide f sc args = Errno EPERM"
  using denied_not_listed by (simp add: seccomp_decision list_all_iff)

section \<open>No execution outside the layers\<close>

text \<open>What a computation appends to the log.\<close>

definition logs :: "((os_call \<times> bool) list \<Rightarrow> bool) \<Rightarrow> ('w host, 'e, 'a) comp \<Rightarrow> bool" where
  "logs P m \<longleftrightarrow> (\<forall>s r s'. m s = (r, s') \<longrightarrow> (\<exists>new. host_log s' = host_log s @ new \<and> P new))"

lemma logsD: "logs P m \<Longrightarrow> m s = (r, s') \<Longrightarrow> \<exists>new. host_log s' = host_log s @ new \<and> P new"
  by (auto simp: logs_def)

lemma logs_same: "P [] \<Longrightarrow> (\<And>s r s'. m s = (r, s') \<Longrightarrow> host_log s' = host_log s) \<Longrightarrow> logs P m"
  by (fastforce simp: logs_def)

definition closed :: "('a list \<Rightarrow> bool) \<Rightarrow> bool" where
  "closed P \<longleftrightarrow> P [] \<and> (\<forall>xs ys. P xs \<longrightarrow> P ys \<longrightarrow> P (xs @ ys))"

lemma logs_bind:
  assumes "closed P" "logs P m" "\<And>a. logs P (f a)"
  shows "logs P (bindS m f)"
  unfolding logs_def
proof (intro allI impI)
  fix s r s'
  assume run: "bindS m f s = (r, s')"
  obtain r1 s1 where m: "m s = (r1, s1)" by (cases "m s")
  with assms(2) obtain new1 where new1: "host_log s1 = host_log s @ new1" "P new1"
    using logsD by blast
  show "\<exists>new. host_log s' = host_log s @ new \<and> P new"
  proof (cases r1)
    case (Inl e)
    with m run new1 show ?thesis by (auto simp: bindS_def)
  next
    case (Inr a)
    with m run have "f a s1 = (r, s')" by (simp add: bindS_def)
    with assms(3) obtain new2 where "host_log s' = host_log s1 @ new2" "P new2"
      by (fastforce simp: logs_def)
    with new1 assms(1) show ?thesis by (intro exI [of _ "new1 @ new2"]) (simp add: closed_def)
  qed
qed

lemma logs_pure: "closed P \<Longrightarrow> logs P (returnS a)" "closed P \<Longrightarrow> logs P (failS e)"
    "closed P \<Longrightarrow> logs P (liftE x)"
  by (auto simp: logs_def closed_def)

lemma logs_call: "(\<And>ok. P [(c, ok)]) \<Longrightarrow> logs P (callS K c)"
  by (auto simp: logs_def callS_def answered_def)

lemma logs_wait: "(\<And>ok. P [(Wait_child, ok)]) \<Longrightarrow> logs P (waitS K)"
    "(\<And>ok. P [(Try_wait, ok)]) \<Longrightarrow> logs P (try_waitS K)"
  by (auto simp: logs_def waitS_def try_waitS_def answered_def)

lemma logs_or: "logs P m \<Longrightarrow> logs P (orS f m)"
  by (fastforce simp: logs_def orS_def split: prod.splits)

lemma logs_ignore: "logs P m \<Longrightarrow> logs P (ignoreS m)"
  unfolding logs_def ignoreS_def by (metis Pair_inject prod.collapse)

lemma tick_log [simp]: "host_log (tick K s) = host_log s"
  by (simp add: tick_def)

lemma sleep_log [simp]: "host_log (sleep K d s) = host_log s"
  by (simp add: sleep_def)

lemmas logs_rules = logs_bind logs_pure logs_call logs_or logs_ignore logs_wait

text \<open>The events that must directly precede an execution, and a log that keeps to them.\<close>

definition layers :: "exec_request \<Rightarrow> seccomp_filter \<Rightarrow> (os_call \<times> bool) list" where
  "layers req bpf =
     [(Setrlimit Cpu (cpu_secs (exec_rlimits req)), True), (Setrlimit As (as_bytes (exec_rlimits req)), True),
      (Setrlimit Nofile (nofile (exec_rlimits req)), True), (Setrlimit Nproc (nproc (exec_rlimits req)), True),
      (Landlock (landlock_rules (exec_tempdir req) (exact_path req)), True), (Apply_filter bpf, True)]"

definition execs_layered :: "seccomp_crate \<Rightarrow> (exec_request \<Rightarrow> bool) \<Rightarrow> (os_call \<times> bool) list \<Rightarrow> bool" where
  "execs_layered C R l \<longleftrightarrow> (\<forall>before binary args env ok after.
     l = before @ (Execve binary args env, ok) # after \<longrightarrow>
     (\<exists>req bpf. R req \<and> build_filter C = Inr bpf \<and> binary = exact_path req \<and> args = drop 1 (argv req)
        \<and> env = exec_env req \<and> suffix (layers req bpf) before))"

fun is_exec :: "os_call \<times> bool \<Rightarrow> bool" where
  "is_exec (Execve p a e, ok) = True"
| "is_exec _ = False"

lemma execs_layered_quiet: "list_all (\<lambda>e. \<not> is_exec e) l \<Longrightarrow> execs_layered C R l"
  by (auto simp: execs_layered_def)

lemma execs_layered_append:
  assumes "execs_layered C R xs" "execs_layered C R ys"
  shows "execs_layered C R (xs @ ys)"
  unfolding execs_layered_def
proof (intro allI impI)
  fix before :: "(os_call \<times> bool) list" and binary args env and ok :: bool and after
  let ?e = "(Execve binary args env, ok)"
  let ?ok = "\<lambda>before. \<exists>req bpf. R req \<and> build_filter C = Inr bpf \<and> binary = exact_path req
    \<and> args = drop 1 (argv req) \<and> env = exec_env req \<and> suffix (layers req bpf) before"
  assume "xs @ ys = before @ ?e # after"
  then consider us where "xs = before @ ?e # us" | us where "ys = us @ ?e # after" "before = xs @ us"
    by (auto simp: append_eq_append_conv2 append_eq_Cons_conv)
  then show "?ok before"
  proof cases
    case 1
    then show ?thesis using assms(1) unfolding execs_layered_def by blast
  next
    case 2
    then have "?ok us" using assms(2) unfolding execs_layered_def by blast
    then show ?thesis unfolding 2(2) by (blast intro: suffix_appendI)
  qed
qed

lemma closed_layered: "closed (execs_layered C R)"
  by (auto simp: closed_def execs_layered_append intro: execs_layered_quiet)

lemma logs_quiet_call:
  "\<not> is_exec (c, True) \<Longrightarrow> logs (execs_layered C R) (callS K c)"
  by (rule logs_call, rule execs_layered_quiet, cases c) simp_all

lemma callS_Inr: "callS K c s = (Inr u, s') \<Longrightarrow> host_log s' = host_log s @ [(c, True)]"
  by (auto simp: callS_def answered_def)

lemma pre_exec_log:
  "pre_exec K req bpf s = (Inr u, s') \<Longrightarrow>
     \<exists>ok. host_log s' = host_log s @ (Unshare, ok) # layers req bpf"
  unfolding pre_exec_def layers_def
  by (auto simp: comp_iff ignoreS_def callS_def [of K Unshare] answered_def dest!: callS_Inr)

lemma closed_list_all: "closed (list_all P)"
  by (simp add: closed_def)

lemma pre_exec_quiet: "logs (list_all (\<lambda>e. \<not> is_exec e)) (pre_exec K req bpf)"
  unfolding pre_exec_def by (intro logs_rules closed_list_all) simp_all

lemma layered_exec:
  assumes "R req" "build_filter C = Inr bpf" "list_all (\<lambda>e. \<not> is_exec e) xs"
  shows "execs_layered C R (xs @ layers req bpf
    @ [(Execve (exact_path req) (drop 1 (argv req)) (exec_env req), ok)])"
  unfolding execs_layered_def
proof (intro allI impI)
  fix before binary args env k after
  let ?quiet = "xs @ layers req bpf"
  assume "xs @ layers req bpf @ [(Execve (exact_path req) (drop 1 (argv req)) (exec_env req), ok)]
      = before @ (Execve binary args env, k) # after"
  then have eq: "?quiet @ [(Execve (exact_path req) (drop 1 (argv req)) (exec_env req), ok)]
      = before @ (Execve binary args env, k) # after" by simp
  moreover have "\<not> is_exec e" if "e \<in> set ?quiet" for e
    using that assms(3) by (auto simp: layers_def list_all_iff)
  then have "(Execve binary args env, k) \<notin> set ?quiet" by force
  ultimately have "before = ?quiet \<and> (binary, args, env) = (exact_path req, drop 1 (argv req), exec_env req)"
    by (auto simp: append_eq_append_conv2 append_eq_Cons_conv Cons_eq_append_conv)
  with assms show "\<exists>req bpf. R req \<and> build_filter C = Inr bpf \<and> binary = exact_path req
      \<and> args = drop 1 (argv req) \<and> env = exec_env req \<and> suffix (layers req bpf) before"
    by (auto simp: suffix_def)
qed

lemma spawn_layered:
  assumes "R req" "build_filter C = Inr bpf"
  shows "logs (execs_layered C R) (spawn K req bpf)"
  unfolding logs_def
proof (intro allI impI)
  fix s r s'
  let ?prep = "bindS (callS K Fork) (\<lambda>_. bindS (callS K (Chdir (exec_tempdir req))) (\<lambda>_. pre_exec K req bpf))"
  assume "spawn K req bpf s = (r, s')"
  then have run: "bindS ?prep (\<lambda>_. callS K (Execve (exact_path req) (drop 1 (argv req)) (exec_env req))) s = (r, s')"
    by (simp add: spawn_def bindS_assoc)
  have quiet: "logs (list_all (\<lambda>e. \<not> is_exec e)) ?prep"
    by (intro logs_rules closed_list_all pre_exec_quiet) simp_all
  obtain r1 s1 where setp: "?prep s = (r1, s1)" by (cases "?prep s")
  show "\<exists>new. host_log s' = host_log s @ new \<and> execs_layered C R new"
  proof (cases r1)
    case (Inl e)
    with run setp have "s' = s1" by (simp add: bindS_def)
    with logsD [OF quiet setp] show ?thesis by (auto intro: execs_layered_quiet)
  next
    case (Inr u)
    with setp obtain ok where "host_log s1 = host_log s @ [(Fork, True), (Chdir (exec_tempdir req), True),
        (Unshare, ok)] @ layers req bpf"
      by (auto simp: comp_iff dest!: callS_Inr pre_exec_log)
    moreover from run setp Inr obtain ok' where "host_log s' = host_log s1
        @ [(Execve (exact_path req) (drop 1 (argv req)) (exec_env req), ok')]"
      by (auto simp: bindS_def callS_def answered_def)
    ultimately show ?thesis
      using assms
        layered_exec [of R req C bpf "[(Fork, True), (Chdir (exec_tempdir req), True), (Unshare, ok)]" ok']
      by auto
  qed
qed

section \<open>Waiting for the child\<close>

definition polls :: "(os_call \<times> bool) list \<Rightarrow> nat" where
  "polls l = length (filter (\<lambda>e. fst e = Try_wait) l)"

definition killed_in :: "(os_call \<times> bool) list \<Rightarrow> bool" where
  "killed_in l \<longleftrightarrow> list_ex (\<lambda>e. fst e = Kill_child) l"

text \<open>The number of polls that fit into a time: one per interval, and one more.\<close>

definition poll_bound :: "nat \<Rightarrow> nat" where
  "poll_bound d = (d + poll_interval - 1) div poll_interval + 1"

lemma poll_bound_pos: "1 \<le> poll_bound d"
  by (simp add: poll_bound_def)

lemma poll_bound_step:
  assumes "0 < d" "d' + poll_interval \<le> d \<or> d' = 0"
  shows "Suc (poll_bound d') \<le> poll_bound d"
proof -
  have "poll_interval \<le> d + poll_interval - 1" using assms(1) by simp
  then have one: "1 \<le> (d + poll_interval - 1) div poll_interval"
    using poll_interval_pos by (simp add: div_greater_zero_iff Suc_le_eq)
  show ?thesis
  proof (cases "d' = 0")
    case True
    then show ?thesis using one poll_interval_pos by (simp add: poll_bound_def)
  next
    case False
    with assms have "(d' + poll_interval - 1) + poll_interval \<le> d + poll_interval - 1" by simp
    then have "((d' + poll_interval - 1) + poll_interval) div poll_interval
        \<le> (d + poll_interval - 1) div poll_interval" by (rule div_le_mono)
    moreover have "((d' + poll_interval - 1) + poll_interval) div poll_interval
        = Suc ((d' + poll_interval - 1) div poll_interval)"
      using poll_interval_pos by (simp only: div_add_self2)
    ultimately show ?thesis by (simp add: poll_bound_def)
  qed
qed

lemma wait_loop_spec:
  assumes "wait_loop K deadline s = (r, s')"
  shows "\<exists>new. host_log s' = host_log s @ new \<and> list_all (\<lambda>e. \<not> is_exec e) new
    \<and> polls new \<le> poll_bound (deadline - host_now s)
    \<and> (\<forall>status k. r = Inr (status, k) \<longrightarrow> k = killed_in new \<and> (k \<longrightarrow> deadline \<le> host_now s'))"
  using assms
proof (induction K deadline s rule: wait_loop.induct)
  case (1 K deadline s)
  obtain r1 s1 where wait: "try_waitS K s = (r1, s1)" by (cases "try_waitS K s")
  then have log1: "host_log s1 = host_log s @ [(Try_wait, \<not> isl r1)]" and now1: "host_now s1 = host_now s"
    by (auto simp: try_waitS_def answered_def)
  define s2 where "s2 = tick K s1"
  show ?case
  proof (cases "r1 = Inr None \<and> \<not> deadline \<le> host_now s2")
    case False
    then consider (stop) "s' = s1" "\<forall>status k. r = Inr (status, k) \<longrightarrow> \<not> k"
      | (kill) "r1 = Inr None" "deadline \<le> host_now s2"
          "bindS (ignoreS (callS K Kill_child)) (\<lambda>_.
             bindS (orS (\<lambda>e. config_invalid (''wait after kill: '' @ e)) (waitS K)) (\<lambda>status.
             returnS (status, True))) s2 = (r, s')"
      using 1(2) wait unfolding s2_def
      by (subst (asm) wait_loop.simps) (auto simp: Let_def split: sum.splits option.splits)
    then show ?thesis
    proof cases
      case stop
      then show ?thesis using log1 poll_bound_pos
        by (intro exI [of _ "[(Try_wait, \<not> isl r1)]"]) (auto simp: polls_def killed_in_def)
    next
      case kill
      then obtain ok ok' where "host_log s' = host_log s2 @ [(Kill_child, ok), (Wait_child, ok')]"
          and "host_now s' = host_now s2" and "\<forall>status k. r = Inr (status, k) \<longrightarrow> k"
        by (auto simp: bindS_def ignoreS_def orS_def waitS_def callS_def answered_def split: sum.splits prod.splits)
      then show ?thesis using kill(2) log1 poll_bound_pos
        by (intro exI [of _ "[(Try_wait, \<not> isl r1), (Kill_child, ok), (Wait_child, ok')]"])
          (auto simp: polls_def killed_in_def s2_def)
    qed
  next
    case True
    define s3 where "s3 = sleep K poll_interval s2"
    from True 1(2) wait have rest: "wait_loop K deadline s3 = (r, s')"
      unfolding s2_def s3_def by (subst (asm) wait_loop.simps) (simp add: Let_def)
    with 1(1) [OF wait [symmetric] _ _ s2_def] True
    obtain new where new: "host_log s' = host_log s3 @ new" "list_all (\<lambda>e. \<not> is_exec e) new"
        "polls new \<le> poll_bound (deadline - host_now s3)"
        "\<forall>status k. r = Inr (status, k) \<longrightarrow> k = killed_in new \<and> (k \<longrightarrow> deadline \<le> host_now s')"
      unfolding s3_def by auto
    have "host_now s2 \<ge> host_now s" and "host_now s3 \<ge> host_now s2 + poll_interval"
      using now1 by (simp_all add: s2_def s3_def tick_def sleep_def)
    with True have "Suc (poll_bound (deadline - host_now s3)) \<le> poll_bound (deadline - host_now s)"
      by (intro poll_bound_step) auto
    with new log1 show ?thesis
      by (intro exI [of _ "(Try_wait, True) # new"])
        (auto simp: polls_def killed_in_def s2_def s3_def True)
  qed
qed

lemma wait_with_timeout_spec:
  assumes "wait_with_timeout K timeout s = (r, s')"
  shows "\<exists>new. host_log s' = host_log s @ new \<and> list_all (\<lambda>e. \<not> is_exec e) new
    \<and> polls new \<le> poll_bound timeout
    \<and> (\<forall>res. r = Inr res \<longrightarrow> timed_out res = killed_in new
         \<and> (timed_out res \<longrightarrow> host_now s + timeout \<le> host_now s'))"
proof -
  define s0 where "s0 = tick K s"
  define deadline where "deadline = host_now s0 + timeout"
  have s0: "host_log s0 = host_log s" "host_now s \<le> host_now s0" by (simp_all add: s0_def tick_def)
  show ?thesis
  proof (cases "instant_max K < deadline")
    case True
    with assms have "s' = s0" "\<forall>res. r \<noteq> Inr res"
      unfolding wait_with_timeout_def s0_def [symmetric] Let_def deadline_def [symmetric] by auto
    then show ?thesis using s0 by (intro exI [of _ "[]"]) (simp add: polls_def)
  next
    case False
    obtain r1 s1 where loop: "wait_loop K deadline s0 = (r1, s1)" by (cases "wait_loop K deadline s0")
    from False assms loop have out: "host_log s' = host_log s1 \<and> host_now s' = host_now s1
        \<and> (\<forall>res. r = Inr res \<longrightarrow> (\<exists>status. r1 = Inr (status, timed_out res)))"
      unfolding wait_with_timeout_def s0_def [symmetric] Let_def deadline_def [symmetric]
      by (auto simp: bindS_def split: sum.splits prod.splits)
    from wait_loop_spec [OF loop] obtain new where "host_log s1 = host_log s0 @ new"
      "list_all (\<lambda>e. \<not> is_exec e) new" "polls new \<le> poll_bound timeout"
      "\<forall>status k. r1 = Inr (status, k) \<longrightarrow> k = killed_in new \<and> (k \<longrightarrow> deadline \<le> host_now s1)"
      unfolding deadline_def by auto
    with out s0 show ?thesis unfolding deadline_def by (intro exI [of _ new]) fastforce
  qed
qed

text \<open>
  C26. Waiting for a tool's process ends after at most one poll per five milliseconds of its timeout
  and one more, whatever the process does; it is reported as timed out exactly when it was killed,
  and it is never killed before its whole timeout has passed.
\<close>

theorem exec_wait_bounded:
  assumes "wait_with_timeout K timeout s = (r, s')"
  shows "\<exists>new. host_log s' = host_log s @ new \<and> polls new \<le> poll_bound timeout
    \<and> (\<forall>res. r = Inr res \<longrightarrow> timed_out res = killed_in new
         \<and> (timed_out res \<longrightarrow> host_now s + timeout \<le> host_now s'))"
  using wait_with_timeout_spec [OF assms] by blast

section \<open>The launcher's log\<close>

lemma logs_mono: "logs P m \<Longrightarrow> (\<And>l. P l \<Longrightarrow> Q l) \<Longrightarrow> logs Q m"
  by (fastforce simp: logs_def)

lemma logs_dep: "(\<And>x. logs P (F x)) \<Longrightarrow> logs P (\<lambda>s. F s s)"
  by (auto simp: logs_def)

lemma wait_quiet: "logs (execs_layered C R) (wait_with_timeout K timeout)"
  using wait_with_timeout_spec by (fastforce simp: logs_def intro: execs_layered_quiet)

lemma cgroup_create_quiet: "logs (execs_layered C R) (cgroup_create K name m p)"
proof -
  have tree: "logs (execs_layered C R) (delegated_tree K)"
    using logs_quiet_call [of "Open_write (cgroup_root @ ''/cgroup.subtree_control'')" C R K]
    by (fastforce simp: logs_def delegated_tree_def split: prod.splits sum.splits)
  have limit: "logs (execs_layered C R) (write_limit K f l)" for f l
    unfolding write_limit_def
    by (cases l) (auto intro!: logs_pure closed_layered logs_quiet_call)
  show ?thesis
    unfolding cgroup_create_def Let_def
    by (intro logs_bind closed_layered tree)
      (auto split: option.split intro!: logs_bind logs_pure closed_layered logs_quiet_call limit)
qed

lemma with_cgroup_logs:
  assumes "logs (execs_layered C R) m"
  shows "logs (execs_layered C R) (with_cgroup K cg m)"
  unfolding logs_def
proof (intro allI impI)
  fix s r s'
  assume run: "with_cgroup K cg m s = (r, s')"
  obtain r1 s1 where m: "m s = (r1, s1)" by (cases "m s")
  from logsD [OF assms m] obtain new where new: "host_log s1 = host_log s @ new" "execs_layered C R new"
    by blast
  from run m have "host_log s' = host_log s1 \<or> (\<exists>dir ok. host_log s' = host_log s1 @ [(Remove_dir dir, ok)])"
    by (auto simp: with_cgroup_def cgroup_drop_def callS_def answered_def split: option.splits)
  moreover have "execs_layered C R (new @ [(Remove_dir dir, ok)])" for dir ok
    by (rule execs_layered_append [OF new(2)], rule execs_layered_quiet) simp
  ultimately show "\<exists>new. host_log s' = host_log s @ new \<and> execs_layered C R new"
    using new by (metis append_assoc)
qed

lemma launch_layered:
  assumes "R req"
  shows "logs (execs_layered C R) (launch K C req)"
proof -
  have join: "logs (execs_layered C R) (\<lambda>s. let pid = os_child_id K (host_world s) in
      if unat pid < 2 ^ 31 then ignoreS (join_pid K dir pid) s else returnS () s)" for dir
    using logs_ignore [OF logs_quiet_call, of "Write_file (dir @ ''/cgroup.procs'') (decimal (unat pid))" C R K for pid]
      closed_layered [of C R]
    unfolding logs_def join_pid_def Let_def closed_def by (fastforce split: if_splits)
  have body: "logs (execs_layered C R) (bindS (liftE (build_filter C)) (\<lambda>bpf. k bpf))"
    if "\<And>bpf. build_filter C = Inr bpf \<Longrightarrow> logs (execs_layered C R) (k bpf)"
    for k :: "seccomp_filter \<Rightarrow> ('w, exec_result) hosted"
    using that closed_layered [of C R]
    by (cases "build_filter C") (auto simp: logs_def bindS_def closed_def)
  have spawned: "logs (execs_layered C R) (bindS (orS f (spawn K req bpf)) (\<lambda>_.
      bindS (case cg of None \<Rightarrow> returnS ()
        | Some dir \<Rightarrow> (\<lambda>s. let pid = os_child_id K (host_world s) in
            if unat pid < 2 ^ 31 then ignoreS (join_pid K dir pid) s else returnS () s)) (\<lambda>_.
      wait_with_timeout K (exec_timeout req))))"
    if "build_filter C = Inr bpf" for f bpf cg
    by (intro logs_bind logs_or closed_layered spawn_layered assms that wait_quiet)
      (cases cg; simp only: option.case; rule join logs_pure(1) [OF closed_layered])
  show ?thesis
    unfolding launch_def
    by (rule logs_dep, rule logs_bind [OF closed_layered], rule logs_or, rule cgroup_create_quiet,
        rule with_cgroup_logs, rule body, rule spawned)
qed

section \<open>A host for the witnesses\<close>

text \<open>Every call succeeds, the child never exits by itself, and no time passes but in sleeps.\<close>

definition demo_os :: "unit os" where
  "demo_os = \<lparr>os_answer = (\<lambda>_ w. (Inr (), w)), os_process_id = (\<lambda>_. 7), os_child_id = (\<lambda>_. 8),
     os_try_wait = (\<lambda>w. (Inr None, w)), os_wait = (\<lambda>w. (Inr None, w)), os_stdout = (\<lambda>w. ([104, 105], w)),
     os_stderr = (\<lambda>w. ([], w)), elapsed = (\<lambda>_. 0), oversleep = (\<lambda>_. 0), instant_max = 2 ^ 64\<rparr>"

definition demo_host :: "unit host" where
  "demo_host = \<lparr>host_world = (), host_log = [], host_now = 100\<rparr>"

definition demo_waited :: "unit host" where
  "demo_waited = \<lparr>host_world = (), host_log = [(Try_wait, True), (Try_wait, True), (Try_wait, True),
     (Try_wait, True), (Kill_child, True), (Wait_child, True)], host_now = 15000100\<rparr>"

lemma demo_wait:
  "wait_with_timeout demo_os 12000000 demo_host =
     (Inr \<lparr>exit_code = -1, exec_stdout = [104, 105], exec_stderr = [], timed_out = True\<rparr>, demo_waited)"
  by code_simp

theorem exec_wait_bounded_witness:
  "(\<exists>new. host_log demo_waited = host_log demo_host @ new \<and> polls new \<le> poll_bound 12000000
    \<and> (\<forall>res. (Inr \<lparr>exit_code = -1, exec_stdout = [104, 105], exec_stderr = [], timed_out = True\<rparr>
          :: core_error fault + exec_result) = Inr res \<longrightarrow> timed_out res = killed_in new
         \<and> (timed_out res \<longrightarrow> host_now demo_host + 12000000 \<le> host_now demo_waited)))"
  using exec_wait_bounded [OF demo_wait] .

end
