(* ===== verification/Tool_Harness.thy ===== *)
theory Tool_Harness
  imports Utf8 Http_Client Sandbox
begin

text \<open>
  The tool harness (\<open>rollout-harness-tool/src/lib.rs\<close> and \<open>src/tools\<close>): six tools behind one batched
  \<open>invoke\<close>. The exec tools go through the sandbox launcher, the file tools through the capability
  root of a temporary directory, the HTTP tools through the filtered client. The state is the host
  (kernel, files, clock) beside the network; the harness itself keeps only its settings.
\<close>

section \<open>Calls and results\<close>

datatype json =
    Null
  | JBool bool
  | JNum int
  | JStr string
  | JArr "json list"
  | JObj "(string \<times> json) list"

text \<open>\<open>Value::get\<close> on an object and \<open>Value::as_str\<close>.\<close>

fun json_get :: "string \<Rightarrow> json \<Rightarrow> json option" where
  "json_get k (JObj fs) = map_of fs k"
| "json_get k _ = None"

fun as_str :: "json \<Rightarrow> string option" where
  "as_str (JStr s) = Some s"
| "as_str _ = None"

datatype side_effect_class = Pure | Filesystem | Network | Exec
datatype tool_outcome = Success | Error | Timed_out

record tool_spec =
  spec_name :: string
  spec_description :: string
  spec_input_schema :: json
  spec_side_effects :: side_effect_class
  spec_timeout :: duration

record tool_context =
  context_worker :: worker_id
  context_episode :: "ulid option"

record tool_call =
  call_id :: ulid
  call_tool :: string
  call_args :: json
  call_context :: tool_context

record tool_result =
  result_call_id :: ulid
  result_outcome :: tool_outcome
  result_output :: json
  result_stderr :: "string option"
  result_duration :: duration

section \<open>Settings\<close>

record tool_settings =
  require_landlock :: bool
  enable_python_exec :: bool
  enable_shell :: bool
  enable_file_read :: bool
  enable_file_write :: bool
  python_path :: path
  shell_allowlist :: "(string \<times> path) list"
  timeout_secs :: u64
  rlimit_cpu_secs :: u64
  rlimit_as_bytes :: u64
  rlimit_nofile :: u64
  rlimit_nproc :: u64
  cgroup_memory_max :: "u64 option"
  cgroup_pids_max :: "u64 option"
  enable_http_get :: bool
  enable_http_post :: bool
  settings_egress_allowlist :: "ip_addr list"

definition default_tool_settings :: tool_settings where
  "default_tool_settings =
     \<lparr>require_landlock = True, enable_python_exec = True, enable_shell = True, enable_file_read = True,
      enable_file_write = True, python_path = ''/usr/bin/python3'', shell_allowlist = [],
      timeout_secs = 10, rlimit_cpu_secs = 10, rlimit_as_bytes = 512 * 1024 * 1024, rlimit_nofile = 64,
      rlimit_nproc = 64, cgroup_memory_max = Some (512 * 1024 * 1024), cgroup_pids_max = Some 64,
      enable_http_get = True, enable_http_post = True, settings_egress_allowlist = []\<rparr>"

text \<open>
  What the harness is compiled and linked with: the target, the cargo features, the kernel release,
  the outside world, temporary directories, serde's reading of each tool's arguments and the
  \<open>Debug\<close> text of a retry hint.
\<close>

record ('w, 'v, 'c) tool_env =
  te_linux :: bool
  te_feature_http :: bool
  te_feature_http_get :: bool
  te_feature_http_post :: bool
  te_release :: "string option"
  te_os :: "'w os"
  te_seccomp :: seccomp_crate
  te_caps :: "'w cap_std"
  te_tempdir_new :: "'w \<Rightarrow> (string + path) \<times> 'w"
  te_tempdir_drop :: "path \<Rightarrow> 'w \<Rightarrow> 'w"
  te_net :: "('v, 'c) network"
  te_python_args :: "json \<Rightarrow> string + string"
  te_shell_args :: "json \<Rightarrow> string + string list"
  te_read_args :: "json \<Rightarrow> string + path"
  te_write_args :: "json \<Rightarrow> string + (path \<times> string)"
  te_show_hint :: "retry_hint \<Rightarrow> string"

text \<open>The \<open>Display\<close> of \<open>CoreError\<close>.\<close>

fun core_error_str :: "(retry_hint \<Rightarrow> string) \<Rightarrow> core_error \<Rightarrow> string" where
  "core_error_str show (Recoverable (Throttled hint)) = ''recoverable: throttled: retry '' @ show hint"
| "core_error_str show (Recoverable (Transient msg hint)) = ''recoverable: transient: '' @ msg"
| "core_error_str show (Recoverable (Preempted hint)) = ''recoverable: preempted''"
| "core_error_str show (Fatal (ConfigInvalid msg)) = ''fatal: config invalid: '' @ msg"
| "core_error_str show (Fatal (SchemaViolation msg)) = ''fatal: schema violation: '' @ msg"
| "core_error_str show (Fatal (PluginContract plugin msg)) =
     ''fatal: plugin contract violation: '' @ plugin @ '': '' @ msg"
| "core_error_str show (Fatal (Internal msg)) = ''fatal: internal: '' @ msg"

section \<open>The kernel gate\<close>

text \<open>\<open>str::split(['.', '-'])\<close> and \<open>str::parse::<u32>\<close>.\<close>

fun split_release :: "string \<Rightarrow> string \<Rightarrow> string list" where
  "split_release acc [] = [rev acc]"
| "split_release acc (c # cs) =
     (if c = CHR ''.'' \<or> c = CHR ''-'' then rev acc # split_release [] cs else split_release (c # acc) cs)"

definition digit_value :: "char \<Rightarrow> nat option" where
  "digit_value c = (let n = of_char c :: nat in if 48 \<le> n \<and> n \<le> 57 then Some (n - 48) else None)"

fun parse_digits :: "nat \<Rightarrow> string \<Rightarrow> nat option" where
  "parse_digits acc [] = Some acc"
| "parse_digits acc (c # cs) = (case digit_value c of
     None \<Rightarrow> None | Some d \<Rightarrow> parse_digits (acc * 10 + d) cs)"

definition parse_u32 :: "string \<Rightarrow> u32 option" where
  "parse_u32 s = (let ds = (case s of c # cs \<Rightarrow> if c = CHR ''+'' then cs else s | [] \<Rightarrow> s) in
     if ds = [] then None
     else case parse_digits 0 ds of
       None \<Rightarrow> None | Some n \<Rightarrow> if n < 2 ^ 32 then Some (of_nat n) else None)"

definition kernel_version :: "('w, 'v, 'c) tool_env \<Rightarrow> (u32 \<times> u32) option" where
  "kernel_version E = (case te_release E of
       None \<Rightarrow> None
     | Some release \<Rightarrow> (case split_release [] release of
         major # minor # _ \<Rightarrow> (case (parse_u32 major, parse_u32 minor) of
             (Some maj, Some mnr) \<Rightarrow> Some (maj, mnr) | _ \<Rightarrow> None)
       | _ \<Rightarrow> None))"

definition from_settings :: "('w, 'v, 'c) tool_env \<Rightarrow> tool_settings \<Rightarrow> tool_settings res" where
  "from_settings E S =
     (if te_linux E \<and> require_landlock S then
        (case kernel_version E of
           Some (maj, mnr) \<Rightarrow>
             if maj < 5 \<or> maj = 5 \<and> mnr < 13
             then Inl (config_invalid (''landlock requires kernel >= 5.13, found ''
               @ decimal (unat maj) @ ''.'' @ decimal (unat mnr)))
             else Inr S
         | None \<Rightarrow> Inr S)
      else Inr S)"

section \<open>The descriptor\<close>

definition settings_timeout :: "tool_settings \<Rightarrow> duration" where
  "settings_timeout S = from_secs (unat (timeout_secs S))"

definition settings_rlimits :: "tool_settings \<Rightarrow> rlimits" where
  "settings_rlimits S = \<lparr>cpu_secs = rlimit_cpu_secs S, as_bytes = rlimit_as_bytes S,
     nofile = rlimit_nofile S, nproc = rlimit_nproc S\<rparr>"

definition spec :: "string \<Rightarrow> string \<Rightarrow> side_effect_class \<Rightarrow> duration \<Rightarrow> tool_spec" where
  "spec name desc class timeout = \<lparr>spec_name = name, spec_description = desc,
     spec_input_schema = JObj [(''type'', JStr ''object'')], spec_side_effects = class, spec_timeout = timeout\<rparr>"

definition specs :: "('w, 'v, 'c) tool_env \<Rightarrow> tool_settings \<Rightarrow> tool_spec list" where
  "specs E S = (let t = settings_timeout S in
     (if enable_python_exec S then [spec ''python_exec'' ''Run python3 -c <code> sandboxed'' Exec t] else [])
     @ (if enable_shell S then [spec ''shell'' ''Run an allowlisted command (argv vector)'' Exec t] else [])
     @ (if enable_file_read S then [spec ''file_read'' ''Read a file within the sandbox tempdir'' Filesystem t] else [])
     @ (if enable_file_write S then [spec ''file_write'' ''Write a file within the sandbox tempdir'' Filesystem t] else [])
     @ (if te_feature_http_get E \<and> enable_http_get S
        then [spec ''http_get'' ''HTTP GET via the SSRF-filtered connector'' Network t] else [])
     @ (if te_feature_http_post E \<and> enable_http_post S
        then [spec ''http_post'' ''HTTP POST via the SSRF-filtered connector'' Network t] else []))"

definition egress :: "tool_settings \<Rightarrow> egress_config" where
  "egress S = \<lparr>egress_allowlist = settings_egress_allowlist S, egress_allow_loopback = False\<rparr>"

section \<open>The exec and file tools\<close>

definition python_exec_run :: "('w, 'v, 'c) tool_env \<Rightarrow> path \<Rightarrow> json \<Rightarrow> duration \<Rightarrow> path \<Rightarrow> rlimits
    \<Rightarrow> u64 option \<Rightarrow> u64 option \<Rightarrow> ('w, exec_result) hosted" where
  "python_exec_run E python args timeout tempdir limits memory_max pids_max =
     bindS (liftE (map_err (\<lambda>e. config_invalid (''python_exec args: '' @ e)) (te_python_args E args))) (\<lambda>code.
     launch (te_os E) (te_seccomp E)
       \<lparr>exact_path = python, argv = [python, ''-I'', ''-c'', code], exec_timeout = timeout,
        exec_tempdir = tempdir, exec_rlimits = limits, exec_memory_max = memory_max,
        exec_pids_max = pids_max\<rparr>)"

definition shell_run :: "('w, 'v, 'c) tool_env \<Rightarrow> (string \<times> path) list \<Rightarrow> json \<Rightarrow> duration \<Rightarrow> path \<Rightarrow> rlimits
    \<Rightarrow> u64 option \<Rightarrow> u64 option \<Rightarrow> ('w, exec_result) hosted" where
  "shell_run E allowlist args timeout tempdir limits memory_max pids_max =
     bindS (liftE (map_err (\<lambda>e. config_invalid (''shell args: '' @ e)) (te_shell_args E args))) (\<lambda>words.
     case words of
       [] \<Rightarrow> failS (config_invalid ''shell argv must be non-empty'')
     | cmd # rest \<Rightarrow> (case map_of allowlist cmd of
         None \<Rightarrow> failS (config_invalid (''command not in allowlist: '' @ cmd))
       | Some exact \<Rightarrow>
           launch (te_os E) (te_seccomp E)
             \<lparr>exact_path = exact, argv = words[0 := exact], exec_timeout = timeout,
              exec_tempdir = tempdir, exec_rlimits = limits, exec_memory_max = memory_max,
              exec_pids_max = pids_max\<rparr>))"

definition file_read_run :: "('w, 'v, 'c) tool_env \<Rightarrow> path \<Rightarrow> json \<Rightarrow> ('w, string) hosted" where
  "file_read_run E root args =
     bindS (liftE (map_err (\<lambda>e. config_invalid (''file_read args: '' @ e)) (te_read_args E args))) (\<lambda>rel.
     bindS (cap_root_open (te_caps E) root) (\<lambda>_.
     bindS (cap_root_read (te_caps E) root rel) (\<lambda>b.
     returnS (from_utf8_lossy b))))"

definition file_write_run :: "('w, 'v, 'c) tool_env \<Rightarrow> path \<Rightarrow> json \<Rightarrow> ('w, nat) hosted" where
  "file_write_run E root args =
     bindS (liftE (map_err (\<lambda>e. config_invalid (''file_write args: '' @ e)) (te_write_args E args))) (\<lambda>(rel, contents).
     bindS (cap_root_open (te_caps E) root) (\<lambda>_.
     let b = map (\<lambda>c. of_nat (of_char c)) contents in
     bindS (cap_root_write (te_caps E) root rel b) (\<lambda>_.
     returnS (length b))))"

definition exec_output :: "exec_result \<Rightarrow> json \<times> string option \<times> bool" where
  "exec_output run =
     (let out = from_utf8_lossy (exec_stdout run); err = from_utf8_lossy (exec_stderr run) in
      (JObj [(''exit_code'', JNum (exit_code run)), (''stdout'', JStr out)],
       if err = [] then None else Some err, timed_out run))"

section \<open>Dispatch\<close>

definition errored :: "tool_call \<Rightarrow> string \<Rightarrow> duration \<Rightarrow> tool_result" where
  "errored call msg took = \<lparr>result_call_id = call_id call, result_outcome = Error, result_output = Null,
     result_stderr = Some msg, result_duration = took\<rparr>"

text \<open>The body of \<open>dispatch\<close> between the creation of the temporary directory and the result.\<close>

definition run_tool :: "('w, 'v, 'c) tool_env \<Rightarrow> tool_settings \<Rightarrow> tool_call \<Rightarrow> path
    \<Rightarrow> ('w, json \<times> string option \<times> bool) hosted" where
  "run_tool E S call root =
     (if call_tool call = ''python_exec'' \<and> enable_python_exec S then
        bindS (python_exec_run E (python_path S) (call_args call) (settings_timeout S) root (settings_rlimits S)
          (cgroup_memory_max S) (cgroup_pids_max S)) (\<lambda>r. returnS (exec_output r))
      else if call_tool call = ''shell'' \<and> enable_shell S then
        bindS (shell_run E (shell_allowlist S) (call_args call) (settings_timeout S) root (settings_rlimits S)
          (cgroup_memory_max S) (cgroup_pids_max S)) (\<lambda>r. returnS (exec_output r))
      else if call_tool call = ''file_read'' \<and> enable_file_read S then
        bindS (file_read_run E root (call_args call)) (\<lambda>out.
        returnS (JObj [(''contents'', JStr out)], None, False))
      else if call_tool call = ''file_write'' \<and> enable_file_write S then
        bindS (file_write_run E root (call_args call)) (\<lambda>n.
        returnS (JObj [(''bytes_written'', JNum (int n))], None, False))
      else failS (config_invalid (''unknown or disabled tool: '' @ call_tool call)))"

definition drop_tempdir :: "('w, 'v, 'c) tool_env \<Rightarrow> path \<Rightarrow> 'w host \<Rightarrow> 'w host" where
  "drop_tempdir E root s = s\<lparr>host_world := te_tempdir_drop E root (host_world s)\<rparr>"

definition macos_message :: string where
  "macos_message = ''sandbox unavailable on macOS '' @ bytes_text [0xE2, 0x80, 0x94] @ '' dev stub''"

definition tool_dispatch :: "('w, 'v, 'c) tool_env \<Rightarrow> tool_settings \<Rightarrow> tool_call \<Rightarrow> ('w, tool_result) hosted" where
  "tool_dispatch E S call s =
     (let s0 = tick (te_os E) s; started = host_now s0 in
      if \<not> te_linux E then
        (let s1 = tick (te_os E) s0 in (Inr (errored call macos_message (host_now s1 - started)), s1))
      else case on_world (te_tempdir_new E) s0 of
        (Inl e, s1) \<Rightarrow>
          (let s2 = tick (te_os E) s1 in (Inr (errored call (''tempdir: '' @ e) (host_now s2 - started)), s2))
      | (Inr root, s1) \<Rightarrow>
          (case run_tool E S call root s1 of
             (Inr (output, err, killed), s2) \<Rightarrow>
               (let s3 = tick (te_os E) s2 in
                (Inr \<lparr>result_call_id = call_id call, result_outcome = (if killed then Timed_out else Success),
                      result_output = output, result_stderr = err, result_duration = host_now s3 - started\<rparr>,
                 drop_tempdir E root s3))
           | (Inl (Err e), s2) \<Rightarrow>
               (let s3 = tick (te_os E) s2 in
                (Inr (errored call (core_error_str (te_show_hint E) e) (host_now s3 - started)),
                 drop_tempdir E root s3))
           | (Inl (Panic msg), s2) \<Rightarrow> (Inl (Panic msg), drop_tempdir E root s2)))"

section \<open>The HTTP tools\<close>

definition response_json :: "http_response \<Rightarrow> json" where
  "response_json resp = JObj [(''status'', JNum (int (unat (resp_status resp)))),
     (''body'', JStr (from_utf8_lossy (resp_body resp)))]"

definition url_arg :: "json \<Rightarrow> http_error fault + string" where
  "url_arg args = (case Option.bind (json_get ''url'' args) as_str of
       None \<Rightarrow> Inl (Err (BadUrl ''missing string field `url`'')) | Some url \<Rightarrow> Inr url)"

definition http_get_run :: "('v, 'c) network \<Rightarrow> json \<Rightarrow> egress_config \<Rightarrow> duration \<Rightarrow> ('v, json) fetching" where
  "http_get_run N args E timeout =
     bindS (liftE (url_arg args)) (\<lambda>url.
     bindS (fetch N Get url None E timeout) (\<lambda>resp.
     returnS (response_json resp)))"

definition http_post_run :: "('v, 'c) network \<Rightarrow> json \<Rightarrow> egress_config \<Rightarrow> duration \<Rightarrow> ('v, json) fetching" where
  "http_post_run N args E timeout =
     bindS (liftE (url_arg args)) (\<lambda>url.
     let body = map_option (map (\<lambda>c. of_nat (of_char c))) (Option.bind (json_get ''body'' args) as_str) in
     bindS (fetch N Post url body E timeout) (\<lambda>resp.
     returnS (response_json resp)))"

type_synonym ('w, 'v) tool_world = "'w host \<times> 'v wire"

definition dispatch_http :: "('w, 'v, 'c) tool_env \<Rightarrow> tool_settings \<Rightarrow> tool_call
    \<Rightarrow> (('w, 'v) tool_world, core_error fault, tool_result) comp" where
  "dispatch_http E S call W =
     (let s0 = tick (te_os E) (fst W); started = host_now s0;
          finish = (\<lambda>make v. let s1 = tick (te_os E) s0 in (Inr (make (host_now s1 - started)), (s1, v)))
      in
      if \<not> te_feature_http E then finish (errored call ''http tools not compiled in'') (snd W)
      else
        (case
          (if te_feature_http_get E \<and> call_tool call = ''http_get'' \<and> enable_http_get S
           then Some (http_get_run (te_net E) (call_args call) (egress S) (settings_timeout S) (snd W))
           else if te_feature_http_post E \<and> call_tool call = ''http_post'' \<and> enable_http_post S
           then Some (http_post_run (te_net E) (call_args call) (egress S) (settings_timeout S) (snd W))
           else None) of
           None \<Rightarrow> finish (errored call (''unknown or disabled tool: '' @ call_tool call)) (snd W)
         | Some (Inr output, v) \<Rightarrow>
             finish (\<lambda>took. \<lparr>result_call_id = call_id call, result_outcome = Success, result_output = output,
               result_stderr = None, result_duration = took\<rparr>) v
         | Some (Inl (Err TimedOut), v) \<Rightarrow>
             finish (\<lambda>took. \<lparr>result_call_id = call_id call, result_outcome = Timed_out, result_output = Null,
               result_stderr = Some (http_error_str TimedOut), result_duration = took\<rparr>) v
         | Some (Inl (Err e), v) \<Rightarrow> finish (errored call (http_error_str e)) v
         | Some (Inl (Panic msg), v) \<Rightarrow> (Inl (Panic msg), (s0, v))))"

section \<open>The batched entry point\<close>

definition dispatch_one :: "('w, 'v, 'c) tool_env \<Rightarrow> tool_settings \<Rightarrow> tool_call
    \<Rightarrow> (('w, 'v) tool_world, core_error fault, tool_result) comp" where
  "dispatch_one E S call =
     (if call_tool call = ''http_get'' \<or> call_tool call = ''http_post'' then dispatch_http E S call
      else on_store (tool_dispatch E S call))"

fun invoke :: "('w, 'v, 'c) tool_env \<Rightarrow> tool_settings \<Rightarrow> tool_call list
    \<Rightarrow> (('w, 'v) tool_world, core_error fault, tool_result list) comp" where
  "invoke E S [] = returnS []"
| "invoke E S (call # calls) =
     bindS (dispatch_one E S call) (\<lambda>r. bindS (invoke E S calls) (\<lambda>rs. returnS (r # rs)))"

section \<open>One answer per call\<close>

definition advertised :: "('w, 'v, 'c) tool_env \<Rightarrow> tool_settings \<Rightarrow> string set" where
  "advertised E S = spec_name ` set (specs E S)"

lemma advertised_iff:
  "t \<in> advertised E S \<longleftrightarrow>
     t = ''python_exec'' \<and> enable_python_exec S \<or> t = ''shell'' \<and> enable_shell S
     \<or> t = ''file_read'' \<and> enable_file_read S \<or> t = ''file_write'' \<and> enable_file_write S
     \<or> t = ''http_get'' \<and> te_feature_http_get E \<and> enable_http_get S
     \<or> t = ''http_post'' \<and> te_feature_http_post E \<and> enable_http_post S"
  by (auto simp: advertised_def specs_def Let_def spec_def)

definition answers :: "('w, 'v, 'c) tool_env \<Rightarrow> tool_settings \<Rightarrow> tool_call \<Rightarrow> tool_result \<Rightarrow> bool" where
  "answers E S call res \<longleftrightarrow> result_call_id res = call_id call
     \<and> (call_tool call \<notin> advertised E S \<longrightarrow> result_outcome res = Error)"

lemma errored_fields [simp]:
  "result_call_id (errored call msg took) = call_id call" "result_outcome (errored call msg took) = Error"
  by (simp_all add: errored_def)

lemma run_tool_unknown:
  "call_tool call \<notin> advertised E S \<Longrightarrow> \<exists>msg. run_tool E S call root s = (Inl (config_invalid msg), s)"
  by (auto simp: run_tool_def advertised_iff)

lemma dispatch_answers:
  assumes "tool_dispatch E S call s = (r, s')"
  shows "(\<exists>msg. r = Inl (Panic msg)) \<or> (\<exists>res. r = Inr res \<and> answers E S call res)"
proof -
  have known: "call_tool call \<in> advertised E S"
    if "run_tool E S call root s1 = (Inr x, s2)" for root s1 x s2
    using that run_tool_unknown [of call E S root s1] by fastforce
  show ?thesis
    using assms unfolding tool_dispatch_def Let_def
    by (auto simp: answers_def dest: known
        split: if_splits prod.splits sum.splits fault.splits)
qed

lemma dispatch_http_answers:
  assumes "dispatch_http E S call W = (r, W')"
    and "call_tool call = ''http_get'' \<or> call_tool call = ''http_post''"
  shows "(\<exists>msg. r = Inl (Panic msg)) \<or> (\<exists>res. r = Inr res \<and> answers E S call res)"
  using assms(1) unfolding dispatch_http_def Let_def
  by (auto simp: answers_def advertised_iff
      split: if_splits prod.splits sum.splits fault.splits option.splits http_error.splits)

lemma dispatch_one_cases:
  assumes "dispatch_one E S call W = (r, W')"
  obtains "call_tool call = ''http_get'' \<or> call_tool call = ''http_post''" "dispatch_http E S call W = (r, W')"
  | "tool_dispatch E S call (fst W) = (r, fst W')" "snd W' = snd W"
  using assms by (cases W; cases W') (auto simp: dispatch_one_def on_store_eq split: if_splits)

lemma dispatch_one_answers:
  assumes "dispatch_one E S call W = (r, W')"
  shows "(\<exists>msg. r = Inl (Panic msg)) \<or> (\<exists>res. r = Inr res \<and> answers E S call res)"
  using assms by (rule dispatch_one_cases) (fact dispatch_http_answers dispatch_answers | rule dispatch_http_answers dispatch_answers, assumption+)+

lemma invoke_answers:
  "invoke E S calls W = (r, W') \<Longrightarrow>
     (\<exists>msg. r = Inl (Panic msg)) \<or> (\<exists>rs. r = Inr rs \<and> list_all2 (answers E S) calls rs)"
proof (induction calls arbitrary: W r W')
  case (Cons call calls)
  obtain r1 W1 where one: "dispatch_one E S call W = (r1, W1)" by (cases "dispatch_one E S call W")
  obtain r2 W2 where rest: "invoke E S calls W1 = (r2, W2)" by (cases "invoke E S calls W1")
  from dispatch_one_answers [OF one] Cons.IH [OF rest] Cons.prems one rest show ?case
    by (auto simp: bindS_def)
qed simp

text \<open>
  C27. An invocation returns one result per call, in the order of the calls and under their call ids,
  and a call of a tool that the descriptor does not advertise is answered with an error; the only
  other outcome is a panic, for a timeout beyond what the clock can represent.
\<close>

theorem invoke_answers_each_call:
  assumes "invoke E S calls W = (r, W')"
  shows "(\<exists>msg. r = Inl (Panic msg))
    \<or> (\<exists>rs. r = Inr rs \<and> map result_call_id rs = map call_id calls
         \<and> (\<forall>i < length calls. call_tool (calls ! i) \<notin> advertised E S \<longrightarrow> result_outcome (rs ! i) = Error))"
  using invoke_answers [OF assms]
  by (auto simp: answers_def list_all2_conv_all_nth intro!: nth_equalityI)

section \<open>Nothing outside the sandbox\<close>

text \<open>The binaries a harness may execute, with the limits of its settings.\<close>

definition permitted :: "tool_settings \<Rightarrow> exec_request \<Rightarrow> bool" where
  "permitted S req \<longleftrightarrow> exec_rlimits req = settings_rlimits S
     \<and> (enable_python_exec S \<and> exact_path req = python_path S
        \<or> enable_shell S \<and> exact_path req \<in> snd ` set (shell_allowlist S))"

lemma logs_on_world: "closed P \<Longrightarrow> logs P (on_world f)"
  by (auto simp: logs_def on_world_def closed_def split: prod.splits)

lemma file_tools_quiet:
  assumes "closed P"
  shows "logs P (file_read_run E root args)" "logs P (file_write_run E root args)"
  unfolding file_read_run_def file_write_run_def cap_root_open_def cap_root_read_def cap_root_write_def Let_def
  by (auto intro!: logs_bind logs_pure logs_or logs_on_world assms)

lemma run_tool_layered:
  "logs (execs_layered (te_seccomp E) (permitted S)) (run_tool E S call root)"
proof -
  have python: "logs (execs_layered (te_seccomp E) (permitted S))
      (python_exec_run E (python_path S) args t root (settings_rlimits S) m p)"
    if "enable_python_exec S" for args t m p
    unfolding python_exec_run_def
    by (intro logs_bind logs_pure closed_layered launch_layered) (simp add: permitted_def that)
  have shell: "logs (execs_layered (te_seccomp E) (permitted S))
      (shell_run E (shell_allowlist S) args t root (settings_rlimits S) m p)"
    if "enable_shell S" for args t m p
    unfolding shell_run_def
    by (intro logs_bind logs_pure closed_layered)
      (force split: list.split option.split intro!: logs_pure closed_layered launch_layered
        simp: permitted_def that dest!: map_of_SomeD)
  show ?thesis
    unfolding run_tool_def
    by (auto intro!: logs_bind logs_pure closed_layered python shell file_tools_quiet)
qed

lemma dispatch_host_log:
  assumes "tool_dispatch E S call s = (r, s')" "on_world (te_tempdir_new E) (tick (te_os E) s) = (t, s1)"
  shows "host_log s1 = host_log s" and "host_log s' =
    (case t of Inr root \<Rightarrow> if te_linux E then host_log (snd (run_tool E S call root s1)) else host_log s
     | Inl _ \<Rightarrow> host_log s)"
proof -
  show log: "host_log s1 = host_log s"
    using assms(2) by (auto simp: on_world_def split: prod.splits)
  show "host_log s' =
      (case t of Inr root \<Rightarrow> if te_linux E then host_log (snd (run_tool E S call root s1)) else host_log s
       | Inl _ \<Rightarrow> host_log s)"
    using assms log unfolding tool_dispatch_def Let_def
    by (auto simp: drop_tempdir_def split: if_splits prod.splits sum.splits fault.splits)
qed

lemma dispatch_layered: "logs (execs_layered (te_seccomp E) (permitted S)) (tool_dispatch E S call)"
  unfolding logs_def
proof (intro allI impI)
  fix s r s'
  assume run: "tool_dispatch E S call s = (r, s')"
  obtain t s1 where new: "on_world (te_tempdir_new E) (tick (te_os E) s) = (t, s1)"
    by (cases "on_world (te_tempdir_new E) (tick (te_os E) s)")
  note log = dispatch_host_log [OF run new]
  show "\<exists>new. host_log s' = host_log s @ new \<and> execs_layered (te_seccomp E) (permitted S) new"
  proof (cases "\<exists>root. t = Inr root \<and> te_linux E")
    case True
    then obtain root where root: "t = Inr root" "te_linux E" by blast
    obtain r2 s2 where tool: "run_tool E S call root s1 = (r2, s2)" by (cases "run_tool E S call root s1")
    from logsD [OF run_tool_layered tool] log root tool show ?thesis by simp
  next
    case False
    with log have "host_log s' = host_log s" by (auto split: sum.splits)
    then show ?thesis using closed_layered by (intro exI [of _ "[]"]) (auto simp: closed_def)
  qed
qed

text \<open>The addresses a harness may connect to.\<close>

definition egress_ok :: "tool_settings \<Rightarrow> wire_event list \<Rightarrow> bool" where
  "egress_ok S l \<longleftrightarrow> (\<forall>a. Dialled a \<in> set l \<longrightarrow> blocked_range (sock_ip a) = None
     \<and> (settings_egress_allowlist S = [] \<or> sock_ip a \<in> set (settings_egress_allowlist S)))"

lemma egress_ok_Nil [simp]: "egress_ok S []"
  by (simp add: egress_ok_def)

lemma fetch_egress:
  assumes "fetch N meth url body (egress S) timeout v = (r, v')"
  shows "\<exists>new. wire_log v' = wire_log v @ new \<and> egress_ok S new"
proof -
  from fetch_log [OF assms] obtain new where "wire_log v' = wire_log v @ new"
    and "\<And>a. Dialled a \<in> set new \<Longrightarrow> filter_ip (sock_ip a) (egress_allowlist (egress S))
      (egress_allow_loopback (egress S)) = None" by blast
  then show ?thesis
    by (intro exI [of _ new]) (auto simp: egress_ok_def egress_def filter_ip_None)
qed

lemma http_run_egress:
  assumes "http_get_run N args (egress S) timeout v = (r, v') \<or> http_post_run N args (egress S) timeout v = (r, v')"
  shows "\<exists>new. wire_log v' = wire_log v @ new \<and> egress_ok S new"
proof (cases "v' = v")
  case True
  then show ?thesis by (intro exI [of _ "[]"]) (simp add: egress_ok_def)
next
  case False
  with assms obtain meth url body r1 where "fetch N meth url body (egress S) timeout v = (r1, v')"
    unfolding http_get_run_def http_post_run_def Let_def
    by (cases "url_arg args") (auto simp: bindS_def split: prod.splits sum.splits)
  then show ?thesis by (rule fetch_egress)
qed

lemma dispatch_http_logs:
  assumes "dispatch_http E S call W = (r, W')"
  shows "host_log (fst W') = host_log (fst W)
    \<and> (\<exists>new. wire_log (snd W') = wire_log (snd W) @ new \<and> egress_ok S new)"
  using assms unfolding dispatch_http_def Let_def
  by (auto dest: http_run_egress [OF disjI1] http_run_egress [OF disjI2]
        split: if_splits prod.splits sum.splits fault.splits option.splits http_error.splits)

lemma dispatch_one_logs:
  assumes "dispatch_one E S call W = (r, W')"
  shows "(\<exists>new. host_log (fst W') = host_log (fst W) @ new \<and> execs_layered (te_seccomp E) (permitted S) new)
    \<and> (\<exists>new. wire_log (snd W') = wire_log (snd W) @ new \<and> egress_ok S new)"
  using assms
proof (rule dispatch_one_cases)
  assume "dispatch_http E S call W = (r, W')"
  from dispatch_http_logs [OF this] show ?thesis
    using closed_layered by (auto simp: closed_def)
next
  assume "tool_dispatch E S call (fst W) = (r, fst W')" "snd W' = snd W"
  then show ?thesis
    using logsD [OF dispatch_layered, of E S call "fst W" r "fst W'"] by simp
qed

lemma invoke_logs:
  "invoke E S calls W = (r, W') \<Longrightarrow>
     (\<exists>new. host_log (fst W') = host_log (fst W) @ new \<and> execs_layered (te_seccomp E) (permitted S) new)
     \<and> (\<exists>new. wire_log (snd W') = wire_log (snd W) @ new \<and> egress_ok S new)"
proof (induction calls arbitrary: W r W')
  case Nil
  then show ?case using closed_layered by (auto simp: closed_def egress_ok_def)
next
  case (Cons call calls)
  obtain r1 W1 where one: "dispatch_one E S call W = (r1, W1)" by (cases "dispatch_one E S call W")
  obtain r2 W2 where rest: "invoke E S calls W1 = (r2, W2)" by (cases "invoke E S calls W1")
  from Cons.prems one rest have "W' = W1 \<or> W' = W2"
    by (auto simp: bindS_def split: sum.splits)
  moreover note dispatch_one_logs [OF one] Cons.IH [OF rest]
  moreover have "egress_ok S (xs @ ys)" if "egress_ok S xs" "egress_ok S ys" for xs ys
    using that by (auto simp: egress_ok_def)
  ultimately show ?case by (metis append_assoc execs_layered_append)
qed

text \<open>
  C7. Every program an invocation executes is the configured interpreter or a binary of the shell
  allow list, enabled by the settings, and the steps right before the execution are, in this order
  and all successful, the four resource limits of the settings, the landlock rules of the call's
  temporary directory and the compiled seccomp filter.
\<close>

theorem invoke_executes_only_sandboxed:
  assumes "invoke E S calls W = (r, W')"
  shows "\<exists>new. host_log (fst W') = host_log (fst W) @ new
    \<and> (\<forall>before binary args env ok after. new = before @ (Execve binary args env, ok) # after \<longrightarrow>
         (\<exists>req bpf. permitted S req \<and> build_filter (te_seccomp E) = Inr bpf \<and> binary = exact_path req
            \<and> args = drop 1 (argv req) \<and> env = exec_env req \<and> suffix (layers req bpf) before))"
  using invoke_logs [OF assms] unfolding execs_layered_def by blast

text \<open>
  C8. Whatever the calls, the resolver and the servers are, an invocation connects only to addresses
  outside every refused range and, when an egress allow list is configured, only to listed ones.
\<close>

theorem invoke_dials_only_permitted:
  assumes "invoke E S calls W = (r, W')"
  shows "\<exists>new. wire_log (snd W') = wire_log (snd W) @ new
    \<and> (\<forall>a. Dialled a \<in> set new \<longrightarrow> blocked_range (sock_ip a) = None
         \<and> (settings_egress_allowlist S = [] \<or> sock_ip a \<in> set (settings_egress_allowlist S)))"
  using invoke_logs [OF assms] unfolding egress_ok_def by blast

section \<open>The kernel gate and the file tools\<close>

text \<open>
  The gate refuses only a kernel whose release it can read: a release without two leading numbers
  is accepted, although landlock is required.
\<close>

lemma kernel_gate:
  "from_settings E S = Inr S' \<longleftrightarrow> S' = S \<and> (te_linux E \<and> require_landlock S \<longrightarrow>
     (\<forall>maj mnr. kernel_version E = Some (maj, mnr) \<longrightarrow> 5 < maj \<or> maj = 5 \<and> 13 \<le> mnr))"
  by (auto simp: from_settings_def split: option.splits prod.splits)

text \<open>
  Each call runs in a temporary directory of its own. Under the documented behaviour of a fresh
  directory (it has no files, so that every read fails), \<open>file_read\<close> never succeeds.
\<close>

definition fresh_dirs_empty :: "('w, 'v, 'c) tool_env \<Rightarrow> bool" where
  "fresh_dirs_empty E \<longleftrightarrow> (\<forall>w root w1 w2 rel. te_tempdir_new E w = (Inr root, w1) \<longrightarrow>
     cap_open (te_caps E) root w1 = (Inr (), w2) \<longrightarrow> isl (fst (cap_read (te_caps E) root rel w2)))"

lemma file_read_never_succeeds:
  assumes "fresh_dirs_empty E" "tool_dispatch E S call s = (Inr res, s')" "call_tool call = ''file_read''"
  shows "result_outcome res = Error"
proof -
  have no: False
    if "on_world (te_tempdir_new E) s0 = (Inr root, s1)" and "file_read_run E root args s1 = (Inr out, s2)"
    for s0 s1 s2 root args out
  proof -
    from that(1) obtain w1 where w1: "te_tempdir_new E (host_world s0) = (Inr root, w1)" "host_world s1 = w1"
      by (auto simp: on_world_def split: prod.splits)
    from that(2) obtain rel w2 b w3 where "cap_open (te_caps E) root w1 = (Inr (), w2)"
        "cap_read (te_caps E) root rel w2 = (Inr b, w3)"
      unfolding file_read_run_def
      by (auto simp: comp_iff cap_root_open_def cap_root_read_def orS_def on_world_def w1
          split: prod.splits)
    with assms(1) w1(1) show False unfolding fresh_dirs_empty_def by (metis fst_conv sum.disc(2))
  qed
  show ?thesis
    using assms(2,3) unfolding tool_dispatch_def Let_def run_tool_def
    by (auto simp: comp_iff dest: no split: if_splits prod.splits sum.splits fault.splits)
qed

section \<open>A harness for the witnesses\<close>

definition demo_env :: "(unit, unit, unit) tool_env" where
  "demo_env =
     \<lparr>te_linux = True, te_feature_http = True, te_feature_http_get = True, te_feature_http_post = True,
      te_release = Some ''6.1.0-13-amd64'', te_os = demo_os\<lparr>os_try_wait := (\<lambda>w. (Inr (Some (Some 0)), w))\<rparr>,
      te_seccomp = \<lparr>arch_of_target = Inr (), condition_new = (\<lambda>_. Inr ()), rule_new = (\<lambda>_. Inr ()),
        filter_new = (\<lambda>_. Inr ()), bpf_compile = (\<lambda>_. Inr ())\<rparr>,
      te_caps = \<lparr>cap_open = (\<lambda>_ w. (Inr (), w)), cap_read = (\<lambda>_ _ w. (Inl ''not found'', w)),
        cap_write = (\<lambda>_ _ _ w. (Inr (), w))\<rparr>,
      te_tempdir_new = (\<lambda>w. (Inr ''/tmp/x'', w)), te_tempdir_drop = (\<lambda>_ w. w), te_net = demo_network,
      te_python_args = (\<lambda>_. Inl ''missing field `code`''),
      te_shell_args = (\<lambda>_. Inr [''echo'', ''hi'']),
      te_read_args = (\<lambda>_. Inl ''missing field `path`''), te_write_args = (\<lambda>_. Inl ''missing field `path`''),
      te_show_hint = (\<lambda>_. [])\<rparr>"

definition demo_settings :: tool_settings where
  "demo_settings = default_tool_settings\<lparr>shell_allowlist := [(''echo'', ''/usr/bin/echo'')]\<rparr>"

definition demo_call :: "ulid \<Rightarrow> string \<Rightarrow> json \<Rightarrow> tool_call" where
  "demo_call cid tool args = \<lparr>call_id = cid, call_tool = tool, call_args = args,
     call_context = \<lparr>context_worker = WorkerId 1, context_episode = None\<rparr>\<rparr>"

definition demo_calls :: "tool_call list" where
  "demo_calls = [demo_call 2 ''http_get'' (JObj [(''url'', JStr ''http://a.example/'')]),
     demo_call 3 ''rm'' Null]"

definition tool_demo :: "(core_error fault + tool_result list) \<times> (unit, unit) tool_world" where
  "tool_demo = invoke demo_env demo_settings demo_calls (demo_host, demo_wire)"

lemma tool_demo_eq: "invoke demo_env demo_settings demo_calls (demo_host, demo_wire) = (fst tool_demo, snd tool_demo)"
  by (simp add: tool_demo_def)

text \<open>Two calls: a fetch that is redirected to the metadata address, and a tool that does not exist.\<close>

lemma demo_outcomes:
  "case fst tool_demo of Inr rs \<Rightarrow> map result_outcome rs = [Error, Error] | Inl _ \<Rightarrow> False"
  by code_simp

lemma demo_dialled:
  "Dialled \<lparr>sock_ip = V4 (Ipv4 93 184 216 34), sock_port = 80\<rparr> \<in> set (wire_log (snd (snd tool_demo)))"
  by code_simp

text \<open>A shell call on the same harness, whose program is really executed.\<close>

definition demo_shell :: "(core_error fault + tool_result list) \<times> (unit, unit) tool_world" where
  "demo_shell = invoke demo_env demo_settings [demo_call 1 ''shell'' Null] (demo_host, demo_wire)"

lemma demo_shell_eq:
  "invoke demo_env demo_settings [demo_call 1 ''shell'' Null] (demo_host, demo_wire) = (fst demo_shell, snd demo_shell)"
  by (simp add: demo_shell_def)

lemma demo_os_call:
  "callS (te_os demo_env) c s = (Inr (), s\<lparr>host_log := host_log s @ [(c, True)]\<rparr>)"
  by (simp add: callS_def answered_def demo_env_def demo_os_def)

lemma demo_filter: "\<exists>bpf. build_filter (te_seccomp demo_env) = Inr bpf"
proof -
  have "\<not> isl (build_filter (te_seccomp demo_env))" by code_simp
  then show ?thesis by (cases "build_filter (te_seccomp demo_env)") simp_all
qed

lemma demo_spawn:
  "spawn (te_os demo_env) req bpf s = (Inr (), s\<lparr>host_log := host_log s @
     [(Fork, True), (Chdir (exec_tempdir req), True), (Unshare, True)] @ layers req bpf
     @ [(Execve (exact_path req) (drop 1 (argv req)) (exec_env req), True)]\<rparr>)"
  by (simp add: spawn_def pre_exec_def layers_def bindS_def ignoreS_def demo_os_call)

lemma demo_launch:
  "\<exists>e \<in> set (host_log (snd (launch (te_os demo_env) (te_seccomp demo_env) req s))). is_exec e"
proof -
  obtain bpf where bpf: "build_filter (te_seccomp demo_env) = Inr bpf" using demo_filter by blast
  have lim: "write_limit (te_os demo_env) f l t = (Inr (), case l of None \<Rightarrow> t
      | Some n \<Rightarrow> t\<lparr>host_log := host_log t @ [(Write_file f (decimal (unat n)), True)]\<rparr>)" for f l t
    by (cases l) (simp_all add: write_limit_def demo_os_call)
  obtain dir s1 where cg: "cgroup_create (te_os demo_env) (decimal 7)
      (exec_memory_max req) (exec_pids_max req) s = (Inr (Some dir), s1)"
    by (simp add: cgroup_create_def delegated_tree_def demo_os_call bindS_def Let_def lim)
  let ?s2 = "snd (spawn (te_os demo_env) req bpf s1)"
  let ?s3 = "?s2\<lparr>host_log := host_log ?s2 @ [(Write_file (dir @ ''/cgroup.procs'') (decimal 8), True)]\<rparr>"
  obtain r s4 where wait: "wait_with_timeout (te_os demo_env) (exec_timeout req) ?s3 = (r, s4)"
    by (cases "wait_with_timeout (te_os demo_env) (exec_timeout req) ?s3")
  have ids: "os_process_id (te_os demo_env) w = 7" "os_child_id (te_os demo_env) w = 8" for w
    by (simp_all add: demo_env_def demo_os_def)
  have "snd (launch (te_os demo_env) (te_seccomp demo_env) req s) = cgroup_drop (te_os demo_env) (Some dir) s4"
    using wait unfolding launch_def with_cgroup_def
    by (simp add: bindS_def orS_def cg bpf demo_spawn join_pid_def ignoreS_def demo_os_call ids)
  moreover have "\<exists>new. host_log s4 = host_log ?s3 @ new"
    using logsD [OF wait_quiet wait] by blast
  moreover have "\<exists>e \<in> set (host_log ?s3). is_exec e"
    by (simp add: demo_spawn)
  ultimately show ?thesis
    by (auto simp: cgroup_drop_def demo_os_call)
qed

lemma demo_shell_executes: "\<exists>e \<in> set (host_log (fst (snd demo_shell))). is_exec e"
proof -
  let ?s = "tick (te_os demo_env) demo_host" and ?call = "demo_call 1 ''shell'' Null"
  let ?req = "\<lparr>exact_path = ''/usr/bin/echo'', argv = [''/usr/bin/echo'', ''hi''],
    exec_timeout = settings_timeout demo_settings, exec_tempdir = ''/tmp/x'',
    exec_rlimits = settings_rlimits demo_settings, exec_memory_max = cgroup_memory_max demo_settings,
    exec_pids_max = cgroup_pids_max demo_settings\<rparr>"
  have allow: "map_of (shell_allowlist demo_settings) ''echo'' = Some ''/usr/bin/echo''" "enable_shell demo_settings"
    and args: "te_shell_args demo_env a = Inr [''echo'', ''hi'']" "te_linux demo_env"
      "te_tempdir_new demo_env w = (Inr ''/tmp/x'', w)" for a w
    by (simp_all add: demo_settings_def default_tool_settings_def demo_env_def)
  have tool: "run_tool demo_env demo_settings ?call ''/tmp/x'' ?s
      = bindS (launch (te_os demo_env) (te_seccomp demo_env) ?req) (\<lambda>r. returnS (exec_output r)) ?s"
    by (simp add: run_tool_def shell_run_def demo_call_def allow args bindS_def)
  obtain r s' where disp: "tool_dispatch demo_env demo_settings ?call demo_host = (r, s')"
    by (cases "tool_dispatch demo_env demo_settings ?call demo_host")
  have "fst (snd demo_shell) = s'"
    using disp
    by (cases r) (simp_all add: demo_shell_def dispatch_one_def on_store_def bindS_def demo_call_def)
  moreover have "on_world (te_tempdir_new demo_env) ?s = (Inr ''/tmp/x'', ?s)"
    by (simp add: on_world_def args)
  ultimately have "host_log (fst (snd demo_shell)) = host_log (snd (run_tool demo_env demo_settings ?call ''/tmp/x'' ?s))"
    using dispatch_host_log(2) [OF disp] by (simp add: args)
  then show ?thesis
    using demo_launch [of ?req ?s] tool by (auto simp: bindS_def split: prod.splits sum.splits)
qed

theorem invoke_answers_each_call_witness:
  "(case fst tool_demo of Inr rs \<Rightarrow> map result_outcome rs = [Error, Error] | Inl _ \<Rightarrow> False)
   \<and> ((\<exists>msg. fst tool_demo = Inl (Panic msg))
    \<or> (\<exists>rs. fst tool_demo = Inr rs \<and> map result_call_id rs = map call_id demo_calls
         \<and> (\<forall>i < length demo_calls. call_tool (demo_calls ! i) \<notin> advertised demo_env demo_settings
              \<longrightarrow> result_outcome (rs ! i) = Error)))"
  using demo_outcomes invoke_answers_each_call [OF tool_demo_eq] by blast

theorem invoke_executes_only_sandboxed_witness:
  "(\<exists>e \<in> set (host_log (fst (snd demo_shell))). is_exec e)
   \<and> (\<exists>new. host_log (fst (snd demo_shell)) = host_log (fst (demo_host, demo_wire)) @ new
    \<and> (\<forall>before binary args env ok after. new = before @ (Execve binary args env, ok) # after \<longrightarrow>
         (\<exists>req bpf. permitted demo_settings req \<and> build_filter (te_seccomp demo_env) = Inr bpf
            \<and> binary = exact_path req \<and> args = drop 1 (argv req) \<and> env = exec_env req
            \<and> suffix (layers req bpf) before)))"
  using invoke_executes_only_sandboxed [OF demo_shell_eq] demo_shell_executes by blast

theorem invoke_dials_only_permitted_witness:
  "Dialled \<lparr>sock_ip = V4 (Ipv4 93 184 216 34), sock_port = 80\<rparr> \<in> set (wire_log (snd (snd tool_demo)))
   \<and> (\<exists>new. wire_log (snd (snd tool_demo)) = wire_log (snd (demo_host, demo_wire)) @ new
    \<and> (\<forall>a. Dialled a \<in> set new \<longrightarrow> blocked_range (sock_ip a) = None
         \<and> (settings_egress_allowlist demo_settings = []
            \<or> sock_ip a \<in> set (settings_egress_allowlist demo_settings))))"
  using invoke_dials_only_permitted [OF tool_demo_eq] demo_dialled by blast

end
