(* ===== verification/Storage_Postgres.thy ===== *)
theory Storage_Postgres
  imports Storage_Spec Lease
begin

text \<open>
  The Postgres metadata store (\<open>rollout-storage/src/postgres\<close>): the statements of \<open>PostgresStorage\<close>
  and \<open>PostgresTxn\<close> on the table \<open>kv\<close>, whose unique index (\<open>NULLS NOT DISTINCT\<close>) makes it a finite
  map. A transaction that runs alone implements the contract \<open>storage\<close>, so every client proved
  against the contract is correct on it. What concurrent transactions may do at the isolation level
  of the connection (READ COMMITTED) is the subject of \<open>Postgres_Concurrency\<close>.
\<close>

section \<open>The table\<close>

text \<open>
  A UUID is its 16 bytes, which are those of the ULID. The update time of a row is written and never
  read; the version counts updates.
\<close>

fun ulid_to_uuid :: "run_id \<Rightarrow> u128" where
  "ulid_to_uuid (RunId u) = u"

definition uuid_to_ulid :: "u128 \<Rightarrow> run_id" where
  "uuid_to_ulid u = RunId u"

type_synonym kv_key = "string \<times> u128 option \<times> string list"

record kv_row =
  kv_value :: bytes
  kv_version :: int

type_synonym kv_table = "(kv_key \<times> kv_row) list"

definition kv_key_of :: "storage_key \<Rightarrow> kv_key" where
  "kv_key_of k = (namespace k, map_option ulid_to_uuid (key_run k), path k)"

fun row_storage_key :: "kv_key \<Rightarrow> storage_key" where
  "row_storage_key (ns, run, p) = \<lparr>namespace = ns, key_run = map_option uuid_to_ulid run, path = p\<rparr>"

text \<open>\<open>INSERT ... ON CONFLICT DO UPDATE\<close> and \<open>DELETE\<close>.\<close>

definition kv_upsert :: "kv_key \<Rightarrow> bytes \<Rightarrow> kv_table \<Rightarrow> kv_table" where
  "kv_upsert k v t = (case map_of t k of
       None \<Rightarrow> t @ [(k, \<lparr>kv_value = v, kv_version = 0\<rparr>)]
     | Some row \<Rightarrow> AList.update k \<lparr>kv_value = v, kv_version = kv_version row + 1\<rparr> t)"

definition kv_delete :: "kv_key \<Rightarrow> kv_table \<Rightarrow> kv_table" where
  "kv_delete k t = filter (\<lambda>r. fst r \<noteq> k) t"

definition kv_select :: "kv_key \<Rightarrow> kv_table \<Rightarrow> bytes option" where
  "kv_select k t = map_option kv_value (map_of t k)"

section \<open>sqlx and the server\<close>

text \<open>
  Any statement may fail. A failed commit may have been applied. Rows of a scan come in an order of
  the server's choosing: it ranks the rows in some way. No table reaches \<open>2 ^ 63 - 1\<close> rows.
\<close>

datatype pg_stmt = PgBegin | PgSelect | PgScan | PgUpsert | PgDelete | PgRollback | PgPing

record sqlx =
  stmt_error :: "pg_stmt \<Rightarrow> kv_table \<Rightarrow> string option"
  commit_error :: "kv_table \<Rightarrow> (string \<times> bool) option"
  row_rank :: "kv_key \<times> kv_row \<Rightarrow> nat"

definition table_limit :: nat where
  "table_limit = 2 ^ 63 - 1"

definition pg_transient :: "string \<Rightarrow> core_error fault" where
  "pg_transient msg = transient msg Never"

definition run_stmt :: "sqlx \<Rightarrow> pg_stmt \<Rightarrow> kv_table \<Rightarrow> unit res" where
  "run_stmt Q st t = (case stmt_error Q st t of
       Some e \<Rightarrow> Inl (pg_transient e)
     | None \<Rightarrow> if st = PgUpsert \<and> table_limit \<le> length t
               then Inl (pg_transient ''table is full'') else Inr ())"

record pg_store =
  kv :: kv_table

text \<open>
  A transaction sees its own writes on top of the table. After a failed statement the server refuses
  every further one, and turns a commit into a rollback that reports no error.
\<close>

record pg_tx =
  tx_kv :: kv_table
  tx_aborted :: bool

record pg_txn =
  tx :: "pg_tx option"

definition tx_mut :: "pg_txn \<Rightarrow> pg_tx res" where
  "tx_mut t = (case tx t of None \<Rightarrow> Inl (internal ''PostgresTxn used after commit/abort'') | Some x \<Rightarrow> Inr x)"

definition tx_stmt :: "sqlx \<Rightarrow> pg_stmt \<Rightarrow> (kv_table \<Rightarrow> 'a \<times> kv_table) \<Rightarrow> (pg_txn, 'a) io" where
  "tx_stmt Q st f t = (case tx_mut t of
       Inl e \<Rightarrow> (Inl e, t)
     | Inr x \<Rightarrow>
         if tx_aborted x
         then (Inl (pg_transient ''current transaction is aborted, commands ignored until end of transaction block''), t)
         else (case run_stmt Q st (tx_kv x) of
             Inl e \<Rightarrow> (Inl e, \<lparr>tx = Some (x\<lparr>tx_aborted := True\<rparr>)\<rparr>)
           | Inr _ \<Rightarrow> (case f (tx_kv x) of (a, t') \<Rightarrow> (Inr a, \<lparr>tx = Some (x\<lparr>tx_kv := t'\<rparr>)\<rparr>))))"

section \<open>The operations\<close>

definition pg_begin :: "sqlx \<Rightarrow> pg_store \<Rightarrow> pg_txn res" where
  "pg_begin Q s = bindE (run_stmt Q PgBegin (kv s)) (\<lambda>_.
     Inr \<lparr>tx = Some \<lparr>tx_kv = kv s, tx_aborted = False\<rparr>\<rparr>)"

definition pg_get_bytes :: "sqlx \<Rightarrow> storage_key \<Rightarrow> pg_store \<Rightarrow> bytes option res" where
  "pg_get_bytes Q k s =
     bindE (validate_for_postgres k) (\<lambda>_.
     bindE (run_stmt Q PgSelect (kv s)) (\<lambda>_.
     Inr (kv_select (kv_key_of k) (kv s))))"

definition pg_get_many_bytes :: "sqlx \<Rightarrow> storage_key list \<Rightarrow> pg_store \<Rightarrow> bytes option list res" where
  "pg_get_many_bytes Q ks s =
     bindE (collectE validate_for_postgres ks) (\<lambda>_.
     collectE (\<lambda>k. pg_get_bytes Q k s) ks)"

text \<open>\<open>i64::try_from(limit.unwrap_or(usize::MAX / 2)).unwrap_or(i64::MAX)\<close>\<close>

definition scan_limit :: "nat option \<Rightarrow> nat" where
  "scan_limit limit = (let n = (case limit of None \<Rightarrow> 2 ^ 63 - 1 | Some n \<Rightarrow> n) in
     if n < 2 ^ 63 then n else 2 ^ 63 - 1)"

definition row_matches :: "storage_key \<Rightarrow> kv_key \<Rightarrow> bool" where
  "row_matches p r = (case (kv_key_of p, r) of ((pns, prun, pp), (ns, run, rp)) \<Rightarrow>
     ns = pns \<and> run = prun \<and> (pp = [] \<or> take (length pp) rp = pp))"

definition pg_scan_bytes :: "sqlx \<Rightarrow> key_range \<Rightarrow> pg_store \<Rightarrow> (storage_key \<times> bytes) list res" where
  "pg_scan_bytes Q r s =
     bindE (validate_for_postgres (range_prefix r)) (\<lambda>_.
     bindE (run_stmt Q PgScan (kv s)) (\<lambda>_.
     Inr (map (\<lambda>(k, row). (row_storage_key k, kv_value row))
       (take (scan_limit (range_limit r))
         (sort_key (row_rank Q) (filter (\<lambda>x. row_matches (range_prefix r) (fst x)) (kv s)))))))"

definition pg_watch :: "storage_key \<Rightarrow> 'a res" where
  "pg_watch p = Inl (plugin_contract ''PostgresStorage''
     (''PostgresStorage does not support in-process broadcast watch; ''
      @ ''use watch_stream for cross-process notification''))"

definition pg_ping :: "sqlx \<Rightarrow> pg_store \<Rightarrow> unit res" where
  "pg_ping Q s = run_stmt Q PgPing (kv s)"

definition pg_put_bytes :: "sqlx \<Rightarrow> storage_key \<Rightarrow> bytes \<Rightarrow> (pg_txn, unit) io" where
  "pg_put_bytes Q k v =
     bindS (liftE (validate_for_postgres k)) (\<lambda>_.
     tx_stmt Q PgUpsert (\<lambda>t. ((), kv_upsert (kv_key_of k) v t)))"

definition pg_delete :: "sqlx \<Rightarrow> storage_key \<Rightarrow> (pg_txn, unit) io" where
  "pg_delete Q k =
     bindS (liftE (validate_for_postgres k)) (\<lambda>_.
     tx_stmt Q PgDelete (\<lambda>t. ((), kv_delete (kv_key_of k) t)))"

definition pg_cas_bytes :: "sqlx \<Rightarrow> storage_key \<Rightarrow> bytes option \<Rightarrow> bytes option \<Rightarrow> (pg_txn, bool) io" where
  "pg_cas_bytes Q k expected new =
     bindS (liftE (validate_for_postgres k)) (\<lambda>_.
     bindS (tx_stmt Q PgSelect (\<lambda>t. (kv_select (kv_key_of k) t, t))) (\<lambda>current.
     if current \<noteq> expected then returnS False
     else
       bindS (case (expected, new) of
           (_, Some v) \<Rightarrow> tx_stmt Q PgUpsert (\<lambda>t. ((), kv_upsert (kv_key_of k) v t))
         | (Some _, None) \<Rightarrow> tx_stmt Q PgDelete (\<lambda>t. ((), kv_delete (kv_key_of k) t))
         | (None, None) \<Rightarrow> returnS ()) (\<lambda>_.
       returnS True)))"

definition pg_commit :: "sqlx \<Rightarrow> pg_txn \<Rightarrow> (pg_store, unit) io" where
  "pg_commit Q t s = (case tx t of
       None \<Rightarrow> (Inl (internal ''PostgresTxn::commit called after commit/abort''), s)
     | Some x \<Rightarrow>
         if tx_aborted x then (Inr (), s)
         else (case commit_error Q (tx_kv x) of
             None \<Rightarrow> (Inr (), \<lparr>kv = tx_kv x\<rparr>)
           | Some (e, applied) \<Rightarrow> (Inl (pg_transient e), if applied then \<lparr>kv = tx_kv x\<rparr> else s)))"

definition pg_abort :: "sqlx \<Rightarrow> pg_txn \<Rightarrow> (pg_store, unit) io" where
  "pg_abort Q t s = (case tx t of None \<Rightarrow> (Inr (), s) | Some x \<Rightarrow> (run_stmt Q PgRollback (tx_kv x), s))"

definition postgres_ops :: "sqlx \<Rightarrow> (pg_store, pg_txn) storage_ops" where
  "postgres_ops Q = \<lparr>begin_txn = pg_begin Q, get_bytes = pg_get_bytes Q, get_many_bytes = pg_get_many_bytes Q,
     scan_bytes = pg_scan_bytes Q, put_bytes = pg_put_bytes Q, delete_key = pg_delete Q,
     cas_bytes = pg_cas_bytes Q, commit_txn = pg_commit Q, abort_txn = pg_abort Q\<rparr>"

lemma postgres_ops_simps [simp]:
  "begin_txn (postgres_ops Q) = pg_begin Q"
  "get_bytes (postgres_ops Q) = pg_get_bytes Q"
  "get_many_bytes (postgres_ops Q) = pg_get_many_bytes Q"
  "scan_bytes (postgres_ops Q) = pg_scan_bytes Q"
  "put_bytes (postgres_ops Q) = pg_put_bytes Q"
  "delete_key (postgres_ops Q) = pg_delete Q"
  "cas_bytes (postgres_ops Q) = pg_cas_bytes Q"
  "commit_txn (postgres_ops Q) = pg_commit Q"
  "abort_txn (postgres_ops Q) = pg_abort Q"
  by (simp_all add: postgres_ops_def)

section \<open>The contract holds for a transaction that runs alone\<close>

definition pg_okk :: "storage_key \<Rightarrow> bool" where
  "pg_okk k \<longleftrightarrow> validate_for_postgres k = Inr ()"

definition kv_view :: "kv_table \<Rightarrow> store_view" where
  "kv_view t k = (if pg_okk k then kv_select (kv_key_of k) t else None)"

definition kv_inv :: "kv_table \<Rightarrow> bool" where
  "kv_inv t \<longleftrightarrow> distinct (map fst t) \<and> length t \<le> table_limit
     \<and> list_all (\<lambda>r. pg_okk (row_storage_key (fst r))) t"

definition pg_view :: "pg_store \<Rightarrow> store_view" where
  "pg_view s = kv_view (kv s)"

definition pg_inv :: "pg_store \<Rightarrow> bool" where
  "pg_inv s = kv_inv (kv s)"

definition pg_tview :: "pg_txn \<Rightarrow> store_view" where
  "pg_tview t = (case tx t of None \<Rightarrow> \<lambda>_. None | Some x \<Rightarrow> kv_view (tx_kv x))"

definition pg_tinv :: "pg_txn \<Rightarrow> bool" where
  "pg_tinv t = (case tx t of None \<Rightarrow> False | Some x \<Rightarrow> \<not> tx_aborted x \<and> kv_inv (tx_kv x))"

text \<open>The keys a scan ranges over: a missing run id stands for the rows without one.\<close>

definition pg_inscope :: "storage_key \<Rightarrow> storage_key \<Rightarrow> bool" where
  "pg_inscope k p \<longleftrightarrow> namespace k = namespace p \<and> key_run k = key_run p \<and> prefix (path p) (path k)"

lemma uuid_inverse [simp]: "uuid_to_ulid (ulid_to_uuid r) = r" "ulid_to_uuid (uuid_to_ulid u) = u"
  by (cases r) (simp_all add: uuid_to_ulid_def)

lemma row_key_inverse [simp]: "row_storage_key (kv_key_of k) = k" "kv_key_of (row_storage_key r) = r"
  by (cases k; cases r; auto simp: kv_key_of_def option.map_comp comp_def option.map_ident)+

lemma kv_key_of_eq [simp]: "kv_key_of j = kv_key_of k \<longleftrightarrow> j = k"
  by (metis row_key_inverse(1))

lemma row_matches_inscope: "row_matches p (kv_key_of k) \<longleftrightarrow> pg_inscope k p"
proof -
  have "map_option ulid_to_uuid a = map_option ulid_to_uuid b \<longleftrightarrow> a = b" for a b
    by (metis (no_types, lifting) option.map_comp option.map_ident uuid_inverse(1) comp_apply option.map_cong)
  then show ?thesis
    by (auto simp: row_matches_def kv_key_of_def pg_inscope_def prefix_def)
      (metis append_take_drop_id)
qed

lemma run_upsert_Inr: "run_stmt Q PgUpsert t = Inr u \<Longrightarrow> length t < table_limit"
  by (auto simp: run_stmt_def split: option.splits if_splits)

lemma kv_select_upsert:
  "kv_select j (kv_upsert k v t) = (if j = k then Some v else kv_select j t)"
  by (auto simp: kv_select_def kv_upsert_def update_conv' map_add_def split: option.splits)

lemma kv_select_delete: "kv_select j (kv_delete k t) = (if j = k then None else kv_select j t)"
proof -
  have "map_of (kv_delete k t) j = (if j = k then None else map_of t j)"
    unfolding kv_delete_def by (induction t) auto
  then show ?thesis by (simp add: kv_select_def)
qed

lemma kv_view_upsert: "pg_okk k \<Longrightarrow> kv_view (kv_upsert (kv_key_of k) v t) = (kv_view t)(k \<mapsto> v)"
  by (auto simp: kv_view_def kv_select_upsert fun_eq_iff)

lemma kv_view_delete: "pg_okk k \<Longrightarrow> kv_view (kv_delete (kv_key_of k) t) = (kv_view t)(k := None)"
  by (auto simp: kv_view_def kv_select_delete fun_eq_iff)

lemma kv_inv_upsert:
  assumes "kv_inv t" "pg_okk k" "length t < table_limit"
  shows "kv_inv (kv_upsert (kv_key_of k) v t)"
proof (cases "map_of t (kv_key_of k)")
  case None
  then have "kv_key_of k \<notin> fst ` set t" by (simp add: map_of_eq_None_iff)
  with None assms show ?thesis
    by (simp add: kv_inv_def kv_upsert_def)
next
  case (Some row)
  have keys: "map fst (AList.update (kv_key_of k) r t) = map fst t" for r
    using Some by (induction t) auto
  then have "length (AList.update (kv_key_of k) r t) = length t" for r
    by (metis length_map)
  moreover have "list_all (\<lambda>x. pg_okk (row_storage_key x)) (map fst t)"
    using assms(1) by (simp add: kv_inv_def list.pred_map comp_def)
  then have "list_all (\<lambda>x. pg_okk (row_storage_key (fst x))) (AList.update (kv_key_of k) r t)" for r
    using keys [of r] by (metis (no_types, lifting) list.pred_map comp_apply list.pred_mono_strong)
  ultimately show ?thesis using assms Some keys by (simp add: kv_inv_def kv_upsert_def)
qed

lemma kv_inv_delete: "kv_inv t \<Longrightarrow> kv_inv (kv_delete k t)"
  by (auto simp: kv_inv_def kv_delete_def distinct_map_filter list_all_iff
      intro: order_trans [OF length_filter_le])

lemma tx_stmt_Inr:
  "tx_stmt Q st f t = (Inr a, t') \<longleftrightarrow> (\<exists>x table. tx t = Some x \<and> \<not> tx_aborted x
     \<and> run_stmt Q st (tx_kv x) = Inr () \<and> f (tx_kv x) = (a, table) \<and> t' = \<lparr>tx = Some (x\<lparr>tx_kv := table\<rparr>)\<rparr>)"
  by (cases "tx t"; cases "run_stmt Q st (tx_kv (the (tx t)))"; cases "f (tx_kv (the (tx t)))")
    (auto simp: tx_stmt_def tx_mut_def)

lemmas pg_abs = pg_tinv_def pg_tview_def pg_view_def pg_inv_def

lemma pg_put_law:
  "pg_tinv t \<Longrightarrow> pg_okk k \<Longrightarrow> pg_put_bytes Q k b t = (Inr (), t') \<Longrightarrow>
     pg_tinv t' \<and> pg_tview t' = (pg_tview t)(k \<mapsto> b)"
  by (auto simp: pg_put_bytes_def comp_iff tx_stmt_Inr pg_abs kv_view_upsert kv_inv_upsert run_upsert_Inr)

lemma pg_delete_law:
  "pg_tinv t \<Longrightarrow> pg_okk k \<Longrightarrow> pg_delete Q k t = (Inr (), t') \<Longrightarrow>
     pg_tinv t' \<and> pg_tview t' = (pg_tview t)(k := None)"
  by (auto simp: pg_delete_def comp_iff tx_stmt_Inr pg_abs kv_view_delete kv_inv_delete)

lemma pg_cas_law:
  assumes "pg_tinv t" "pg_okk k" "pg_cas_bytes Q k expected new t = (Inr ok, t')"
  shows "pg_tinv t' \<and> ok = (pg_tview t k = expected)
    \<and> pg_tview t' = (if ok then (pg_tview t)(k := new) else pg_tview t)"
proof -
  from assms(1) obtain x where x: "tx t = Some x" "\<not> tx_aborted x" "kv_inv (tx_kv x)"
    by (auto simp: pg_tinv_def split: option.splits)
  have cur: "pg_tview t k = kv_select (kv_key_of k) (tx_kv x)"
    using x assms(2) by (simp add: pg_tview_def kv_view_def)
  have absent: "pg_tview t = (pg_tview t)(k := None)" if "pg_tview t k = None"
    using that by (metis fun_upd_triv)
  show ?thesis
    using assms(3) x cur absent assms(2)
    by (auto simp: pg_cas_bytes_def comp_iff tx_stmt_Inr pg_abs kv_view_upsert kv_view_delete kv_inv_upsert
        kv_inv_delete run_upsert_Inr split: if_splits option.splits)
qed

lemma pg_commit_law:
  "pg_inv s \<Longrightarrow> pg_tinv t \<Longrightarrow> pg_commit Q t s = (r, s') \<Longrightarrow>
     pg_inv s' \<and> (r = Inr () \<longrightarrow> pg_view s' = pg_tview t) \<and> (pg_view s' = pg_view s \<or> pg_view s' = pg_tview t)"
  by (auto simp: pg_commit_def pg_abs split: option.splits if_splits prod.splits)

lemma pg_scan_law:
  assumes "pg_inv s" "pg_scan_bytes Q \<lparr>range_prefix = p, range_limit = None\<rparr> s = Inr rows"
  shows "distinct (map fst rows) \<and> set rows = {(k, v). pg_view s k = Some v \<and> pg_inscope k p}"
proof -
  let ?hits = "filter (\<lambda>x. row_matches p (fst x)) (kv s)"
  have inv: "distinct (map fst (kv s))" "length (kv s) \<le> table_limit"
      "\<And>x. x \<in> set (kv s) \<Longrightarrow> pg_okk (row_storage_key (fst x))"
    using assms(1) by (auto simp: pg_inv_def kv_inv_def list_all_iff)
  have "length ?hits \<le> scan_limit None"
    by (rule order_trans [OF length_filter_le]) (use inv(2) in \<open>simp add: scan_limit_def table_limit_def\<close>)
  then have rows: "rows = map (\<lambda>x. (row_storage_key (fst x), kv_value (snd x))) (sort_key (row_rank Q) ?hits)"
    using assms(2) by (auto simp: pg_scan_bytes_def comp_iff case_prod_beta')
  have "distinct (map fst ?hits)" using inv(1) by (rule distinct_map_filter)
  then have "inj_on fst (set ?hits)" "distinct ?hits" by (simp_all add: distinct_map)
  moreover have "inj row_storage_key" by (rule inj_on_inverseI [where g = kv_key_of]) simp
  ultimately have "inj_on (row_storage_key \<circ> fst) (set ?hits)" "distinct (sort_key (row_rank Q) ?hits)"
    by (auto intro: comp_inj_on inj_on_subset)
  then have "distinct (map (row_storage_key \<circ> fst) (sort_key (row_rank Q) ?hits))"
    by (simp add: distinct_map)
  then have dist: "distinct (map fst rows)" by (simp add: rows comp_def)
  have "(k, v) \<in> set rows \<longleftrightarrow> pg_view s k = Some v \<and> pg_inscope k p" for k v
  proof -
    have "(k, v) \<in> set rows \<longleftrightarrow>
        (\<exists>r row. (r, row) \<in> set (kv s) \<and> row_matches p r \<and> k = row_storage_key r \<and> v = kv_value row)"
      by (force simp: rows)
    also have "\<dots> \<longleftrightarrow> (\<exists>row. (kv_key_of k, row) \<in> set (kv s) \<and> row_matches p (kv_key_of k) \<and> v = kv_value row)"
      by (metis row_key_inverse)
    also have "\<dots> \<longleftrightarrow> (\<exists>row. (kv_key_of k, row) \<in> set (kv s) \<and> kv_value row = v \<and> pg_inscope k p)"
      by (auto simp: row_matches_inscope)
    also have "\<dots> \<longleftrightarrow> pg_view s k = Some v \<and> pg_inscope k p"
      using inv(1) inv(3) [of "(kv_key_of k, _)"]
      by (auto simp: pg_view_def kv_view_def kv_select_def)
    finally show ?thesis .
  qed
  then have "set rows = {(k, v). pg_view s k = Some v \<and> pg_inscope k p}" by auto
  with dist show ?thesis by simp
qed

lemma pg_begin_law: "pg_inv s \<Longrightarrow> pg_begin Q s = Inr t \<Longrightarrow> pg_tinv t \<and> pg_tview t = pg_view s"
  by (auto simp: pg_begin_def comp_iff pg_abs)

lemma pg_get_law: "pg_okk k \<Longrightarrow> pg_get_bytes Q k s = Inr g \<Longrightarrow> g = pg_view s k"
  by (auto simp: pg_get_bytes_def comp_iff pg_view_def kv_view_def)

lemma pg_abort_state: "pg_abort Q t s = (r, s') \<Longrightarrow> s' = s"
  by (auto simp: pg_abort_def split: option.splits)

lemma pg_scope_law: "key_run p \<noteq> None \<Longrightarrow> pg_inscope k p = key_has_prefix k p"
  by (auto simp: pg_inscope_def key_has_prefix_def)

lemma pg_view_okk: "pg_view s k = Some v \<Longrightarrow> pg_okk k"
  by (simp add: pg_view_def kv_view_def split: if_splits)

interpretation pg: storage "postgres_ops Q" pg_view pg_tview pg_okk pg_inv pg_tinv pg_inscope for Q
proof unfold_locales
  fix s t k g b t' expected new ok r s' p rows v
  show "pg_inv s \<Longrightarrow> begin_txn (postgres_ops Q) s = Inr t \<Longrightarrow> pg_tinv t \<and> pg_tview t = pg_view s"
    by (simp add: pg_begin_law)
  show "pg_okk k \<Longrightarrow> get_bytes (postgres_ops Q) k s = Inr g \<Longrightarrow> g = pg_view s k"
    by (simp add: pg_get_law)
  show "pg_inv s \<Longrightarrow> scan_bytes (postgres_ops Q) \<lparr>range_prefix = p, range_limit = None\<rparr> s = Inr rows \<Longrightarrow>
      distinct (map fst rows) \<and> set rows = {(k, v). pg_view s k = Some v \<and> pg_inscope k p}"
    by (simp add: pg_scan_law)
  show "key_run p \<noteq> None \<Longrightarrow> pg_inscope k p = key_has_prefix k p"
    by (rule pg_scope_law)
  show "pg_view s k = Some v \<Longrightarrow> pg_okk k"
    by (rule pg_view_okk)
  show "pg_tinv t \<Longrightarrow> pg_okk k \<Longrightarrow> put_bytes (postgres_ops Q) k b t = (Inr (), t') \<Longrightarrow>
      pg_tinv t' \<and> pg_tview t' = (pg_tview t)(k \<mapsto> b)"
    using pg_put_law by simp
  show "pg_tinv t \<Longrightarrow> pg_okk k \<Longrightarrow> delete_key (postgres_ops Q) k t = (Inr (), t') \<Longrightarrow>
      pg_tinv t' \<and> pg_tview t' = (pg_tview t)(k := None)"
    using pg_delete_law by simp
  show "pg_tinv t \<Longrightarrow> pg_okk k \<Longrightarrow> cas_bytes (postgres_ops Q) k expected new t = (Inr ok, t') \<Longrightarrow>
      pg_tinv t' \<and> ok = (pg_tview t k = expected) \<and> pg_tview t' = (if ok then (pg_tview t)(k := new) else pg_tview t)"
    using pg_cas_law by simp
  show "pg_inv s \<Longrightarrow> pg_tinv t \<Longrightarrow> commit_txn (postgres_ops Q) t s = (r, s') \<Longrightarrow>
      pg_inv s' \<and> (r = Inr () \<longrightarrow> pg_view s' = pg_tview t) \<and> (pg_view s' = pg_view s \<or> pg_view s' = pg_tview t)"
    using pg_commit_law by simp
  show "pg_inv s \<Longrightarrow> abort_txn (postgres_ops Q) t s = (r, s') \<Longrightarrow> pg_inv s' \<and> pg_view s' = pg_view s"
    by (auto dest: pg_abort_state)
qed

section \<open>Property\<close>

text \<open>
  C28. On the Postgres backend a transaction that nothing else overlaps does what the same script does
  to a finite map: if it opens, runs and commits without an error, every compare-and-set answers as
  the map would and the committed table is the map's final state, whatever the row order and the
  other errors of the server.
\<close>

theorem postgres_transaction_refines_map:
  assumes "pg_inv s" "\<forall>x \<in> set ops. validate_for_postgres (op_key x) = Inr ()"
    and "transaction (postgres_ops Q) ops s = (Inr oks, s')"
  shows "pg_inv s' \<and> (\<exists>evs. spec_run ops (pg_view s) = (oks, evs, pg_view s'))"
  using pg.transaction_law [OF assms(1) _ assms(3)] assms(2) by (auto simp: pg_okk_def)

definition pg_demo :: sqlx where
  "pg_demo = \<lparr>stmt_error = \<lambda>_ _. None, commit_error = \<lambda>_. None, row_rank = \<lambda>_. 0\<rparr>"

definition pg_demo_key :: storage_key where
  "pg_demo_key = \<lparr>namespace = ''ns'', key_run = None, path = [''a'']\<rparr>"

definition pg_demo_ops :: "txn_op list" where
  "pg_demo_ops = [PutOp pg_demo_key [1], CasOp pg_demo_key None (Some [2]), CasOp pg_demo_key (Some [1]) (Some [3])]"

lemma pg_demo_run:
  "transaction (postgres_ops pg_demo) pg_demo_ops \<lparr>kv = []\<rparr>
     = (Inr [True, False, True], \<lparr>kv = [((''ns'', None, [''a'']), \<lparr>kv_value = [3], kv_version = 1\<rparr>)]\<rparr>)"
  by code_simp

theorem postgres_transaction_refines_map_witness:
  "pg_inv \<lparr>kv = [((''ns'', None, [''a'']), \<lparr>kv_value = [3], kv_version = 1\<rparr>)]\<rparr>"
  using postgres_transaction_refines_map [OF _ _ pg_demo_run]
  by (simp add: pg_inv_def kv_inv_def pg_demo_ops_def pg_demo_key_def validate_for_postgres_ok printable_def)

end
