(* ===== verification/Postgres_Concurrency.thy ===== *)
theory Postgres_Concurrency
  imports Storage_Postgres
begin

text \<open>
  Concurrent compare-and-set transactions on one row of the Postgres store. The pool opens
  transactions at the server's default isolation level, READ COMMITTED, so each statement of
  \<open>cas_bytes\<close> sees what has been committed when it runs: \<open>cas_step\<close> is one statement of one client.
  \<open>SELECT ... FOR UPDATE\<close> locks the row it finds and waits for another holder of the lock; it finds
  nothing, and locks nothing, where no row is committed. \<open>INSERT ... ON CONFLICT DO UPDATE\<close> waits for a
  writer of the key that has not ended and then overwrites what it left.
\<close>

section \<open>The statements of concurrent clients\<close>

record cas_req =
  expected :: "bytes option"
  new :: "bytes option"

text \<open>Absent to absent writes nothing.\<close>

definition writes :: "cas_req \<Rightarrow> bool" where
  "writes q \<longleftrightarrow> expected q \<noteq> None \<or> new q \<noteq> None"

datatype cas_pc = Begun | Selected "bytes option" | Staged | Refused | Won | Lost | Failed

record cas_state =
  row :: "bytes option"
  locked_by :: "nat option"
  pcs :: "nat \<Rightarrow> cas_pc"
  wins :: "cas_req list"

definition may_lock :: "nat \<Rightarrow> cas_state \<Rightarrow> bool" where
  "may_lock c s \<longleftrightarrow> locked_by s = None \<or> locked_by s = Some c"

definition goto :: "nat \<Rightarrow> cas_pc \<Rightarrow> cas_state \<Rightarrow> cas_state" where
  "goto c pc s = s\<lparr>pcs := (pcs s)(c := pc)\<rparr>"

definition lock_row :: "nat \<Rightarrow> cas_state \<Rightarrow> cas_state" where
  "lock_row c s = s\<lparr>locked_by := Some c\<rparr>"

definition release :: "nat \<Rightarrow> cas_state \<Rightarrow> cas_state" where
  "release c s = (if locked_by s = Some c then s\<lparr>locked_by := None\<rparr> else s)"

text \<open>
  \<open>R c\<close> is the request of client \<open>c\<close>, whose caller commits when the answer is true and aborts when it
  is false. Any statement may fail, which ends the transaction.
\<close>

inductive cas_step :: "(nat \<Rightarrow> cas_req) \<Rightarrow> cas_state \<Rightarrow> cas_state \<Rightarrow> bool" for R where
  select_absent: "pcs s c = Begun \<Longrightarrow> row s = None \<Longrightarrow> cas_step R s (goto c (Selected None) s)"
| select_present: "pcs s c = Begun \<Longrightarrow> row s = Some v \<Longrightarrow> may_lock c s \<Longrightarrow>
    cas_step R s (goto c (Selected (Some v)) (lock_row c s))"
| mismatch: "pcs s c = Selected v \<Longrightarrow> v \<noteq> expected (R c) \<Longrightarrow> cas_step R s (goto c Refused s)"
| stage: "pcs s c = Selected v \<Longrightarrow> v = expected (R c) \<Longrightarrow> writes (R c) \<Longrightarrow>
    may_lock c s \<Longrightarrow> cas_step R s (goto c Staged (lock_row c s))"
| no_op: "pcs s c = Selected v \<Longrightarrow> v = expected (R c) \<Longrightarrow> \<not> writes (R c) \<Longrightarrow>
    cas_step R s (goto c Staged s)"
| commit: "pcs s c = Staged \<Longrightarrow> cas_step R s (goto c Won (release c
    (s\<lparr>row := (if writes (R c) then new (R c) else row s), wins := wins s @ [R c]\<rparr>)))"
| abort: "pcs s c = Refused \<Longrightarrow> cas_step R s (goto c Lost (release c s))"
| fail: "pcs s c \<in> {Begun, Staged} \<union> range Selected \<Longrightarrow> cas_step R s (goto c Failed (release c s))"

definition cas_initial :: "bytes option \<Rightarrow> cas_state" where
  "cas_initial v = \<lparr>row = v, locked_by = None, pcs = \<lambda>_. Begun, wins = []\<rparr>"

text \<open>What the requests mean one after another.\<close>

fun serial_run :: "cas_req list \<Rightarrow> bytes option \<Rightarrow> bytes option option" where
  "serial_run [] v = Some v"
| "serial_run (q # qs) v = (if v = expected q then serial_run qs (new q) else None)"

text \<open>No request can match an absent row: none expects one, or the row exists and none deletes it.\<close>

definition never_absent :: "(nat \<Rightarrow> cas_req) \<Rightarrow> bytes option \<Rightarrow> bool" where
  "never_absent R v \<longleftrightarrow> (\<forall>c. expected (R c) \<noteq> None) \<or> v \<noteq> None \<and> (\<forall>c. new (R c) \<noteq> None)"

section \<open>Present rows\<close>

text \<open>
  The lock is held from the read to the end of the transaction: a client that has read the row, or
  has written it, still finds there what it read.
\<close>

definition cas_inv :: "(nat \<Rightarrow> cas_req) \<Rightarrow> bytes option \<Rightarrow> cas_state \<Rightarrow> bool" where
  "cas_inv R v0 s \<longleftrightarrow>
     (\<forall>c v. pcs s c = Selected (Some v) \<longrightarrow> locked_by s = Some c \<and> row s = Some v)
   \<and> (\<forall>c. pcs s c = Staged \<longrightarrow> locked_by s = Some c \<and> row s = expected (R c) \<and> expected (R c) \<noteq> None)
   \<and> (v0 \<noteq> None \<and> (\<forall>c. new (R c) \<noteq> None) \<longrightarrow> row s \<noteq> None \<and> (\<forall>c. pcs s c \<noteq> Selected None))
   \<and> serial_run (wins s) v0 = Some (row s)"

lemmas cas_moves = goto_def lock_row_def release_def may_lock_def

lemma serial_run_append:
  "serial_run (qs @ rs) v = (case serial_run qs v of None \<Rightarrow> None | Some w \<Rightarrow> serial_run rs w)"
  by (induction qs arbitrary: v) auto

lemma cas_inv_initial: "cas_inv R v (cas_initial v)"
  by (simp add: cas_inv_def cas_initial_def)

lemma cas_inv_selected:
  assumes "cas_inv R v0 s" "never_absent R v0" "pcs s c = Selected (expected (R c))"
  obtains e where "expected (R c) = Some e" "locked_by s = Some c" "row s = Some e"
proof (cases "expected (R c)")
  case None
  with assms(2) have "v0 \<noteq> None \<and> (\<forall>c. new (R c) \<noteq> None)" unfolding never_absent_def by blast
  with assms(1) have "pcs s c \<noteq> Selected None" unfolding cas_inv_def by blast
  with assms(3) None show ?thesis by simp
next
  case (Some e)
  with assms(3) have "pcs s c = Selected (Some e)" by simp
  with assms(1) have "locked_by s = Some c \<and> row s = Some e" unfolding cas_inv_def by blast
  with Some that show ?thesis by blast
qed

lemma cas_inv_staged:
  assumes "cas_inv R v0 s" "pcs s c = Staged"
  obtains e where "expected (R c) = Some e" "locked_by s = Some c" "row s = Some e"
  using assms by (auto simp: cas_inv_def)

text \<open>At most one client is between its read of a present row and the end of its transaction.\<close>

lemma cas_inv_others:
  assumes "cas_inv R v0 s" "locked_by s = Some c" "d \<noteq> c"
  shows "pcs s d \<noteq> Selected (Some v)" "pcs s d \<noteq> Staged"
  using assms by (auto simp: cas_inv_def)

lemma cas_inv_ends:
  assumes "cas_inv R v0 s" "pc \<in> {Lost, Failed}"
  shows "cas_inv R v0 (goto c pc (release c s))"
proof (cases "locked_by s = Some c")
  case True
  note others = cas_inv_others [OF assms(1) True]
  from assms True show ?thesis
    by (auto simp: cas_inv_def goto_def release_def dest: others)
next
  case False
  with assms show ?thesis by (auto simp: cas_inv_def goto_def release_def)
qed

lemma cas_inv_step:
  assumes "cas_step R s s'" "cas_inv R v0 s" "never_absent R v0"
  shows "cas_inv R v0 s'"
  using assms(1)
proof cases
  case (stage c v)
  then have "pcs s c = Selected (expected (R c))" by simp
  then obtain e where e: "expected (R c) = Some e" "locked_by s = Some c" "row s = Some e"
    by (rule cas_inv_selected [OF assms(2,3)])
  have "serial_run (wins s) v0 = Some (row s)"
    and "v0 \<noteq> None \<and> (\<forall>c. new (R c) \<noteq> None) \<longrightarrow> (\<forall>c. pcs s c \<noteq> Selected None)"
    using assms(2) by (simp_all add: cas_inv_def)
  then show ?thesis
    using cas_inv_others [OF assms(2) e(2)] e by (simp add: cas_inv_def stage(1) cas_moves)
next
  case (no_op c v)
  then have "pcs s c = Selected (expected (R c))" by simp
  then obtain e where "expected (R c) = Some e" by (rule cas_inv_selected [OF assms(2,3)])
  with no_op show ?thesis by (simp add: writes_def)
next
  case (commit c)
  obtain e where e: "expected (R c) = Some e" "locked_by s = Some c" "row s = Some e"
    by (rule cas_inv_staged [OF assms(2) commit(2)])
  have "serial_run (wins s @ [R c]) v0 = Some (new (R c))"
    using assms(2) e by (simp add: cas_inv_def serial_run_append)
  moreover have "v0 \<noteq> None \<and> (\<forall>c. new (R c) \<noteq> None) \<longrightarrow> (\<forall>c. pcs s c \<noteq> Selected None)"
    using assms(2) by (simp add: cas_inv_def)
  ultimately show ?thesis
    using cas_inv_others [OF assms(2) e(2)] e by (simp add: cas_inv_def commit(1) cas_moves writes_def)
next
  case (select_absent c)
  have "pcs s d \<noteq> Staged" for d
    using select_absent cas_inv_staged [OF assms(2), of d] by force
  with select_absent assms(2) show ?thesis by (simp add: cas_inv_def cas_moves)
next
  case (select_present c v)
  have "pcs s d \<noteq> Selected (Some w)" "pcs s d \<noteq> Staged" for d w
    using select_present assms(2) by (auto simp: cas_inv_def may_lock_def)
  with select_present assms(2) show ?thesis by (simp add: cas_inv_def cas_moves)
next
  case (mismatch c v)
  with assms(2) show ?thesis by (simp add: cas_inv_def cas_moves)
next
  case (abort c)
  with cas_inv_ends [OF assms(2)] show ?thesis by simp
next
  case (fail c)
  with cas_inv_ends [OF assms(2)] show ?thesis by simp
qed

lemma cas_reach_inv:
  "(cas_step R)\<^sup>*\<^sup>* (cas_initial v0) s \<Longrightarrow> never_absent R v0 \<Longrightarrow> cas_inv R v0 s"
  by (induction rule: rtranclp_induct) (auto intro: cas_inv_initial cas_inv_step)

section \<open>Properties\<close>

text \<open>
  C3. On Postgres, compare-and-set of a row that is there is atomic under any interleaving of the
  statements of any number of clients, failures included: as long as no request can match an absent
  row, the transactions that committed with the answer true did so in an order in which each of them
  found exactly the value it expected, and the row holds what the last one wrote.
\<close>

theorem postgres_cas_serial:
  assumes "(cas_step R)\<^sup>*\<^sup>* (cas_initial v0) s" "never_absent R v0"
  shows "serial_run (wins s) v0 = Some (row s)"
  using cas_reach_inv [OF assms] by (simp add: cas_inv_def)

definition race_reqs :: "bytes option \<Rightarrow> nat \<Rightarrow> cas_req" where
  "race_reqs v c = \<lparr>expected = v, new = Some [word_of_nat c]\<rparr>"

lemma race_present:
  "(cas_step (race_reqs (Some [9])))\<^sup>*\<^sup>* (cas_initial (Some [9]))
     \<lparr>row = Some [1], locked_by = None, pcs = (\<lambda>_. Begun)(1 := Won), wins = [race_reqs (Some [9]) 1]\<rparr>"
proof -
  let ?R = "race_reqs (Some [9])"
  let ?st = "\<lambda>pc. \<lparr>row = Some [9], locked_by = Some 1, pcs = (\<lambda>_. Begun)(1 := pc), wins = []\<rparr>"
  have "cas_step ?R (cas_initial (Some [9])) (?st (Selected (Some [9])))"
    using select_present [of "cas_initial (Some [9])" 1 "[9]" ?R] by (simp add: cas_initial_def cas_moves)
  moreover have "cas_step ?R (?st (Selected (Some [9]))) (?st Staged)"
    using stage [of "?st (Selected (Some [9]))" 1 "Some [9]" ?R] by (simp add: race_reqs_def cas_moves writes_def)
  moreover have "cas_step ?R (?st Staged) \<lparr>row = Some [1], locked_by = None, pcs = (\<lambda>_. Begun)(1 := Won), wins = [?R 1]\<rparr>"
    using commit [of "?st Staged" 1 ?R] by (simp add: race_reqs_def cas_moves writes_def)
  ultimately show ?thesis by (meson converse_rtranclp_into_rtranclp rtranclp.rtrancl_refl)
qed

theorem postgres_cas_serial_witness: "serial_run [race_reqs (Some [9]) 1] (Some [9]) = Some (Some [1])"
  using postgres_cas_serial [OF race_present] by (simp add: never_absent_def race_reqs_def)

section \<open>Absent rows\<close>

text \<open>
  The reservation is necessary. Of two coordinators that find no lease of a run, both may be told that
  they acquired it: their transactions both read the absent row, the second waits for the first at its
  insert and then overwrites it. Each holds a lease record at epoch 0, so that the epoch does not tell
  them apart.
\<close>

definition fresh_lease :: "worker_id \<Rightarrow> u128 \<Rightarrow> lease_record" where
  "fresh_lease me until = \<lparr>holder = me, epoch = CoordEpoch 0, expires_at_ms = until\<rparr>"

definition fresh_claims :: "lease_record codec \<Rightarrow> worker_id \<Rightarrow> worker_id \<Rightarrow> u128 \<Rightarrow> nat \<Rightarrow> cas_req" where
  "fresh_claims L a b until c = \<lparr>expected = None,
     new = (case encode_lease L (fresh_lease (if c = 0 then a else b) until) of Inl _ \<Rightarrow> None | Inr bytes \<Rightarrow> Some bytes)\<rparr>"

theorem postgres_fresh_lease_two_winners:
  assumes "encode_lease L (fresh_lease a until) = Inr x" "encode_lease L (fresh_lease b until) = Inr y"
  shows "(cas_step (fresh_claims L a b until))\<^sup>*\<^sup>* (cas_initial None)
    \<lparr>row = Some y, locked_by = None, pcs = (\<lambda>_. Begun)(0 := Won, 1 := Won),
     wins = [\<lparr>expected = None, new = Some x\<rparr>, \<lparr>expected = None, new = Some y\<rparr>]\<rparr>"
proof -
  let ?R = "fresh_claims L a b until"
  let ?s = "\<lambda>r l p q w. \<lparr>row = r, locked_by = l, pcs = (\<lambda>_. Begun)(0 := p, 1 := q), wins = w\<rparr>"
  let ?w = "[\<lparr>expected = None, new = Some x\<rparr>]"
  have R: "?R 0 = \<lparr>expected = None, new = Some x\<rparr>" "?R 1 = \<lparr>expected = None, new = Some y\<rparr>"
    using assms by (simp_all add: fresh_claims_def)
  have "cas_step ?R (cas_initial None) (?s None None (Selected None) Begun [])"
    using select_absent [of "cas_initial None" 0 ?R] by (simp add: cas_initial_def cas_moves fun_upd_idem)
  moreover have "cas_step ?R (?s None None (Selected None) Begun []) (?s None None (Selected None) (Selected None) [])"
    using select_absent [of "?s None None (Selected None) Begun []" 1 ?R] by (simp add: cas_moves)
  moreover have "cas_step ?R (?s None None (Selected None) (Selected None) []) (?s None (Some 0) Staged (Selected None) [])"
    using stage [of "?s None None (Selected None) (Selected None) []" 0 None ?R] R by (simp add: cas_moves writes_def fun_upd_twist)
  moreover have "cas_step ?R (?s None (Some 0) Staged (Selected None) []) (?s (Some x) None Won (Selected None) ?w)"
    using commit [of "?s None (Some 0) Staged (Selected None) []" 0 ?R] R by (simp add: cas_moves writes_def fun_upd_twist)
  moreover have "cas_step ?R (?s (Some x) None Won (Selected None) ?w) (?s (Some x) (Some 1) Won Staged ?w)"
    using stage [of "?s (Some x) None Won (Selected None) ?w" 1 None ?R] R by (simp add: cas_moves writes_def)
  moreover have "cas_step ?R (?s (Some x) (Some 1) Won Staged ?w) (?s (Some y) None Won Won [\<lparr>expected = None, new = Some x\<rparr>, \<lparr>expected = None, new = Some y\<rparr>])"
    using commit [of "?s (Some x) (Some 1) Won Staged ?w" 1 ?R] R by (simp add: cas_moves writes_def)
  ultimately show ?thesis by (meson converse_rtranclp_into_rtranclp rtranclp.rtrancl_refl)
qed

end
