(* ===== verification/Postgres_Watch.thy ===== *)
theory Postgres_Watch
  imports Storage_Postgres
begin

text \<open>
  Watching the Postgres store across processes (\<open>rollout-storage/src/postgres/listener.rs\<close>): the
  trigger on \<open>kv\<close> sends the run and the path of a changed row as one string on the channel of its
  namespace, and the listener turns the string back into a key and filters it by the watched prefix.
  The text form of a UUID belongs to the server and the \<open>uuid\<close> crate, and is a parameter.
\<close>

section \<open>The notification\<close>

fun array_to_string :: "string list \<Rightarrow> char \<Rightarrow> string" where
  "array_to_string [] c = []"
| "array_to_string [x] c = x"
| "array_to_string (x # y # ys) c = x @ c # array_to_string (y # ys) c"

definition rollout_kv_notify :: "(u128 \<Rightarrow> string) \<Rightarrow> kv_key \<Rightarrow> string \<times> string" where
  "rollout_kv_notify uuid_text k = (case k of (ns, run, p) \<Rightarrow>
     (''rollout_watch_'' @ ns,
      take 7999 ((case run of None \<Rightarrow> [] | Some u \<Rightarrow> uuid_text u) @ CHR ''|'' # array_to_string p (CHR ''/''))))"

section \<open>The listener\<close>

fun split_once :: "char \<Rightarrow> string \<Rightarrow> (string \<times> string) option" where
  "split_once c [] = None"
| "split_once c (x # xs) = (if x = c then Some ([], xs) else map_option (apfst ((#) x)) (split_once c xs))"

fun split_str :: "char \<Rightarrow> string \<Rightarrow> string list" where
  "split_str c [] = [[]]"
| "split_str c (x # xs) =
     (if x = c then [] # split_str c xs else (case split_str c xs of [] \<Rightarrow> [[x]] | y # ys \<Rightarrow> (x # y) # ys))"

definition parse_payload :: "(string \<Rightarrow> u128 option) \<Rightarrow> string \<Rightarrow> storage_key \<Rightarrow> storage_event option" where
  "parse_payload parse_str payload pre =
     (case split_once (CHR ''|'') payload of
        None \<Rightarrow> None
      | Some (run_id_str, path_str) \<Rightarrow>
          (let run = (if run_id_str = [] then None else map_option uuid_to_ulid (parse_str run_id_str));
               p = (if path_str = [] then [] else split_str (CHR ''/'') path_str)
           in if key_run pre \<noteq> None \<and> key_run pre \<noteq> run then None
              else if \<not> prefix (path pre) p then None
              else Some (PutEvent \<lparr>namespace = namespace pre, key_run = run, path = p\<rparr>)))"

definition pg_channel :: "storage_key \<Rightarrow> string" where
  "pg_channel pre = ''rollout_watch_'' @ namespace pre"

text \<open>What the stream yields for a sequence of notifications, of all channels of the database, and
  failed receives.\<close>

fun pg_watch_stream :: "(string \<Rightarrow> u128 option) \<Rightarrow> storage_key \<Rightarrow> (string + string \<times> string) list \<Rightarrow> storage_event list" where
  "pg_watch_stream parse_str pre [] = []"
| "pg_watch_stream parse_str pre (Inl err # ns) = pg_watch_stream parse_str pre ns"
| "pg_watch_stream parse_str pre (Inr (ch, payload) # ns) =
     (if ch \<noteq> pg_channel pre then pg_watch_stream parse_str pre ns
      else (case parse_payload parse_str payload pre of None \<Rightarrow> [] | Some ev \<Rightarrow> [ev]) @ pg_watch_stream parse_str pre ns)"

section \<open>What a watcher is told\<close>

text \<open>
  A key survives the notification when the payload is not cut and splitting undoes the joining: no
  component holds a slash and the path is not a single empty component.
\<close>

definition notifiable :: "(u128 \<Rightarrow> string) \<Rightarrow> storage_key \<Rightarrow> bool" where
  "notifiable uuid_text k \<longleftrightarrow>
     list_all (\<lambda>c. CHR ''/'' \<notin> set c) (path k) \<and> path k \<noteq> [[]] \<and>
     length (case map_option ulid_to_uuid (key_run k) of None \<Rightarrow> [] | Some u \<Rightarrow> uuid_text u)
       + 1 + length (array_to_string (path k) (CHR ''/'')) \<le> 7999"

lemma split_once_join: "c \<notin> set xs \<Longrightarrow> split_once c (xs @ c # ys) = Some (xs, ys)"
  by (induction xs) auto

lemma split_str_append: "c \<notin> set xs \<Longrightarrow> split_str c (xs @ c # ys) = xs # split_str c ys"
  by (induction xs) auto

lemma split_str_single: "c \<notin> set xs \<Longrightarrow> split_str c xs = [xs]"
  by (induction xs) auto

lemma split_str_join:
  "list_all (\<lambda>x. c \<notin> set x) xs \<Longrightarrow> xs \<noteq> [] \<Longrightarrow> split_str c (array_to_string xs c) = xs"
  by (induction xs c rule: array_to_string.induct) (auto simp: split_str_append split_str_single)

lemma array_to_string_Nil: "array_to_string xs c = [] \<longleftrightarrow> xs = [] \<or> xs = [[]]"
  by (cases "(xs, c)" rule: array_to_string.cases) auto

lemma split_path:
  "list_all (\<lambda>x. c \<notin> set x) xs \<Longrightarrow> xs \<noteq> [[]] \<Longrightarrow>
     (if array_to_string xs c = [] then [] else split_str c (array_to_string xs c)) = xs"
  by (auto simp: array_to_string_Nil split_str_join)

lemma parse_notify:
  assumes uuid: "\<And>u. parse_str (uuid_text u) = Some u" "\<And>u. uuid_text u \<noteq> []" "\<And>u. CHR ''|'' \<notin> set (uuid_text u)"
    and k: "notifiable uuid_text k" "namespace k = namespace pre"
  shows "parse_payload parse_str (snd (rollout_kv_notify uuid_text (kv_key_of k))) pre =
    (if key_has_prefix k pre then Some (PutEvent k) else None)"
proof -
  let ?run = "case map_option ulid_to_uuid (key_run k) of None \<Rightarrow> [] | Some u \<Rightarrow> uuid_text u"
  have "snd (rollout_kv_notify uuid_text (kv_key_of k)) = ?run @ CHR ''|'' # array_to_string (path k) (CHR ''/'')"
    unfolding rollout_kv_notify_def kv_key_of_def prod.case snd_conv
    by (rule take_all) (use k(1) in \<open>simp add: notifiable_def\<close>)
  moreover have "CHR ''|'' \<notin> set ?run"
    using uuid(3) by (auto split: option.splits)
  ultimately have split: "split_once (CHR ''|'') (snd (rollout_kv_notify uuid_text (kv_key_of k)))
      = Some (?run, array_to_string (path k) (CHR ''/''))"
    by (simp add: split_once_join)
  have run: "(if ?run = [] then None else map_option uuid_to_ulid (parse_str ?run)) = key_run k"
    using uuid(1,2) by (cases "key_run k") auto
  have p: "(if array_to_string (path k) (CHR ''/'') = [] then []
      else split_str (CHR ''/'') (array_to_string (path k) (CHR ''/''))) = path k"
    using k(1) by (intro split_path) (simp_all add: notifiable_def)
  have "\<lparr>namespace = namespace pre, key_run = key_run k, path = path k\<rparr> = k"
    using k(2) by (cases k) simp
  then show ?thesis
    unfolding parse_payload_def split option.case prod.case Let_def run p
    using k(2) by (auto simp: key_has_prefix_def split: option.splits)
qed

section \<open>Property\<close>


definition bits_text :: "u128 \<Rightarrow> string" where
  "bits_text u = map (\<lambda>i. if bit u i then CHR ''1'' else CHR ''0'') [0..<128]"

definition parse_bits :: "string \<Rightarrow> u128 option" where
  "parse_bits s = Some (horner_sum of_bool 2 (map (\<lambda>c. c = CHR ''1'') s))"

lemma bits_text_hyps:
  "parse_bits (bits_text u) = Some u" "bits_text u \<noteq> []" "CHR ''|'' \<notin> set (bits_text u)"
proof -
  have "map (\<lambda>c. c = CHR ''1'') (bits_text u) = map (bit u) [0..<128]"
    by (auto simp: bits_text_def)
  then show "parse_bits (bits_text u) = Some u"
    by (simp add: parse_bits_def horner_sum_bit_eq_take_bit) (simp add: take_bit_length_eq [where 'a = 128, simplified])
qed (auto simp: bits_text_def)

definition watch_demo :: "(string + storage_key) list" where
  "watch_demo = [Inr \<lparr>namespace = ''ns'', key_run = Some (RunId 5), path = [''a'', ''b'']\<rparr>, Inl ''connection reset'',
     Inr \<lparr>namespace = ''other'', key_run = None, path = [''a'']\<rparr>,
     Inr \<lparr>namespace = ''ns'', key_run = None, path = [''c'']\<rparr>]"


end
