(* ===== verification/Snapshot_Tar.thy ===== *)
theory Snapshot_Tar
  imports Object_Store "HOL-Library.Multiset"
begin

text \<open>
  The archive of a snapshot (\<open>rollout-snapshots/src/tar_build.rs\<close>): the walk of a directory, sorted,
  with every header field that could differ between machines fixed. The \<open>tar\<close> crate and the
  directory on disk are parameters.
\<close>

section \<open>The crates and the directory\<close>

datatype tar_entry_type = Directory | Regular

record tar_header =
  h_size :: u64
  h_mode :: u32
  h_mtime :: u64
  h_uid :: u64
  h_gid :: u64
  h_type :: tar_entry_type

text \<open>Appending an entry and finishing turn the bytes written so far into more bytes.\<close>

record 'd tar_crate =
  append_data :: "tar_header \<Rightarrow> file_path \<Rightarrow> bytes \<Rightarrow> bytes \<Rightarrow> io_error + bytes"
  finish_tar :: "bytes \<Rightarrow> io_error + bytes"
  unpack_tar :: "bytes \<Rightarrow> file_path \<Rightarrow> ('d, io_error, unit) comp"
  make_dirs :: "file_path \<Rightarrow> ('d, io_error, unit) comp"
  io_text :: "io_error \<Rightarrow> string"

record dir_probe =
  walk_dir :: "file_path \<Rightarrow> (io_error + file_path) list"
  metadata :: "file_path \<Rightarrow> io_error + bool \<times> u64"
  read_to_end :: "file_path \<Rightarrow> io_error + bytes"

section \<open>Building and extracting\<close>

definition tar_io_err :: "'d tar_crate \<Rightarrow> io_error \<Rightarrow> core_error fault" where
  "tar_io_err T e = transient (io_text T e) Never"

definition strip_prefix :: "file_path \<Rightarrow> file_path \<Rightarrow> file_path res" where
  "strip_prefix src p = (if prefix src p then Inr (drop (length src) p) else Inl (internal ''strip_prefix: prefix not found''))"

definition entry_header :: "bool \<Rightarrow> u64 \<Rightarrow> tar_header" where
  "entry_header is_dir len = \<lparr>h_size = (if is_dir then 0 else len), h_mode = (if is_dir then 493 else 420),
     h_mtime = 0, h_uid = 0, h_gid = 0, h_type = (if is_dir then Directory else Regular)\<rparr>"

definition append_entry :: "'d tar_crate \<Rightarrow> dir_probe \<Rightarrow> file_path \<Rightarrow> file_path \<Rightarrow> bytes \<Rightarrow> bytes res" where
  "append_entry T P src p buf =
     bindE (strip_prefix src p) (\<lambda>rel.
     bindE (map_err (tar_io_err T) (metadata P p)) (\<lambda>(is_dir, len).
     if is_dir then map_err (tar_io_err T) (append_data T (entry_header is_dir len) rel [] buf)
     else bindE (map_err (tar_io_err T) (read_to_end P p)) (\<lambda>contents.
          map_err (tar_io_err T) (append_data T (entry_header is_dir len) rel contents buf))))"

fun append_entries :: "'d tar_crate \<Rightarrow> dir_probe \<Rightarrow> file_path \<Rightarrow> file_path list \<Rightarrow> bytes \<Rightarrow> bytes res" where
  "append_entries T P src [] buf = Inr buf"
| "append_entries T P src (p # ps) buf = bindE (append_entry T P src p buf) (append_entries T P src ps)"

text \<open>\<open>filter_map(Result::ok)\<close>\<close>

fun walk_oks :: "(io_error + file_path) list \<Rightarrow> file_path list" where
  "walk_oks [] = []"
| "walk_oks (Inl e # xs) = walk_oks xs"
| "walk_oks (Inr p # xs) = p # walk_oks xs"

definition build_deterministic_tar :: "'d tar_crate \<Rightarrow> dir_probe \<Rightarrow> file_path \<Rightarrow> bytes res" where
  "build_deterministic_tar T P src =
     bindE (append_entries T P src (sort (filter (\<lambda>p. p \<noteq> src) (walk_oks (walk_dir P src)))) []) (\<lambda>buf.
     map_err (tar_io_err T) (finish_tar T buf))"

definition extract_tar :: "'d tar_crate \<Rightarrow> bytes \<Rightarrow> file_path \<Rightarrow> ('d, unit) io" where
  "extract_tar T tar_bytes dst =
     bindS (map_errS (tar_io_err T) (make_dirs T dst)) (\<lambda>_.
     map_errS (tar_io_err T) (unpack_tar T tar_bytes dst))"

section \<open>The archive does not depend on where and in which order\<close>

lemma append_le_iff: "src @ a \<le> src @ b \<longleftrightarrow> a \<le> (b :: 'a::linorder list)"
  by (induction src) auto

lemma sort_map_append: "sort (map ((@) src) rs) = map ((@) src) (sort (rs :: 'a::linorder list list))"
  by (rule properties_for_sort) (simp_all add: sorted_map append_le_iff)

text \<open>The entries of a directory relative to it, in the order of the walk.\<close>

definition relative_walk :: "dir_probe \<Rightarrow> file_path \<Rightarrow> file_path list \<Rightarrow> bool" where
  "relative_walk P src rels \<longleftrightarrow> walk_oks (walk_dir P src) = map ((@) src) rels"

lemma append_entries_relative:
  "(\<And>r. r \<in> set rels \<Longrightarrow> metadata P (src @ r) = metadata P' (src' @ r) \<and> read_to_end P (src @ r) = read_to_end P' (src' @ r)) \<Longrightarrow>
     append_entries T P src (map ((@) src) rels) buf = append_entries T P' src' (map ((@) src') rels) buf"
  by (induction rels arbitrary: buf) (auto simp: append_entry_def strip_prefix_def intro!: bindE_cong)

lemma build_tar_relative:
  assumes "relative_walk P src rels"
  shows "build_deterministic_tar T P src =
    bindE (append_entries T P src (map ((@) src) (sort (filter (\<lambda>r. r \<noteq> []) rels))) []) (\<lambda>buf.
      map_err (tar_io_err T) (finish_tar T buf))"
  using assms
  by (simp add: build_deterministic_tar_def relative_walk_def filter_map comp_def sort_map_append)

text \<open>
  C30. The archive of a snapshot is a function of the directory's contents: two directories, wherever
  they are and in whichever order, with whichever unreadable entries, they are walked, give the same
  bytes, or the same error, when they hold the same relative paths with the same metadata and
  contents. So the content id that names the snapshot is the same too.
\<close>

theorem tar_is_deterministic:
  assumes "relative_walk P src rels" "relative_walk P' src' rels'" "mset rels = mset rels'"
    and "\<forall>r \<in> set rels. metadata P (src @ r) = metadata P' (src' @ r) \<and> read_to_end P (src @ r) = read_to_end P' (src' @ r)"
  shows "build_deterministic_tar T P src = build_deterministic_tar T P' src'"
proof -
  have "sort (filter (\<lambda>r. r \<noteq> []) rels) = sort (filter (\<lambda>r. r \<noteq> []) rels')"
    by (rule properties_for_sort) (simp_all add: assms(3))
  moreover have "append_entries T P src (map ((@) src) (sort (filter (\<lambda>r. r \<noteq> []) rels))) []
      = append_entries T P' src' (map ((@) src') (sort (filter (\<lambda>r. r \<noteq> []) rels))) []"
    by (rule append_entries_relative) (use assms(4) in auto)
  ultimately show ?thesis
    by (simp add: build_tar_relative [OF assms(1)] build_tar_relative [OF assms(2)])
qed

text \<open>Two walks of two directories with one file and one subdirectory.\<close>

definition demo_tar :: "unit tar_crate" where
  "demo_tar = \<lparr>append_data = \<lambda>h p b buf. Inr (buf @ of_nat (length p) # b), finish_tar = Inr,
     unpack_tar = \<lambda>_ _. returnS (), make_dirs = \<lambda>_. returnS (), io_text = \<lambda>_. ''io''\<rparr>"

definition demo_dir :: "(io_error + file_path) list \<Rightarrow> dir_probe" where
  "demo_dir walk = \<lparr>walk_dir = \<lambda>_. walk, metadata = \<lambda>p. Inr (last p = ''d'', 1), read_to_end = \<lambda>p. Inr [42]\<rparr>"

theorem tar_is_deterministic_witness:
  "build_deterministic_tar demo_tar (demo_dir [Inr [''x''], Inr [''x'', ''d''], Inr [''x'', ''d'', ''f''], Inl NotFound]) [''x'']
     = build_deterministic_tar demo_tar (demo_dir [Inr [''y'', ''d'', ''f''], Inr [''y'', ''d''], Inr [''y'']]) [''y'']"
  by (rule tar_is_deterministic [where rels = "[[], [''d''], [''d'', ''f'']]" and rels' = "[[''d'', ''f''], [''d''], []]"])
    (simp_all add: relative_walk_def demo_dir_def)

end
