(* ===== verification/Snapshots.thy ===== *)
theory Snapshots
  imports Snapshot_Tar Storage_Postgres Coordinator
begin

text \<open>
  Snapshots of training state (\<open>rollout-snapshots\<close> and \<open>rollout-core/src/traits/snapshot.rs\<close>): saving
  a directory as a content-addressed archive with a metadata row, restoring it with a check of the
  hash, listing rows, and pruning them by a retention policy, over arbitrary metadata and object
  stores. JSON (\<open>serde_json\<close>), the clock and the hash are parameters.
\<close>

section \<open>Data\<close>

text \<open>The kinds and the save request are those of \<open>Coordinator\<close>, whose drain asks for a save.\<close>

datatype snapshot_id = SnapshotId content_id

record snapshot_part =
  part_role :: string
  part_content :: content_id
  part_size :: u64

record snapshot =
  snap_id :: snapshot_id
  snap_kind :: snapshot_kind
  snap_run :: run_id
  created_at :: systime
  label :: "string option"
  parts :: "snapshot_part list"
  snap_algorithm :: string
  snap_meta :: json

datatype restore_target = SameRun | Fork run_id | WorkerTarget worker_id

record snapshot_filter =
  flt_run :: "run_id option"
  flt_kind :: "snapshot_kind option"
  label_contains :: "string option"
  flt_limit :: "u32 option"

record retention_policy =
  keep_last :: u32
  keep_labeled :: bool
  max_age :: "duration option"

definition retention_default :: retention_policy where
  "retention_default = \<lparr>keep_last = 3, keep_labeled = True, max_age = None\<rparr>"

record prune_policy =
  prune_run :: run_id
  retention :: retention_policy

section \<open>Keys\<close>

definition snapshot_key :: "run_id \<Rightarrow> snapshot_id \<Rightarrow> storage_key" where
  "snapshot_key run sid = (case sid of SnapshotId c \<Rightarrow>
     \<lparr>namespace = ''snapshots'', key_run = Some run, path = [content_id_to_string c]\<rparr>)"

definition run_prefix :: "run_id \<Rightarrow> storage_key" where
  "run_prefix run = \<lparr>namespace = ''snapshots'', key_run = Some run, path = []\<rparr>"

definition all_runs_prefix :: storage_key where
  "all_runs_prefix = \<lparr>namespace = ''snapshots'', key_run = None, path = []\<rparr>"

section \<open>Saving and restoring\<close>

definition snap_plugin :: "string \<Rightarrow> core_error fault" where
  "snap_plugin msg = plugin_contract ''rollout-snapshots'' msg"

definition train_snapshot :: "snapshot_request \<Rightarrow> systime \<Rightarrow> content_id \<Rightarrow> u64 \<Rightarrow> snapshot" where
  "train_snapshot req now cid sz = \<lparr>snap_id = SnapshotId cid, snap_kind = TrainState, snap_run = sr_run req,
     created_at = now, label = sr_label req,
     parts = [\<lparr>part_role = ''tar'', part_content = cid, part_size = sz\<rparr>],
     snap_algorithm = sr_algorithm req, snap_meta = sr_meta req\<rparr>"

text \<open>\<open>dbg\<close> says whether debug assertions are compiled in; \<open>now\<close> is what the clock reads.\<close>

definition save_train_state :: "('s, 't) storage_ops \<Rightarrow> 'o object_ops \<Rightarrow> blake3 \<Rightarrow> snapshot codec \<Rightarrow> 'd tar_crate
    \<Rightarrow> dir_probe \<Rightarrow> bool \<Rightarrow> systime \<Rightarrow> snapshot_request \<Rightarrow> file_path \<Rightarrow> ('s \<times> 'o, snapshot) io" where
  "save_train_state S B H J T P dbg now req dir =
     (if dbg \<and> sr_kind req \<noteq> TrainState
      then failS (Panic ''assertion failed: matches!(request.kind, SnapshotKind::TrainState)'')
      else
        bindS (liftE (build_deterministic_tar T P dir)) (\<lambda>tar_bytes.
        let sz = of_nat (length tar_bytes); expected_id = content_id_of H tar_bytes in
        bindS (on_sink (put_blob B tar_bytes
          \<lparr>expected_size = Some sz, content_type = Some ''application/x-tar''\<rparr>)) (\<lambda>cid.
        if cid \<noteq> expected_id
        then failS (snap_plugin (''ObjectStore returned mismatched ContentId: expected ''
          @ content_id_to_string expected_id @ '' got '' @ content_id_to_string cid))
        else
          let snap = train_snapshot req now cid sz in
          bindS (on_store (readS (begin_txn S))) (\<lambda>txn.
          bindS (liftE (map_err (\<lambda>e. internal (''json encode Snapshot: '' @ e)) (encode J snap))) (\<lambda>row.
          bindS (on_store (within (put_bytes S (snapshot_key (snap_run snap) (snap_id snap)) row) txn (\<lambda>_ txn.
            commit_txn S txn))) (\<lambda>_.
          returnS snap))))))"

definition restore_train_state :: "'o object_ops \<Rightarrow> blake3 \<Rightarrow> 'd tar_crate \<Rightarrow> snapshot \<Rightarrow> 'o \<Rightarrow> file_path \<Rightarrow> ('d, unit) io" where
  "restore_train_state B H T snap objs dst =
     (case find (\<lambda>p. part_role p = ''tar'') (parts snap) of
        None \<Rightarrow> failS (snap_plugin ''missing 'tar' part on TrainState snapshot'')
      | Some tar_part \<Rightarrow>
          bindS (liftE (get_blob B (part_content tar_part) objs)) (\<lambda>tar_bytes.
          let actual = content_id_of H tar_bytes in
          if actual \<noteq> part_content tar_part
          then failS (snap_plugin (''blake3 mismatch on restore: expected ''
            @ content_id_to_string (part_content tar_part) @ '' got '' @ content_id_to_string actual))
          else extract_tar T tar_bytes dst))"

text \<open>The trait methods, which have no directory to save from or restore to.\<close>

definition save :: "snapshot_request \<Rightarrow> snapshot res" where
  "save req = (case sr_kind req of
       TrainState \<Rightarrow> Inl (snap_plugin (''TrainState save requires save_train_state(request, accelerate_dir); the ''
         @ ''bare Snapshotter::save trait method has no place to source the directory ''
         @ ''from, and is reserved for dir-less kinds (Buffer / EpisodicMemory) - ''
         @ ''neither implemented in Phase 4.''))
     | Buffer \<Rightarrow> Inl (snap_plugin ''Phase 9: SnapshotKind::Buffer'')
     | Process \<Rightarrow> Inl (snap_plugin ''Phase 11: SnapshotKind::Process'')
     | EpisodicMemory \<Rightarrow> Inl (snap_plugin ''Phase 8: SnapshotKind::EpisodicMemory''))"

definition decode_snapshot :: "snapshot codec \<Rightarrow> bytes \<Rightarrow> snapshot res" where
  "decode_snapshot J b = map_err (\<lambda>e. internal (''json decode Snapshot: '' @ e)) (decode J b)"

fun find_snapshot :: "snapshot codec \<Rightarrow> snapshot_id \<Rightarrow> (storage_key \<times> bytes) list \<Rightarrow> snapshot option res" where
  "find_snapshot J sid [] = Inr None"
| "find_snapshot J sid ((k, b) # rows) =
     bindE (decode_snapshot J b) (\<lambda>snap. if snap_id snap = sid then Inr (Some snap) else find_snapshot J sid rows)"

definition read_meta :: "('s, 't) storage_ops \<Rightarrow> snapshot codec \<Rightarrow> snapshot_id \<Rightarrow> 's \<Rightarrow> snapshot option res" where
  "read_meta S J sid s =
     bindE (scan_bytes S \<lparr>range_prefix = all_runs_prefix, range_limit = None\<rparr> s) (find_snapshot J sid)"

definition restore :: "('s, 't) storage_ops \<Rightarrow> snapshot codec \<Rightarrow> ulid_crate \<Rightarrow> snapshot_id \<Rightarrow> restore_target \<Rightarrow> 's \<Rightarrow> unit res" where
  "restore S J U sid target s =
     bindE (read_meta S J sid s) (\<lambda>_. case target of
       SameRun \<Rightarrow> Inl (snap_plugin (''TrainState restore_train_state(snapshot, dst_dir) is the correct entry ''
         @ ''point; bare Snapshotter::restore('' @ (case sid of SnapshotId c \<Rightarrow> content_id_to_string c)
         @ '', SameRun) has no destination directory.''))
     | Fork run \<Rightarrow> Inl (snap_plugin (''Phase 9: Fork restore (new_run_id='' @ ulid_to_string U (run_ulid run) @ '')''))
     | WorkerTarget w \<Rightarrow> Inl (snap_plugin (''Phase 6: Worker restore (worker_id='' @ ulid_to_string U (worker_ulid w) @ '')'')))"

section \<open>Listing\<close>

definition list_snapshots :: "('s, 't) storage_ops \<Rightarrow> snapshot codec \<Rightarrow> snapshot_filter \<Rightarrow> 's \<Rightarrow> snapshot list res" where
  "list_snapshots S J flt s =
     bindE (scan_bytes S \<lparr>range_prefix = \<lparr>namespace = ''snapshots'', key_run = flt_run flt, path = []\<rparr>,
       range_limit = None\<rparr> s) (\<lambda>rows.
     bindE (collectE (\<lambda>(k, b). decode_snapshot J b) rows) (\<lambda>out.
     let out = (case flt_kind flt of None \<Rightarrow> out | Some kind \<Rightarrow> filter (\<lambda>s. snap_kind s = kind) out);
         out = (case label_contains flt of None \<Rightarrow> out
           | Some needle \<Rightarrow> filter (\<lambda>s. case label s of None \<Rightarrow> False | Some l \<Rightarrow> str_contains needle l) out);
         out = sort_key (\<lambda>s. - created_at s) out
     in Inr (case flt_limit flt of None \<Rightarrow> out | Some n \<Rightarrow> take (unat n) out)))"

section \<open>Pruning\<close>

text \<open>
  \<open>(now - created_at).to_std().unwrap_or_default()\<close>: a snapshot from the future has age zero. The
  index is compared as a \<open>u32\<close>, saturated.
\<close>

definition snapshot_age :: "systime \<Rightarrow> snapshot \<Rightarrow> duration" where
  "snapshot_age now snap = nat (now - created_at snap)"

definition retained :: "retention_policy \<Rightarrow> systime \<Rightarrow> nat \<Rightarrow> snapshot \<Rightarrow> bool" where
  "retained R now idx snap \<longleftrightarrow>
     (if idx < 2 ^ 32 then idx else 2 ^ 32 - 1) < unat (keep_last R)
   \<or> keep_labeled R \<and> label snap \<noteq> None
   \<or> (case max_age R of None \<Rightarrow> False | Some a \<Rightarrow> snapshot_age now snap < a)"

fun prune_loop :: "('s, 't) storage_ops \<Rightarrow> retention_policy \<Rightarrow> systime \<Rightarrow> nat \<Rightarrow> u64 \<Rightarrow> (storage_key \<times> snapshot) list
    \<Rightarrow> ('s, u64) io" where
  "prune_loop S R now idx deleted [] = returnS deleted"
| "prune_loop S R now idx deleted ((k, snap) # snaps) =
     (if retained R now idx snap then prune_loop S R now (Suc idx) deleted snaps
      else bindS (in_txn S (delete_key S k)) (\<lambda>_. prune_loop S R now (Suc idx) (deleted + 1) snaps))"

definition apply_prune :: "('s, 't) storage_ops \<Rightarrow> snapshot codec \<Rightarrow> systime \<Rightarrow> prune_policy \<Rightarrow> ('s, u64) io" where
  "apply_prune S J now policy =
     bindS (readS (scan_bytes S \<lparr>range_prefix = run_prefix (prune_run policy), range_limit = None\<rparr>)) (\<lambda>rows.
     bindS (liftE (collectE (\<lambda>(k, v). bindE (decode_snapshot J v) (\<lambda>s. Inr (k, s))) rows)) (\<lambda>snaps.
     prune_loop S (retention policy) now 0 0 (sort_key (\<lambda>x. - created_at (snd x)) snaps)))"

section \<open>What pruning deletes\<close>

text \<open>The snapshots of a run as a store holds them, newest first.\<close>

definition run_snapshots :: "snapshot codec \<Rightarrow> store_view \<Rightarrow> run_id \<Rightarrow> (storage_key \<times> snapshot) list \<Rightarrow> bool" where
  "run_snapshots J v run snaps \<longleftrightarrow>
     distinct (map fst snaps) \<and> sorted (map (\<lambda>x. - created_at (snd x)) snaps)
   \<and> set snaps = {(k, snap). \<exists>b. v k = Some b \<and> key_has_prefix k (run_prefix run) \<and> decode J b = Inr snap}"

text \<open>The keys a policy gives up, of a list that starts at index \<open>idx\<close>.\<close>

fun doomed :: "retention_policy \<Rightarrow> systime \<Rightarrow> nat \<Rightarrow> (storage_key \<times> snapshot) list \<Rightarrow> storage_key list" where
  "doomed R now idx [] = []"
| "doomed R now idx ((k, snap) # snaps) =
     (if retained R now idx snap then doomed R now (Suc idx) snaps else k # doomed R now (Suc idx) snaps)"

lemma doomed_iff:
  "k \<in> set (doomed R now idx snaps) \<longleftrightarrow>
     (\<exists>i < length snaps. fst (snaps ! i) = k \<and> \<not> retained R now (idx + i) (snd (snaps ! i)))"
  by (induction R now idx snaps rule: doomed.induct) (auto simp: less_Suc_eq_0_disj)

text \<open>
  What a policy gives up, without the loop: the snapshots beyond the first \<open>keep_last\<close>, without a label
  where labels count, and at least as old as \<open>max_age\<close>.
\<close>

definition given_up :: "retention_policy \<Rightarrow> systime \<Rightarrow> (storage_key \<times> snapshot) list \<Rightarrow> storage_key set" where
  "given_up R now snaps = {fst (snaps ! i) | i. i < length snaps \<and> unat (keep_last R) \<le> i
     \<and> (keep_labeled R \<longrightarrow> label (snd (snaps ! i)) = None)
     \<and> (\<forall>a. max_age R = Some a \<longrightarrow> a \<le> nat (now - created_at (snd (snaps ! i))))}"

lemma not_retained_iff:
  "\<not> retained R now i snap \<longleftrightarrow> unat (keep_last R) \<le> i \<and> (keep_labeled R \<longrightarrow> label snap = None)
     \<and> (\<forall>a. max_age R = Some a \<longrightarrow> a \<le> nat (now - created_at snap))"
proof -
  have "unat (keep_last R) < 2 ^ 32" using unsigned_less [of "keep_last R"] by simp
  then have "(if i < 2 ^ 32 then i else 2 ^ 32 - 1) < unat (keep_last R) \<longleftrightarrow> i < unat (keep_last R)"
    by (cases "i < 2 ^ 32") auto
  then show ?thesis
    unfolding retained_def snapshot_age_def by (auto simp: not_less split: option.splits)
qed

lemma doomed_given_up: "set (doomed R now 0 snaps) = given_up R now snaps"
  using doomed_iff [of _ R now 0 snaps] by (auto simp: given_up_def not_retained_iff)

lemma doomed_distinct: "distinct (map fst snaps) \<Longrightarrow> distinct (doomed R now idx snaps)"
proof (induction R now idx snaps rule: doomed.induct)
  case (2 R now idx k snap snaps)
  have "k \<notin> set (doomed R now (Suc idx) snaps)"
    using 2(3) by (auto simp: doomed_iff)
  with 2 show ?case by simp
qed simp

definition forget :: "storage_key set \<Rightarrow> store_view \<Rightarrow> store_view" where
  "forget D v = (\<lambda>k. if k \<in> D then None else v k)"

lemma forget_none: "v = forget {} v"
  by (simp add: forget_def)

lemma forget_one: "v(k := None) = forget {k} v"
  by (auto simp: forget_def)

context storage
begin

lemma delete_txn_outcomes:
  assumes "inv s" "okk k" "in_txn S (delete_key S k) s = (r, s')"
  shows "inv s' \<and> (view s' = view s \<or> view s' = (view s)(k := None)) \<and> (r = Inr () \<longrightarrow> view s' = (view s)(k := None))"
  by (rule in_txn_outcomes [OF assms(1,3)]) (use delete_law [OF _ assms(2)] in auto)

lemma prune_loop_outcomes:
  assumes "inv s" "\<And>k snap. (k, snap) \<in> set snaps \<Longrightarrow> okk k" "prune_loop S R now idx n snaps s = (r, s')"
  shows "inv s' \<and> (\<exists>D. D \<subseteq> set (doomed R now idx snaps) \<and> view s' = forget D (view s)
     \<and> (\<forall>m. r = Inr m \<longrightarrow> D = set (doomed R now idx snaps) \<and> m = n + of_nat (length (doomed R now idx snaps))))"
  using assms
proof (induction snaps arbitrary: idx n s)
  case Nil
  then show ?case by (auto simp: forget_def intro: exI [of _ "{}"])
next
  case (Cons x snaps)
  obtain k snap where x: "x = (k, snap)" by fastforce
  show ?case
  proof (cases "retained R now idx snap")
    case True
    with Cons.prems(3) x have "prune_loop S R now (Suc idx) n snaps s = (r, s')" by simp
    from Cons.IH [OF Cons.prems(1) _ this] Cons.prems(2)
    have "inv s' \<and> (\<exists>D. D \<subseteq> set (doomed R now (Suc idx) snaps) \<and> view s' = forget D (view s) \<and> (\<forall>m. r = Inr m \<longrightarrow>
        D = set (doomed R now (Suc idx) snaps) \<and> m = n + of_nat (length (doomed R now (Suc idx) snaps))))"
      by (meson list.set_intros(2))
    then show ?thesis unfolding x using True by simp
  next
    case False
    obtain r1 s1 where del: "in_txn S (delete_key S k) s = (r1, s1)" by fastforce
    have one: "inv s1" "view s1 = view s \<or> view s1 = (view s)(k := None)" "r1 = Inr () \<longrightarrow> view s1 = (view s)(k := None)"
      using delete_txn_outcomes [OF Cons.prems(1) _ del] Cons.prems(2) x by auto
    show ?thesis
    proof (cases r1)
      case (Inl e)
      with False del Cons.prems(3) x have "r = Inl e" "s' = s1" by (auto simp: bindS_def)
      moreover from one(2) obtain D where "D \<subseteq> {k}" "view s1 = forget D (view s)"
        using forget_none forget_one by (metis empty_subsetI subset_refl)
      moreover have "{k} \<subseteq> set (doomed R now idx (x # snaps))" using False x by simp
      ultimately show ?thesis using one(1) by blast
    next
      case (Inr u)
      with False del Cons.prems(3) x have "prune_loop S R now (Suc idx) (n + 1) snaps s1 = (r, s')"
        by (simp add: bindS_def)
      from Cons.IH [OF one(1) _ this] Cons.prems(2) obtain D where
        "inv s'" "D \<subseteq> set (doomed R now (Suc idx) snaps)" "view s' = forget D (view s1)"
        "\<forall>m. r = Inr m \<longrightarrow> D = set (doomed R now (Suc idx) snaps) \<and> m = n + 1 + of_nat (length (doomed R now (Suc idx) snaps))"
        by (metis list.set_intros(2))
      moreover have "forget D (view s1) = forget (insert k D) (view s)"
        using one(3) Inr by (auto simp: forget_def)
      ultimately show ?thesis using False x by (auto intro!: exI [of _ "insert k D"])
    qed
  qed
qed

lemma decoded_rows:
  assumes "inv s" "scan_bytes S \<lparr>range_prefix = run_prefix run, range_limit = None\<rparr> s = Inr rows"
    and "collectE (\<lambda>(k, v). bindE (decode_snapshot J v) (\<lambda>s. Inr (k, s))) rows = Inr snaps"
  shows "run_snapshots J (view s) run (sort_key (\<lambda>x. - created_at (snd x)) snaps)"
proof -
  have scan: "distinct (map fst rows)" "set rows = {(k, v). view s k = Some v \<and> key_has_prefix k (run_prefix run)}"
    using scan_rows [OF assms(1,2)] by (simp_all add: run_prefix_def)
  have rel: "list_all2 (\<lambda>(k, v) (k', snap). k' = k \<and> decode J v = Inr snap) rows snaps"
    using assms(3) unfolding collectE_eq_Inr
    by (rule list_all2_mono) (auto simp: comp_iff decode_snapshot_def)
  then have keys: "map fst snaps = map fst rows"
    by (induction rule: list_all2_induct) auto
  have "(k, snap) \<in> set snaps \<longleftrightarrow> (\<exists>b. (k, b) \<in> set rows \<and> decode J b = Inr snap)" for k snap
    using rel scan(1) by (induction rule: list_all2_induct) auto
  then have "set snaps = {(k, snap). \<exists>b. view s k = Some b \<and> key_has_prefix k (run_prefix run) \<and> decode J b = Inr snap}"
    by (auto simp: scan(2))
  moreover have "distinct (map fst (sort_key (\<lambda>x. - created_at (snd x)) snaps))"
    using scan(1) unfolding keys [symmetric] by (simp add: distinct_map)
  ultimately show ?thesis by (simp add: run_snapshots_def)
qed

lemma prune_law:
  assumes "inv s" "apply_prune S J now policy s = (r, s')"
  shows "inv s' \<and> (view s' = view s \<and> (\<exists>e. r = Inl e) \<or>
    (\<exists>snaps D. run_snapshots J (view s) (prune_run policy) snaps \<and> D \<subseteq> set (doomed (retention policy) now 0 snaps)
       \<and> view s' = forget D (view s)
       \<and> (\<forall>n. r = Inr n \<longrightarrow> D = set (doomed (retention policy) now 0 snaps)
            \<and> n = of_nat (length (doomed (retention policy) now 0 snaps)))))"
proof -
  consider (err) e where "r = Inl e" "s' = s"
    | (ran) rows snaps where "scan_bytes S \<lparr>range_prefix = run_prefix (prune_run policy), range_limit = None\<rparr> s = Inr rows"
        "collectE (\<lambda>(k, v). bindE (decode_snapshot J v) (\<lambda>s. Inr (k, s))) rows = Inr snaps"
        "prune_loop S (retention policy) now 0 0 (sort_key (\<lambda>x. - created_at (snd x)) snaps) s = (r, s')"
    using assms(2) by (auto simp: apply_prune_def bindS_def readS_def liftE_def split: sum.splits)
  then show ?thesis
  proof cases
    case err
    with assms(1) show ?thesis by simp
  next
    case ran
    note snaps = decoded_rows [OF assms(1) ran(1,2)]
    then have "okk k" if "(k, snap) \<in> set (sort_key (\<lambda>x. - created_at (snd x)) snaps)" for k snap
      using that by (auto simp: run_snapshots_def dest: view_okk)
    then have "inv s' \<and> (\<exists>D. D \<subseteq> set (doomed (retention policy) now 0 (sort_key (\<lambda>x. - created_at (snd x)) snaps))
        \<and> view s' = forget D (view s)
        \<and> (\<forall>n. r = Inr n \<longrightarrow> D = set (doomed (retention policy) now 0 (sort_key (\<lambda>x. - created_at (snd x)) snaps))
            \<and> n = of_nat (length (doomed (retention policy) now 0 (sort_key (\<lambda>x. - created_at (snd x)) snaps)))))"
      using prune_loop_outcomes [OF assms(1) _ ran(3)] by simp
    with snaps show ?thesis by blast
  qed
qed

end

section \<open>What saving leaves behind\<close>

text \<open>A metadata store and an object store side by side.\<close>

locale meta_and_blobs = storage S view tview okk inv tinv inscope + object_store B blobs oinv H
  for S :: "('s, 't) storage_ops" and view tview okk inv tinv inscope
    and B :: "'o object_ops" and blobs oinv H
begin

lemma save_law:
  assumes "inv s" "oinv objs" "okk (snapshot_key (sr_run req) (snap_id snap))"
    and "save_train_state S B H J T P dbg now req dir (s, objs) = (Inr snap, (s', objs'))"
  shows "\<exists>tar row. build_deterministic_tar T P dir = Inr tar \<and> snap = train_snapshot req now (content_id_of H tar) (of_nat (length tar))
    \<and> content_id_wf (content_id_of H tar) \<and> encode J snap = Inr row \<and> inv s' \<and> oinv objs'
    \<and> view s' = (view s)(snapshot_key (sr_run req) (snap_id snap) \<mapsto> row)
    \<and> (\<forall>i. blobs objs i \<noteq> None \<longrightarrow> blobs objs' i = blobs objs i) \<and> blobs objs' (content_id_of H tar) \<noteq> None"
proof -
  obtain tar cid t t' row where run: "build_deterministic_tar T P dir = Inr tar"
      "put_blob B tar \<lparr>expected_size = Some (of_nat (length tar)), content_type = Some ''application/x-tar''\<rparr> objs = (Inr cid, objs')"
      "snap = train_snapshot req now cid (of_nat (length tar))" "begin_txn S s = Inr t" "encode J snap = Inr row"
      "put_bytes S (snapshot_key (snap_run snap) (snap_id snap)) row t = (Inr (), t')" "commit_txn S t' s = (Inr (), s')"
    using assms(4)
    by (auto simp: save_train_state_def comp_iff on_store_eq on_sink_eq Let_def split: if_splits)
  note blob = put_blob_law [OF assms(2) run(2)]
  have key: "snap_run snap = sr_run req" using run(3) by (simp add: train_snapshot_def)
  have begun: "tinv t \<and> tview t = view s" by (rule begin_law [OF assms(1) run(4)])
  then have "tinv t' \<and> tview t' = (view s)(snapshot_key (sr_run req) (snap_id snap) \<mapsto> row)"
    using put_law [OF _ _ run(6)] assms(3) key by simp
  with commit_Inr [OF assms(1) _ run(7)] have "inv s'" "view s' = (view s)(snapshot_key (sr_run req) (snap_id snap) \<mapsto> row)"
    by auto
  with blob run show ?thesis by blast
qed

lemma restore_law:
  assumes "oinv objs" "content_id_wf cid" "get_blob B cid objs = Inr b"
  shows "content_id_of H b = cid \<and>
    restore_train_state B H T (train_snapshot req now cid sz) objs dst = extract_tar T b dst"
proof -
  have "content_id_of H b = cid"
    using named_by_hash [OF assms(1) get_blob_law [OF assms]] .
  with assms(3) show ?thesis
    by (simp add: restore_train_state_def train_snapshot_def liftE_def bindS_def fun_eq_iff)
qed

end

interpretation redb_fs: meta_and_blobs "embedded_ops R K" "embedded_view K" "embedded_tview K" "embedded_okk K" "embedded_inv K"
    "embedded_tinv K" key_has_prefix "fs_object_ops D" "fs_blobs D" "fs_inv D" "hash D" for R K D
  by unfold_locales

interpretation pg_fs: meta_and_blobs "postgres_ops Q" pg_view pg_tview pg_okk pg_inv pg_tinv pg_inscope
    "fs_object_ops D" "fs_blobs D" "fs_inv D" "hash D" for Q D
  by unfold_locales

section \<open>Properties\<close>

text \<open>
  C4. Pruning deletes exactly what retention gives up. If \<open>prune\<close> succeeds, then for the snapshots of the
  run ordered by age, newest first, the rows that are gone are those beyond the first \<open>keep_last\<close>, not
  labelled (when labels are kept) and not younger than \<open>max_age\<close>; every other row of the store, of
  other runs and namespaces too, is as it was, and the answer is the number of deleted rows. If it
  fails half way, it has deleted only such rows.
\<close>

theorem prune_deletes_exactly_unretained:
  assumes "embedded_inv K s" "apply_prune (embedded_ops R K) J now policy s = (r, s')"
  shows "embedded_inv K s' \<and> (embedded_view K s' = embedded_view K s \<and> (\<exists>e. r = Inl e) \<or>
    (\<exists>snaps D. run_snapshots J (embedded_view K s) (prune_run policy) snaps
       \<and> D \<subseteq> given_up (retention policy) now snaps
       \<and> embedded_view K s' = forget D (embedded_view K s)
       \<and> (\<forall>n. r = Inr n \<longrightarrow> n = of_nat (card D) \<and> D = given_up (retention policy) now snaps)))"
proof -
  note dead = doomed_given_up [of "retention policy" now]
  have count: "length (doomed (retention policy) now 0 snaps) = card (set (doomed (retention policy) now 0 snaps))"
    if "run_snapshots J (embedded_view K s) (prune_run policy) snaps" for snaps
    using that distinct_card [OF doomed_distinct] by (simp add: run_snapshots_def)
  note law = redb.prune_law [OF assms]
  then have "embedded_inv K s'" by simp
  from law consider (err) e where "r = Inl e" "embedded_view K s' = embedded_view K s"
    | (ran) snaps D where "run_snapshots J (embedded_view K s) (prune_run policy) snaps"
        "D \<subseteq> set (doomed (retention policy) now 0 snaps)" "embedded_view K s' = forget D (embedded_view K s)"
        "\<forall>n. r = Inr n \<longrightarrow> D = set (doomed (retention policy) now 0 snaps) \<and> n = of_nat (length (doomed (retention policy) now 0 snaps))"
    by blast
  then show ?thesis
  proof cases
    case err
    with \<open>embedded_inv K s'\<close> show ?thesis by blast
  next
    case ran
    then have "\<forall>n. r = Inr n \<longrightarrow> n = of_nat (card D) \<and> D = set (doomed (retention policy) now 0 snaps)"
      using count [OF ran(1)] by simp
    with \<open>embedded_inv K s'\<close> ran(1-3) show ?thesis unfolding dead by blast
  qed
qed

text \<open>
  C11. A saved snapshot can be restored. After \<open>save_train_state\<close> has returned, whatever else is written to the
  object store and however those writes fail, the archive of the saved directory is still there, up to
  a collision of the hash; \<open>restore_train_state\<close> extracts it, and the only errors left are those of
  reading the file and of extracting, not a missing part, a missing blob or a mismatch. The metadata
  row is the encoded snapshot, and it is the only row that changed.
\<close>

theorem saved_snapshot_restores:
  assumes "embedded_inv K s" "fs_inv D fs" "embedded_okk K (snapshot_key (sr_run req) (snap_id snap))"
    and "save_train_state (embedded_ops R K) (fs_object_ops D) (hash D) J T P dbg now req dir (s, fs) = (Inr snap, (s1, fs1))"
    and "\<forall>(D', c) \<in> set cs. same_store D D'" "same_store D D'"
  shows "\<exists>tar row cid b. build_deterministic_tar T P dir = Inr tar \<and> cid = content_id_of (hash D) tar
    \<and> encode J snap = Inr row \<and> embedded_view K s1 = (embedded_view K s)(snapshot_key (sr_run req) (SnapshotId cid) \<mapsto> row)
    \<and> content_id_of (hash D) b = cid
    \<and> restore_train_state (fs_object_ops D') (hash D) T snap (run_puts cs fs1) dst
        = (case read_fault (faults D') (path_for D cid) (run_puts cs fs1) of
             None \<Rightarrow> extract_tar T b dst
           | Some e \<Rightarrow> failS (io_internal (faults D') (OtherIo e)))"
proof -
  from redb_fs.save_law [OF assms(1-4)] obtain tar row where
    tar: "build_deterministic_tar T P dir = Inr tar" "snap = train_snapshot req now (content_id_of (hash D) tar) (of_nat (length tar))"
      "encode J snap = Inr row" "content_id_wf (content_id_of (hash D) tar)" "fs_inv D fs1"
      "fs_blobs D fs1 (content_id_of (hash D) tar) \<noteq> None"
      "embedded_view K s1 = (embedded_view K s)(snapshot_key (sr_run req) (snap_id snap) \<mapsto> row)"
    by blast
  let ?cid = "content_id_of (hash D) tar"
  have grown: "grows D fs1 (run_puts cs fs1)" by (rule run_puts_grow [OF tar(5) assms(5)])
  then obtain b where b: "run_puts cs fs1 (path_for D ?cid) = Some b"
    using tar(4,6) by (force simp: grows_def fs_blobs_def)
  have path: "path_for D' ?cid = path_for D ?cid"
    using assms(6) by (simp add: path_for_def same_store_def)
  have inv: "fs_inv D' (run_puts cs fs1)" "hash D' = hash D"
    using grown assms(6) same_store_inv [OF assms(6)] by (auto simp: grows_def same_store_def)
  have id: "content_id_of (hash D) b = ?cid"
    using grown b tar(4) by (auto simp: grows_def fs_inv_def fs_blobs_def)
  have "restore_train_state (fs_object_ops D') (hash D) T snap (run_puts cs fs1) dst
        = (case read_fault (faults D') (path_for D ?cid) (run_puts cs fs1) of
             None \<Rightarrow> extract_tar T b dst | Some e \<Rightarrow> failS (io_internal (faults D') (OtherIo e)))"
    using b path id
    by (auto simp: tar(2) restore_train_state_def train_snapshot_def fs_object_ops_def fs_get_bytes_def read_file_def
        bindS_def liftE_def failS_def fun_eq_iff split: option.splits)
  then show ?thesis
    using tar(1,3,7) id by (auto simp: tar(2) train_snapshot_def)
qed

section \<open>Listing and looking up by id on the two backends\<close>

text \<open>What a filter selects, apart from the run and the limit.\<close>

definition selects :: "snapshot_filter \<Rightarrow> snapshot \<Rightarrow> bool" where
  "selects flt snap \<longleftrightarrow>
     (case flt_kind flt of None \<Rightarrow> True | Some kind \<Rightarrow> snap_kind snap = kind)
   \<and> (case label_contains flt of None \<Rightarrow> True
      | Some needle \<Rightarrow> (case label snap of None \<Rightarrow> False | Some l \<Rightarrow> str_contains needle l))"

lemma insort_key_map: "insort_key f (g x) (map g xs) = map g (insort_key (f \<circ> g) x xs)"
  by (induction xs) auto

lemma sort_key_map: "sort_key f (map g xs) = map g (sort_key (f \<circ> g) xs)"
  by (induction xs) (simp_all add: insort_key_map comp_def)

text \<open>The two \<open>retain\<close> calls.\<close>

lemma selects_filters:
  "(let out = (case flt_kind flt of None \<Rightarrow> out | Some kind \<Rightarrow> filter (\<lambda>s. snap_kind s = kind) out)
    in (case label_contains flt of None \<Rightarrow> out
         | Some needle \<Rightarrow> filter (\<lambda>s. case label s of None \<Rightarrow> False | Some l \<Rightarrow> str_contains needle l) out))
   = filter (selects flt) out"
  by (cases "flt_kind flt"; cases "label_contains flt") (auto simp: selects_def [abs_def] intro!: filter_cong)

lemma pair_collected:
  "collectE (\<lambda>(k, b). decode_snapshot J b) rows = Inr decoded \<Longrightarrow>
     \<exists>snaps. collectE (\<lambda>(k, v). bindE (decode_snapshot J v) (\<lambda>s. Inr (k, s))) rows = Inr snaps \<and> map snd snaps = decoded"
proof (induction rows arbitrary: decoded)
  case (Cons x rows)
  obtain k b where x: "x = (k, b)" by fastforce
  with Cons.prems obtain d ds where d: "decode_snapshot J b = Inr d" "collectE (\<lambda>(k, b). decode_snapshot J b) rows = Inr ds"
    "decoded = d # ds" by (auto simp: comp_iff)
  from Cons.IH [OF d(2)] obtain snaps where
    "collectE (\<lambda>(k, v). bindE (decode_snapshot J v) (\<lambda>s. Inr (k, s))) rows = Inr snaps" "map snd snaps = ds" by blast
  with x d show ?case by simp
qed simp

context storage
begin

lemma list_law:
  assumes "inv s" "flt_run flt = Some run" "list_snapshots S J flt s = Inr out"
  shows "\<exists>snaps. run_snapshots J (view s) run snaps \<and>
    out = (case flt_limit flt of None \<Rightarrow> filter (selects flt) (map snd snaps)
         | Some n \<Rightarrow> take (unat n) (filter (selects flt) (map snd snaps)))"
proof -
  obtain rows decoded where scan: "scan_bytes S \<lparr>range_prefix = run_prefix run, range_limit = None\<rparr> s = Inr rows"
    and dec: "collectE (\<lambda>(k, b). decode_snapshot J b) rows = Inr decoded"
    and out: "out = (case flt_limit flt of None \<Rightarrow> sort_key (\<lambda>s. - created_at s) (filter (selects flt) decoded)
        | Some n \<Rightarrow> take (unat n) (sort_key (\<lambda>s. - created_at s) (filter (selects flt) decoded)))"
    using assms(2,3) unfolding list_snapshots_def selects_filters [unfolded Let_def, symmetric]
    by (auto simp: run_prefix_def comp_iff Let_def)
  obtain snaps where snaps: "collectE (\<lambda>(k, v). bindE (decode_snapshot J v) (\<lambda>s. Inr (k, s))) rows = Inr snaps"
      "map snd snaps = decoded"
    using pair_collected [OF dec] by blast
  have "sort_key (\<lambda>s. - created_at s) (filter (selects flt) decoded)
      = filter (selects flt) (map snd (sort_key (\<lambda>x. - created_at (snd x)) snaps))"
    unfolding snaps(2) [symmetric] filter_sort [symmetric] sort_key_map by (simp add: comp_def)
  with decoded_rows [OF assms(1) scan snaps(1)] out show ?thesis by metis
qed

end

text \<open>
  Listing a run returns exactly the stored snapshots of the run that have the wanted kind and whose
  label contains the wanted text, newest first, cut to the limit: a limited list is never missing a
  newer match in favour of an older one.
\<close>

theorem list_returns_newest_matching:
  assumes "embedded_inv K s" "flt_run flt = Some run" "list_snapshots (embedded_ops R K) J flt s = Inr out"
  shows "\<exists>snaps. run_snapshots J (embedded_view K s) run snaps \<and>
    out = (case flt_limit flt of None \<Rightarrow> filter (selects flt) (map snd snaps)
         | Some n \<Rightarrow> take (unat n) (filter (selects flt) (map snd snaps)))"
  by (rule redb.list_law [OF assms])

text \<open>
  A lookup by id scans the namespace with no run. On Postgres that ranges over the rows without a run
  only, and a snapshot row always has one: the lookup answers that there is none.
\<close>

lemma pg_read_meta_finds_nothing:
  assumes "pg_inv s" "\<forall>k v. pg_view s k = Some v \<and> namespace k = ''snapshots'' \<longrightarrow> key_run k \<noteq> None"
    and "read_meta (postgres_ops Q) J sid s = Inr m"
  shows "m = None"
proof -
  from assms(3) obtain rows where rows: "pg_scan_bytes Q \<lparr>range_prefix = all_runs_prefix, range_limit = None\<rparr> s = Inr rows"
    and m: "find_snapshot J sid rows = Inr m"
    by (auto simp: read_meta_def comp_iff)
  from pg_scan_law [OF assms(1) rows] assms(2) have "set rows = {}"
    by (auto simp: all_runs_prefix_def pg_inscope_def)
  with m show ?thesis by simp
qed

section \<open>Witnesses\<close>

definition snap_demo_req :: snapshot_request where
  "snap_demo_req = \<lparr>sr_run = RunId 1, sr_algorithm = ''sft'', sr_kind = TrainState, sr_label = None, sr_meta = JNull\<rparr>"

definition snap_demo_dir :: dir_probe where
  "snap_demo_dir = demo_dir [Inr [''x''], Inr [''x'', ''f'']]"

definition snap_demo :: "content_id \<Rightarrow> systime \<Rightarrow> snapshot" where
  "snap_demo cid now = train_snapshot snap_demo_req now cid 2"

definition snap_demo_json :: "snapshot codec" where
  "snap_demo_json = table_codec [snap_demo (ContentId (replicate 32 0)) 200, snap_demo (ContentId (replicate 32 7)) 100]"

definition snap_demo_keys :: key_codec where
  "snap_demo_keys = table_codec [(Some (RunId 1), [content_id_to_string (ContentId (replicate 32 0))]),
     (Some (RunId 1), [content_id_to_string (ContentId (replicate 32 7))])]"

abbreviation snap_demo_ops :: "(embedded_storage, embedded_txn) storage_ops" where
  "snap_demo_ops \<equiv> embedded_ops faultless snap_demo_keys"

abbreviation snap_demo_save :: "(embedded_storage \<times> files, snapshot) io" where
  "snap_demo_save \<equiv> save_train_state snap_demo_ops (fs_object_ops fs_demo) (hash fs_demo) snap_demo_json demo_tar snap_demo_dir True 200
     snap_demo_req [''x'']"

lemma snap_demo_saves: "fst (snap_demo_save (empty_store, Map.empty)) = Inr (snap_demo (ContentId (replicate 32 0)) 200)"
  by code_simp

lemma snap_demo_inv: "embedded_inv snap_demo_keys empty_store"
  by code_simp

lemma snap_demo_okk: "embedded_okk snap_demo_keys (snapshot_key (RunId 1) (SnapshotId (ContentId (replicate 32 0))))"
  by code_simp

definition prune_demo_store :: embedded_storage where
  "prune_demo_store = snd (transaction snap_demo_ops
     [PutOp (snapshot_key (RunId 1) (SnapshotId (ContentId (replicate 32 0)))) [0],
      PutOp (snapshot_key (RunId 1) (SnapshotId (ContentId (replicate 32 7)))) [1]] empty_store)"

definition prune_demo :: prune_policy where
  "prune_demo = \<lparr>prune_run = RunId 1, retention = \<lparr>keep_last = 1, keep_labeled = True, max_age = None\<rparr>\<rparr>"

lemma prune_demo_hyps:
  "embedded_inv snap_demo_keys prune_demo_store"
  "fst (apply_prune snap_demo_ops snap_demo_json 300 prune_demo prune_demo_store) = Inr 1"
  by code_simp+

definition list_demo :: snapshot_filter where
  "list_demo = \<lparr>flt_run = Some (RunId 1), flt_kind = Some TrainState, label_contains = None, flt_limit = Some 1\<rparr>"

lemma list_demo_run: "list_snapshots snap_demo_ops snap_demo_json list_demo prune_demo_store = Inr [snap_demo (ContentId (replicate 32 0)) 200]"
  by code_simp

theorem list_returns_newest_matching_witness:
  "\<exists>snaps. run_snapshots snap_demo_json (embedded_view snap_demo_keys prune_demo_store) (RunId 1) snaps \<and>
     [snap_demo (ContentId (replicate 32 0)) 200] = take 1 (filter (selects list_demo) (map snd snaps))"
  using list_returns_newest_matching [OF prune_demo_hyps(1) _ list_demo_run, of "RunId 1"]
  by (simp add: list_demo_def)

theorem prune_deletes_exactly_unretained_witness:
  "\<exists>snaps D. run_snapshots snap_demo_json (embedded_view snap_demo_keys prune_demo_store) (prune_run prune_demo) snaps
     \<and> D = given_up (retention prune_demo) 300 snaps
     \<and> (1 :: u64) = of_nat (card D)"
proof -
  let ?run = "apply_prune snap_demo_ops snap_demo_json 300 prune_demo prune_demo_store"
  have "?run = (Inr 1, snd ?run)" using prune_demo_hyps(2) by (metis prod.collapse)
  note law = prune_deletes_exactly_unretained [OF prune_demo_hyps(1) this, THEN conjunct2]
  from law show ?thesis
  proof (elim disjE exE conjE)
    fix snaps D
    assume "run_snapshots snap_demo_json (embedded_view snap_demo_keys prune_demo_store) (prune_run prune_demo) snaps"
      and "\<forall>n. Inr 1 = (Inr n :: u64 res) \<longrightarrow> n = of_nat (card D) \<and>
        D = given_up (retention prune_demo) 300 snaps"
    from this(1) this(2) [THEN spec, THEN mp, OF refl] show ?thesis by (intro exI conjI) (assumption | erule conjunct1 conjunct2)+
  qed simp
qed

theorem saved_snapshot_restores_witness:
  "\<exists>b. content_id_of (hash fs_demo) b = ContentId (replicate 32 0) \<and>
     restore_train_state (fs_object_ops fs_demo) (hash fs_demo) demo_tar (snap_demo (ContentId (replicate 32 0)) 200)
       (snd (snd (snap_demo_save (empty_store, Map.empty)))) [''out''] = extract_tar demo_tar b [''out'']"
proof -
  let ?snap = "snap_demo (ContentId (replicate 32 0)) 200"
  let ?run = "snap_demo_save (empty_store, Map.empty)"
  have run: "?run = (Inr ?snap, (fst (snd ?run), snd (snd ?run)))"
    using snap_demo_saves by (metis prod.collapse)
  have "sr_run snap_demo_req = RunId 1" "snap_id ?snap = SnapshotId (ContentId (replicate 32 0))"
    by (simp_all add: snap_demo_req_def snap_demo_def train_snapshot_def)
  then have okk: "embedded_okk snap_demo_keys (snapshot_key (sr_run snap_demo_req) (snap_id ?snap))"
    using snap_demo_okk by simp
  have tar: "build_deterministic_tar demo_tar snap_demo_dir [''x''] = Inr [1, 42]" by code_simp
  have fault: "read_fault (faults fs_demo) p fs = None" for p fs by (simp add: fs_demo_def)
  have cid: "content_id_of (hash fs_demo) [1, 42] = ContentId (replicate 32 0)"
    by (simp add: content_id_of_def fs_demo_def)
  have same: "same_store fs_demo fs_demo" by (simp add: same_store_def)
  from saved_snapshot_restores [OF snap_demo_inv fs_demo_inv(1) okk run _ same, where cs = "[]" and dst = "[''out'']"]
  obtain t c b where "build_deterministic_tar demo_tar snap_demo_dir [''x''] = Inr t" "c = content_id_of (hash fs_demo) t"
      "content_id_of (hash fs_demo) b = c"
      "restore_train_state (fs_object_ops fs_demo) (hash fs_demo) demo_tar ?snap (snd (snd ?run)) [''out''] = extract_tar demo_tar b [''out'']"
    unfolding fault option.case run_puts.simps by fastforce
  with tar cid show ?thesis by (intro exI [of _ b]) simp
qed

end
