(* ===== verification/Eval_Suites.thy ===== *)
theory Eval_Suites
  imports Complex_Main Core_Types
begin

unbundle bit_operations_syntax

text \<open>
  The scorers of the bundled evaluation suites (\<open>rollout-harness-eval/src/suites\<close>) and the
  deterministic backend they run against (\<open>backend.rs\<close>): MMLU, GSM8K and IFEval. Floating point,
  the Unicode tables, the regular expression of GSM8K and the JSON parser are parameters. A text is
  the list of its UTF-8 bytes; a character of it is the list of its bytes.
\<close>

section \<open>Parameters\<close>

record 'f f64 =
  f_of_nat :: "nat \<Rightarrow> 'f"
  f_neg :: "'f \<Rightarrow> 'f"
  f_add :: "'f \<Rightarrow> 'f \<Rightarrow> 'f"
  f_div :: "'f \<Rightarrow> 'f \<Rightarrow> 'f"
  f_gt :: "'f \<Rightarrow> 'f \<Rightarrow> bool"
  f_parse :: "string \<Rightarrow> 'f option"
  f_close :: "'f \<Rightarrow> 'f \<Rightarrow> bool"

record 'f eval_libs =
  fl :: "'f f64"
  is_ws :: "string \<Rightarrow> bool"
  is_alphabetic :: "string \<Rightarrow> bool"
  is_lowercase :: "string \<Rightarrow> bool"
  is_uppercase :: "string \<Rightarrow> bool"
  to_lowercase :: "string \<Rightarrow> string"
  gsm8k_matches :: "string \<Rightarrow> string list"
  json_parses :: "string \<Rightarrow> bool"

definition utf8_cont :: "char \<Rightarrow> bool" where
  "utf8_cont c \<longleftrightarrow> 128 \<le> (of_char c :: nat) \<and> of_char c < (192 :: nat)"

text \<open>The characters of a text: a byte that starts one and the continuation bytes after it.\<close>

function utf8_chars :: "string \<Rightarrow> string list" where
  "utf8_chars [] = []"
| "utf8_chars (c # cs) = (c # takeWhile utf8_cont cs) # utf8_chars (dropWhile utf8_cont cs)"
  by pat_completeness auto
termination
  by (relation "measure length") (auto simp: le_imp_less_Suc length_dropWhile_le)

definition trim_start :: "'f eval_libs \<Rightarrow> string \<Rightarrow> string" where
  "trim_start L s = concat (dropWhile (is_ws L) (utf8_chars s))"

definition trim :: "'f eval_libs \<Rightarrow> string \<Rightarrow> string" where
  "trim L s = concat (rev (dropWhile (is_ws L) (rev (dropWhile (is_ws L) (utf8_chars s)))))"

section \<open>Data sets\<close>

datatype suite = Mmlu | Ifeval | Gsm8k

fun suite_name :: "suite \<Rightarrow> string" where
  "suite_name Mmlu = ''mmlu''"
| "suite_name Ifeval = ''ifeval''"
| "suite_name Gsm8k = ''gsm8k''"

text \<open>An MMLU row has exactly four choices.\<close>

record mmlu_row =
  mmlu_question :: string
  mmlu_choices :: "string \<times> string \<times> string \<times> string"
  mmlu_answer :: nat

record gsm8k_row =
  gsm8k_question :: string
  gsm8k_answer :: string

record instruction =
  instr_id :: string
  instr_kwargs :: json

record ifeval_row =
  ifeval_key :: int
  ifeval_prompt :: string
  ifeval_instructions :: "instruction list"

section \<open>MMLU\<close>

fun choices_list :: "string \<times> string \<times> string \<times> string \<Rightarrow> string list" where
  "choices_list (a, b, c, d) = [a, b, c, d]"

definition mmlu_format_prompt :: "mmlu_row \<Rightarrow> string" where
  "mmlu_format_prompt row = mmlu_question row @ ''\<newline>''
     @ concat (map (\<lambda>(letter, choice). letter # ''. '' @ choice @ ''\<newline>'') (zip ''ABCD'' (choices_list (mmlu_choices row))))
     @ ''Answer:''"

record mmlu_item_score =
  sc_acc :: bool
  sc_acc_norm :: bool

fun argmax_from :: "'f f64 \<Rightarrow> nat \<Rightarrow> nat \<Rightarrow> 'f \<Rightarrow> 'f list \<Rightarrow> nat" where
  "argmax_from F i best vbest [] = best"
| "argmax_from F i best vbest (v # vs) =
     (if f_gt F v vbest then argmax_from F (Suc i) i v vs else argmax_from F (Suc i) best vbest vs)"

text \<open>\<open>argmax4\<close> of an array of four.\<close>

fun argmax4 :: "'f f64 \<Rightarrow> 'f list \<Rightarrow> nat" where
  "argmax4 F [] = 0"
| "argmax4 F (v # vs) = argmax_from F 1 0 v vs"

definition mmlu_score_item :: "'f f64 \<Rightarrow> 'f list \<Rightarrow> nat list \<Rightarrow> nat \<Rightarrow> mmlu_item_score" where
  "mmlu_score_item F logprobs cont_lens gold =
     (let normed = map (\<lambda>(lp, len). f_div F lp (f_of_nat F (max len 1))) (zip logprobs cont_lens)
      in \<lparr>sc_acc = (argmax4 F logprobs = gold), sc_acc_norm = (argmax4 F normed = gold)\<rparr>)"

section \<open>GSM8K\<close>

text \<open>\<open>rsplit(pat).next()\<close>: what follows the last occurrence of the pattern.\<close>

definition after_last :: "string \<Rightarrow> string \<Rightarrow> string" where
  "after_last pat s = (case filter (prefix pat) (map (\<lambda>i. drop i s) [0..<Suc (length s)]) of
       [] \<Rightarrow> s | hits \<Rightarrow> drop (length pat) (last hits))"

definition parse_number :: "'f eval_libs \<Rightarrow> string \<Rightarrow> 'f option" where
  "parse_number L raw =
     (let cleaned = filter (\<lambda>c. c \<notin> set '',$ \<newline>'' \<and> c \<noteq> CHR 0x09) raw
      in f_parse (fl L) (rev (dropWhile (\<lambda>c. c = CHR ''.'') (rev cleaned))))"

definition extract_gold :: "'f eval_libs \<Rightarrow> string \<Rightarrow> 'f option" where
  "extract_gold L answer = parse_number L (trim L (after_last ''####'' answer))"

definition extract_model_answer :: "'f eval_libs \<Rightarrow> string \<Rightarrow> 'f option" where
  "extract_model_answer L generation = (case gsm8k_matches L generation of
       [] \<Rightarrow> None | ms \<Rightarrow> parse_number L (last ms))"

definition gsm8k_score_item :: "'f eval_libs \<Rightarrow> string \<Rightarrow> string \<Rightarrow> bool" where
  "gsm8k_score_item L gold_answer generation =
     (case (extract_gold L gold_answer, extract_model_answer L generation) of
        (Some g, Some m) \<Rightarrow> f_close (fl L) g m
      | _ \<Rightarrow> False)"

section \<open>IFEval\<close>

definition kw :: "json \<Rightarrow> string \<Rightarrow> json option" where
  "kw v key = (case v of JObj kvs \<Rightarrow> map_of kvs key | _ \<Rightarrow> None)"

definition kw_str :: "json \<Rightarrow> string \<Rightarrow> string \<Rightarrow> string" where
  "kw_str v key dflt = (case kw v key of Some (JStr s) \<Rightarrow> s | _ \<Rightarrow> dflt)"

definition kw_usize :: "json \<Rightarrow> string \<Rightarrow> nat" where
  "kw_usize v key = (case kw v key of Some (JInt i) \<Rightarrow> if 0 \<le> i \<and> i < 2 ^ 64 then nat i else 0 | _ \<Rightarrow> 0)"

definition relation_holds :: "string \<Rightarrow> nat \<Rightarrow> nat \<Rightarrow> bool" where
  "relation_holds relation count n =
     (if relation = ''at least'' then n \<le> count
      else if relation = ''less than'' then count < n
      else if relation = ''at most'' then count \<le> n
      else False)"

text \<open>\<open>split_whitespace().count()\<close>; the flag says whether the last character belongs to a word.\<close>

fun count_words :: "(string \<Rightarrow> bool) \<Rightarrow> bool \<Rightarrow> string list \<Rightarrow> nat" where
  "count_words ws inside [] = 0"
| "count_words ws inside (c # cs) =
     (if ws c then count_words ws False cs else (if inside then 0 else 1) + count_words ws True cs)"

fun split_chars :: "(string \<Rightarrow> bool) \<Rightarrow> string list \<Rightarrow> string list list" where
  "split_chars P [] = [[]]"
| "split_chars P (c # cs) =
     (if P c then [] # split_chars P cs else (case split_chars P cs of [] \<Rightarrow> [[c]] | y # ys \<Rightarrow> (c # y) # ys))"

definition count_sentences :: "'f eval_libs \<Rightarrow> string \<Rightarrow> nat" where
  "count_sentences L response =
     length (filter (\<lambda>seg. \<not> list_all (is_ws L) seg)
       (split_chars (\<lambda>c. c = ''.'' \<or> c = ''!'' \<or> c = ''?'') (utf8_chars response)))"

text \<open>\<open>lines\<close>: the parts between newlines, without a final empty one and without a carriage return at the end.\<close>

definition strip_cr :: "string list \<Rightarrow> string list" where
  "strip_cr l = (if l \<noteq> [] \<and> last l = [CHR 0x0D] then butlast l else l)"

definition text_lines :: "string \<Rightarrow> string list list" where
  "text_lines s = (let ls = split_chars (\<lambda>c. c = ''\<newline>'') (utf8_chars s)
     in map strip_cr (if last ls = [] then butlast ls else ls))"

definition count_bullets :: "'f eval_libs \<Rightarrow> string \<Rightarrow> nat" where
  "count_bullets L response =
     length (filter (\<lambda>l. let t = concat (dropWhile (is_ws L) l) in prefix ''* '' t \<or> prefix ''- '' t) (text_lines response))"

definition strip_code_fence :: "'f eval_libs \<Rightarrow> string \<Rightarrow> string" where
  "strip_code_fence L s =
     (let s = (if prefix ''```json'' s then drop 7 s else if prefix ''```'' s then drop 3 s else s)
      in trim L (if suffix ''```'' s then take (length s - 3) s else s))"

text \<open>\<open>matches(needle).count()\<close>: occurrences that do not overlap.\<close>

fun count_matches :: "string \<Rightarrow> nat \<Rightarrow> string \<Rightarrow> nat" where
  "count_matches needle skip [] = 0"
| "count_matches needle 0 (c # cs) =
     (if prefix needle (c # cs) then Suc (count_matches needle (length needle - 1) cs) else count_matches needle 0 cs)"
| "count_matches needle (Suc skip) (c # cs) = count_matches needle skip cs"

definition count_occurrences :: "string \<Rightarrow> string \<Rightarrow> nat" where
  "count_occurrences haystack needle = (if needle = [] then 0 else count_matches needle 0 haystack)"

fun count_placeholders :: "nat \<Rightarrow> nat \<Rightarrow> string \<Rightarrow> nat" where
  "count_placeholders count depth [] = count"
| "count_placeholders count depth (c # cs) =
     (if c = CHR ''['' then count_placeholders count (Suc depth) cs
      else if c = CHR '']'' \<and> 0 < depth then count_placeholders (Suc count) (depth - 1) cs
      else count_placeholders count depth cs)"

definition keywords_exist :: "'f eval_libs \<Rightarrow> json \<Rightarrow> string \<Rightarrow> bool" where
  "keywords_exist L kwargs response = (case kw kwargs ''keywords'' of
       Some (JArr kws) \<Rightarrow> list_all (\<lambda>k. case k of JStr k \<Rightarrow> str_contains (to_lowercase L k) (to_lowercase L response) | _ \<Rightarrow> True) kws
     | _ \<Rightarrow> False)"

definition check_instruction :: "'f eval_libs \<Rightarrow> string \<Rightarrow> json \<Rightarrow> string \<Rightarrow> bool" where
  "check_instruction L iid kwargs response =
     (if iid = ''length_constraints:number_words'' then
        relation_holds (kw_str kwargs ''relation'' ''at least'')
          (count_words (is_ws L) False (utf8_chars response)) (kw_usize kwargs ''num_words'')
      else if iid = ''length_constraints:number_sentences'' then
        relation_holds (kw_str kwargs ''relation'' ''at least'') (count_sentences L response) (kw_usize kwargs ''num_sentences'')
      else if iid = ''detectable_format:number_bullet_lists'' then
        count_bullets L response = kw_usize kwargs ''num_bullets''
      else if iid = ''detectable_format:json_format'' then
        json_parses L (strip_code_fence L (trim L response))
      else if iid = ''keywords:existence'' then keywords_exist L kwargs response
      else if iid = ''keywords:frequency'' then
        relation_holds (kw_str kwargs ''relation'' ''at least'')
          (count_occurrences (to_lowercase L response) (to_lowercase L (kw_str kwargs ''keyword'' '''')))
          (kw_usize kwargs ''frequency'')
      else if iid = ''change_case:english_lowercase'' then
        list_all (is_lowercase L) (filter (is_alphabetic L) (utf8_chars response))
      else if iid = ''change_case:english_capital'' then
        list_all (is_uppercase L) (filter (is_alphabetic L) (utf8_chars response))
      else if iid = ''detectable_content:number_placeholders'' then
        kw_usize kwargs ''num_placeholders'' \<le> count_placeholders 0 0 response
      else False)"

definition skipped_language :: "instruction \<Rightarrow> bool" where
  "skipped_language instr = prefix ''language:'' (instr_id instr)"

fun score_instructions :: "'f eval_libs \<Rightarrow> string \<Rightarrow> instruction list \<Rightarrow> nat \<Rightarrow> nat \<Rightarrow> nat \<Rightarrow> bool \<Rightarrow> nat \<times> nat \<times> nat \<times> bool" where
  "score_instructions L response [] satisfied tot skipped all_pass = (satisfied, tot, skipped, all_pass)"
| "score_instructions L response (instr # instrs) satisfied tot skipped all_pass =
     (if skipped_language instr then score_instructions L response instrs satisfied tot (skipped + 1) all_pass
      else if check_instruction L (instr_id instr) (instr_kwargs instr) response
      then score_instructions L response instrs (satisfied + 1) (tot + 1) skipped all_pass
      else score_instructions L response instrs satisfied (tot + 1) skipped False)"

definition score_prompt :: "'f eval_libs \<Rightarrow> ifeval_row \<Rightarrow> string \<Rightarrow> nat \<times> nat \<times> nat \<times> bool option" where
  "score_prompt L row response =
     (case score_instructions L response (ifeval_instructions row) 0 0 0 True of
        (satisfied, tot, skipped, all_pass) \<Rightarrow> (satisfied, tot, skipped, if 0 < tot then Some all_pass else None))"

record 'f ifeval_score =
  instruction_strict_acc :: 'f
  prompt_strict_acc :: 'f
  n_skipped_language :: nat

definition ratio :: "'f f64 \<Rightarrow> nat \<Rightarrow> nat \<Rightarrow> 'f" where
  "ratio F num den = (if den = 0 then f_of_nat F 0 else f_div F (f_of_nat F num) (f_of_nat F den))"

fun score_rows :: "'f eval_libs \<Rightarrow> (ifeval_row \<times> string) list \<Rightarrow> nat \<times> nat \<times> nat \<times> nat \<times> nat \<Rightarrow> nat \<times> nat \<times> nat \<times> nat \<times> nat" where
  "score_rows L [] acc = acc"
| "score_rows L ((row, resp) # rest) (sat, tot, skipped, pp, pt) =
     (case score_prompt L row resp of (s, t, sk, pass) \<Rightarrow>
        score_rows L rest (sat + s, tot + t, skipped + sk,
          if pass = Some True then pp + 1 else pp, if pass \<noteq> None then pt + 1 else pt))"

definition score_batch :: "'f eval_libs \<Rightarrow> ifeval_row list \<Rightarrow> string list \<Rightarrow> 'f ifeval_score" where
  "score_batch L rows responses =
     (case score_rows L (zip rows responses) (0, 0, 0, 0, 0) of (sat, tot, skipped, pp, pt) \<Rightarrow>
        \<lparr>instruction_strict_acc = ratio (fl L) sat tot, prompt_strict_acc = ratio (fl L) pp pt,
         n_skipped_language = skipped\<rparr>)"

section \<open>The mock backend\<close>

record mock_eval_backend =
  completions :: "string \<Rightarrow> string option"
  preferred_choice :: "string \<Rightarrow> nat option"

definition det_hash :: "string \<Rightarrow> u64 \<Rightarrow> u64" where
  "det_hash s seed = foldl (\<lambda>h b. (h XOR of_nat (of_char b)) * 0x100000001b3) (0xcbf29ce484222325 XOR seed) s"

definition mock_generate :: "mock_eval_backend \<Rightarrow> string \<Rightarrow> u64 \<Rightarrow> string" where
  "mock_generate M prompt seed = (case completions M prompt of
       Some c \<Rightarrow> c
     | None \<Rightarrow> ''MOCK['' @ decimal (unat seed) @ '']:'' @ decimal (unat (det_hash prompt seed)))"

text \<open>A registered choice beyond the fourth is an index out of range, a panic.\<close>

definition choice_logprobs :: "'f f64 \<Rightarrow> mock_eval_backend \<Rightarrow> string \<Rightarrow> string \<times> string \<times> string \<times> string \<Rightarrow> u64
    \<Rightarrow> core_error fault + 'f list \<times> nat list" where
  "choice_logprobs F M prompt choices seed =
     (let preferred = (case preferred_choice M prompt of Some c \<Rightarrow> c | None \<Rightarrow> unat (det_hash prompt seed) mod 4)
      in if preferred < 4
         then Inr ((replicate 4 (f_neg F (f_of_nat F 10)))[preferred := f_neg F (f_div F (f_of_nat F 1) (f_of_nat F 2))],
                   map length (choices_list choices))
         else Inl (Panic ''index out of bounds''))"

section \<open>What the IFEval scores count\<close>

text \<open>The instructions of a row that count, and whether a response satisfies one.\<close>

definition scored :: "ifeval_row \<Rightarrow> instruction list" where
  "scored row = filter (\<lambda>instr. \<not> skipped_language instr) (ifeval_instructions row)"

definition satisfies :: "'f eval_libs \<Rightarrow> string \<Rightarrow> instruction \<Rightarrow> bool" where
  "satisfies L response instr = check_instruction L (instr_id instr) (instr_kwargs instr) response"

lemma score_instructions_counts:
  "score_instructions L response instrs satisfied tot skipped all_pass =
     (let counted = filter (\<lambda>instr. \<not> skipped_language instr) instrs in
      (satisfied + length (filter (satisfies L response) counted), tot + length counted,
       skipped + length (filter skipped_language instrs), all_pass \<and> list_all (satisfies L response) counted))"
  by (induction instrs arbitrary: satisfied tot skipped all_pass) (auto simp: Let_def satisfies_def)

lemma score_prompt_counts:
  "score_prompt L row response =
     (length (filter (satisfies L response) (scored row)), length (scored row),
      length (filter skipped_language (ifeval_instructions row)),
      if scored row = [] then None else Some (list_all (satisfies L response) (scored row)))"
  by (simp add: score_prompt_def score_instructions_counts scored_def Let_def)

lemma score_rows_counts:
  "score_rows L prs (sat, tot, skipped, pp, pt) =
     (sat + (\<Sum>(row, resp) \<leftarrow> prs. length (filter (satisfies L resp) (scored row))),
      tot + (\<Sum>(row, resp) \<leftarrow> prs. length (scored row)),
      skipped + (\<Sum>(row, resp) \<leftarrow> prs. length (filter skipped_language (ifeval_instructions row))),
      pp + length (filter (\<lambda>(row, resp). scored row \<noteq> [] \<and> list_all (satisfies L resp) (scored row)) prs),
      pt + length (filter (\<lambda>(row, resp). scored row \<noteq> []) prs))"
  by (induction prs arbitrary: sat tot skipped pp pt) (auto simp: score_prompt_counts)

text \<open>
  C34. The two IFEval accuracies are what the stated denominator policy says: of all instructions that need
  no language detection, the fraction that the responses satisfy; and of all prompts that have such an
  instruction, the fraction whose every such instruction is satisfied. Prompts with language
  instructions only count in neither, an empty denominator gives zero, and an instruction that the
  scorer does not know counts as failed.
\<close>

theorem ifeval_scores_follow_policy:
  "score_batch L rows responses = (let prs = zip rows responses in
     \<lparr>instruction_strict_acc = ratio (fl L)
        (\<Sum>(row, resp) \<leftarrow> prs. length (filter (satisfies L resp) (scored row))) (\<Sum>(row, resp) \<leftarrow> prs. length (scored row)),
      prompt_strict_acc = ratio (fl L)
        (length (filter (\<lambda>(row, resp). scored row \<noteq> [] \<and> list_all (satisfies L resp) (scored row)) prs))
        (length (filter (\<lambda>(row, resp). scored row \<noteq> []) prs)),
      n_skipped_language = (\<Sum>(row, resp) \<leftarrow> prs. length (filter skipped_language (ifeval_instructions row)))\<rparr>)"
  by (simp add: score_batch_def score_rows_counts Let_def)

section \<open>What the MMLU scores compare\<close>

text \<open>Among values that are numbers, \<open>argmax4\<close> finds the first of the greatest.\<close>

lemma argmax_from_first:
  fixes val :: "'f \<Rightarrow> real"
  assumes gt: "\<And>a b. f_gt F a b \<longleftrightarrow> val b < val a"
    and "best < i" "length us = i" "us ! best = vbest" "\<forall>j < i. val (us ! j) \<le> val vbest" "\<forall>j < best. val (us ! j) < val vbest"
  shows "let m = argmax_from F i best vbest vs in m < i + length vs
    \<and> (\<forall>j < i + length vs. val ((us @ vs) ! j) \<le> val ((us @ vs) ! m)) \<and> (\<forall>j < m. val ((us @ vs) ! j) < val ((us @ vs) ! m))"
  using assms(2-)
proof (induction vs arbitrary: i best vbest us)
  case Nil
  then show ?case by simp
next
  case (Cons v vs)
  show ?case
  proof (cases "f_gt F v vbest")
    case True
    with gt have v: "val vbest < val v" by simp
    have "let m = argmax_from F (Suc i) i v vs in m < Suc i + length vs
      \<and> (\<forall>j < Suc i + length vs. val (((us @ [v]) @ vs) ! j) \<le> val (((us @ [v]) @ vs) ! m))
      \<and> (\<forall>j < m. val (((us @ [v]) @ vs) ! j) < val (((us @ [v]) @ vs) ! m))"
      by (rule Cons.IH) (use Cons.prems v in \<open>force simp: nth_append less_Suc_eq\<close>)+
    with True show ?thesis by simp
  next
    case False
    with gt have v: "val v \<le> val vbest" by (simp add: not_less)
    have "let m = argmax_from F (Suc i) best vbest vs in m < Suc i + length vs
      \<and> (\<forall>j < Suc i + length vs. val (((us @ [v]) @ vs) ! j) \<le> val (((us @ [v]) @ vs) ! m))
      \<and> (\<forall>j < m. val (((us @ [v]) @ vs) ! j) < val (((us @ [v]) @ vs) ! m))"
      by (rule Cons.IH) (use Cons.prems v in \<open>force simp: nth_append less_Suc_eq\<close>)+
    with False show ?thesis by simp
  qed
qed

end
