(* ===== verification/Eval_Harness.thy ===== *)
theory Eval_Harness
  imports Eval_Suites Snapshots Work_Item
begin

text \<open>
  The evaluation harness (\<open>rollout-harness-eval\<close>: \<open>datasets\<close>, \<open>job.rs\<close>, \<open>eval_reports.rs\<close>,
  \<open>lib.rs\<close>) and the checkpoint resolution of \<open>rollout eval\<close> (\<open>rollout-cli/src/eval.rs\<close>). Every example
  of a suite runs as a work item of \<open>Work_Item\<close>; its result and the report are blobs of the object
  store. Parquet, postcard, the clock and fresh identifiers are parameters.
\<close>

section \<open>Data\<close>

record model_ref =
  model_uri :: string
  model_content :: "content_id option"
  model_tokenizer :: "string option"

record eval_context =
  ctx_seed :: u64

datatype 'f metric_value = Scalar 'f

record 'f task_result =
  task_id :: string
  task_score :: 'f

record 'f eval_report =
  eval_name :: string
  eval_version :: string
  rep_model :: model_ref
  rep_started :: systime
  rep_completed :: systime
  rep_metrics :: "string \<rightharpoonup> 'f metric_value"
  rep_per_task :: "'f task_result list"

record 'f eval_report_record =
  err_id :: content_id
  err_report :: "'f eval_report"

record 'f example_result =
  ex_idx :: u64
  ex_score :: 'f

definition LM_EVAL_VERSION :: string where
  "LM_EVAL_VERSION = ''lm-eval-harness-v0.4.9''"

definition suite_metrics :: "suite \<Rightarrow> string list" where
  "suite_metrics su = (case su of
       Mmlu \<Rightarrow> [''acc'', ''acc_norm'']
     | Ifeval \<Rightarrow> [''inst_strict_acc'', ''prompt_strict_acc'']
     | Gsm8k \<Rightarrow> [''acc''])"

section \<open>Loading a data set\<close>

text \<open>A record batch as the parquet reader gives it: its columns by name and type.\<close>

record batch =
  num_rows :: nat
  utf8_col :: "string \<Rightarrow> string list option"
  i32_col :: "string \<Rightarrow> int list option"
  i64_col :: "string \<Rightarrow> int list option"
  list_col :: "string \<Rightarrow> string list option list option"

record dataset_env =
  env_var :: "string \<Rightarrow> string option"
  read_fixture :: "string \<Rightarrow> string + bytes"
  read_batches :: "bytes \<Rightarrow> string + batch list"
  parse_instructions :: "string \<Rightarrow> string + instruction list"
  data_hash :: blake3

datatype dataset = MmluRows "mmlu_row list" | IfevalRows "ifeval_row list" | Gsm8kRows "gsm8k_row list"

definition column :: "string \<Rightarrow> 'a option \<Rightarrow> 'a res" where
  "column msg c = (case c of None \<Rightarrow> Inl (internal msg) | Some x \<Rightarrow> Inr x)"

definition col_str :: "batch \<Rightarrow> string \<Rightarrow> string list res" where
  "col_str b name = column (''missing Utf8 column `'' @ name @ ''`'') (utf8_col b name)"

definition mmlu_row_at :: "string list \<Rightarrow> int list \<Rightarrow> string list option list \<Rightarrow> nat \<Rightarrow> mmlu_row res" where
  "mmlu_row_at questions answers choices i = (case choices ! i of
       None \<Rightarrow> Inl (internal ''mmlu: `choices` elements must be Utf8'')
     | Some vals \<Rightarrow> (case vals of
           [a, b, c, d] \<Rightarrow> Inr \<lparr>mmlu_question = questions ! i, mmlu_choices = (a, b, c, d),
             mmlu_answer = (if 0 \<le> answers ! i then nat (answers ! i) else 0)\<rparr>
         | _ \<Rightarrow> Inl (internal (''mmlu row '' @ decimal i @ '': expected 4 choices, got '' @ decimal (length vals)))))"

definition parse_mmlu :: "batch \<Rightarrow> mmlu_row list res" where
  "parse_mmlu b =
     bindE (col_str b ''question'') (\<lambda>questions.
     bindE (column ''mmlu: missing Int32 column `answer`'' (i32_col b ''answer'')) (\<lambda>answers.
     bindE (column ''mmlu: missing List column `choices`'' (list_col b ''choices'')) (\<lambda>choices.
     collectE (mmlu_row_at questions answers choices) [0..<num_rows b])))"

definition parse_gsm8k :: "batch \<Rightarrow> gsm8k_row list res" where
  "parse_gsm8k b =
     bindE (col_str b ''question'') (\<lambda>questions.
     bindE (col_str b ''answer'') (\<lambda>answers.
     Inr (map (\<lambda>i. \<lparr>gsm8k_question = questions ! i, gsm8k_answer = answers ! i\<rparr>) [0..<num_rows b])))"

definition parse_ifeval :: "dataset_env \<Rightarrow> batch \<Rightarrow> ifeval_row list res" where
  "parse_ifeval X b =
     bindE (column ''ifeval: missing Int64 column `key`'' (i64_col b ''key'')) (\<lambda>keys.
     bindE (col_str b ''prompt'') (\<lambda>prompts.
     bindE (col_str b ''instructions'') (\<lambda>instrs.
     collectE (\<lambda>i. bindE (map_err (\<lambda>e. internal (''ifeval row '' @ decimal i @ '': bad instructions json: '' @ e))
         (parse_instructions X (instrs ! i))) (\<lambda>parsed.
       Inr \<lparr>ifeval_key = keys ! i, ifeval_prompt = prompts ! i, ifeval_instructions = parsed\<rparr>)) [0..<num_rows b])))"

definition parse_batches :: "dataset_env \<Rightarrow> (batch \<Rightarrow> 'r list res) \<Rightarrow> bytes \<Rightarrow> 'r list res" where
  "parse_batches X f b = bindE (map_err internal (read_batches X b)) (\<lambda>batches.
     bindE (collectE f batches) (\<lambda>rows. Inr (concat rows)))"

fun fixture_of :: "suite \<Rightarrow> string \<times> string" where
  "fixture_of Mmlu = (''mmlu_10.parquet'', ''1ca8bbda8a66fe1592ec3f2978a0e8a7d7437e7e2be71c486b4cdc80b869bb7a'')"
| "fixture_of Ifeval = (''ifeval_10.parquet'', ''d7eb173c556005ce979248315c0746e1110de4d4946594f40dc73088c395f669'')"
| "fixture_of Gsm8k = (''gsm8k_10.parquet'', ''3abe754c7cf22ed2911fc7bc2bebf2818bd66a91e2a91fd7a6e9b548ec26d29a'')"

definition online_requested :: "dataset_env \<Rightarrow> string \<Rightarrow> bool" where
  "online_requested X var = (case env_var X var of None \<Rightarrow> False | Some v \<Rightarrow> v = ''0'' \<or> eq_ignore_ascii_case v ''false'')"

definition is_offline :: "dataset_env \<Rightarrow> bool" where
  "is_offline X \<longleftrightarrow> \<not> online_requested X ''HF_OFFLINE'' \<and> \<not> online_requested X ''HF_HUB_OFFLINE''"

definition load :: "dataset_env \<Rightarrow> suite \<Rightarrow> dataset res" where
  "load X su =
     (if \<not> is_offline X
      then Inl (internal (''online dataset download for '' @ suite_name su
        @ '' requires HF network + ObjectStore cache (07-05); unset HF_OFFLINE=0 (offline is the default) to use the vendored fixture''))
      else case fixture_of su of (file, expected) \<Rightarrow>
        bindE (map_err (\<lambda>e. internal (''read fixture '' @ e)) (read_fixture X file)) (\<lambda>b.
        let got = content_id_to_string (content_id_of (data_hash X) b) in
        if got \<noteq> expected
        then Inl (internal (''fixture '' @ file @ '' blake3 drift: expected '' @ expected @ '', got '' @ got))
        else (case su of
            Mmlu \<Rightarrow> bindE (parse_batches X parse_mmlu b) (\<lambda>rows. Inr (MmluRows rows))
          | Ifeval \<Rightarrow> bindE (parse_batches X (parse_ifeval X) b) (\<lambda>rows. Inr (IfevalRows rows))
          | Gsm8k \<Rightarrow> bindE (parse_batches X parse_gsm8k b) (\<lambda>rows. Inr (Gsm8kRows rows)))))"

section \<open>An example as a job\<close>

record 'f eval_env =
  libs :: "'f eval_libs"
  work_codec :: "work_item_record codec"
  result_codec :: "'f example_result codec"
  workid_codec :: "(string \<times> string \<times> u64 \<times> string) codec"
  report_codec :: "'f eval_report codec"
  row_codec :: "'f eval_report_record codec"
  env_hash :: blake3
  mock :: mock_eval_backend

definition example_work_id :: "'f eval_env \<Rightarrow> suite \<Rightarrow> string \<Rightarrow> u64 \<Rightarrow> string \<Rightarrow> content_id res" where
  "example_work_id E su version idx model_id =
     bindE (map_err (\<lambda>e. internal (''postcard work id: '' @ e)) (encode (workid_codec E) (suite_name su, version, idx, model_id)))
       (\<lambda>b. Inr (content_id_of (env_hash E) b))"

definition job_encode :: "'a codec \<Rightarrow> 'a \<Rightarrow> bytes res" where
  "job_encode C x = map_err (\<lambda>e. internal (''postcard encode: '' @ e)) (encode C x)"

text \<open>The read at the start: the stored result of a finished item, or nothing after a new row was seeded.\<close>

definition seed_or_done :: "('s, 't) storage_ops \<Rightarrow> 'f eval_env \<Rightarrow> run_id \<Rightarrow> content_id \<Rightarrow> ('s, content_id option) io" where
  "seed_or_done S E run wid =
     bindS (readS (get_bytes S (work_key run wid))) (\<lambda>b. case b of
       Some row \<Rightarrow>
         bindS (liftE (map_err (\<lambda>e. internal (''postcard decode: '' @ e)) (decode (work_codec E) row))) (\<lambda>rec.
         returnS (case work_st rec of Done result \<Rightarrow> Some result | _ \<Rightarrow> None))
     | None \<Rightarrow>
         bindS (in_txn S (bindS (liftE (job_encode (work_codec E) \<lparr>work_id = wid, work_st = Pending\<rparr>)) (\<lambda>row.
           put_bytes S (work_key run wid) row))) (\<lambda>_.
         returnS None))"

definition run_example_job :: "('s, 't) storage_ops \<Rightarrow> 'o object_ops \<Rightarrow> 'f eval_env \<Rightarrow> run_id \<Rightarrow> worker_id \<Rightarrow> content_id
    \<Rightarrow> 'f example_result \<Rightarrow> u128 \<Rightarrow> ('s \<times> 'o, content_id) io" where
  "run_example_job S B E run worker wid result at_ms =
     bindS (on_store (seed_or_done S E run wid)) (\<lambda>finished. case finished of
       Some rid \<Rightarrow> returnS rid
     | None \<Rightarrow>
         bindS (on_store (commit_if S (try_claim S (work_codec E) run \<lparr>work_id = wid, work_st = Pending\<rparr> worker at_ms))) (\<lambda>_.
         bindS (liftE (job_encode (result_codec E) result)) (\<lambda>blob.
         bindS (on_sink (put_blob B blob put_hint_default)) (\<lambda>rid.
         bindS (on_store (commit_if S (try_complete S (work_codec E) run
           \<lparr>work_id = wid, work_st = Running worker at_ms\<rparr> rid))) (\<lambda>_.
         returnS rid)))))"

section \<open>A run of a suite\<close>

definition record_score :: "('s, 't) storage_ops \<Rightarrow> 'o object_ops \<Rightarrow> 'f eval_env \<Rightarrow> suite \<Rightarrow> nat \<Rightarrow> 'f \<Rightarrow> eval_context
    \<Rightarrow> run_id \<Rightarrow> worker_id \<Rightarrow> string \<Rightarrow> ('s \<times> 'o, unit) io" where
  "record_score S B E su idx score ctx run worker model_id =
     bindS (liftE (example_work_id E su LM_EVAL_VERSION (of_nat idx) model_id)) (\<lambda>wid.
     bindS (run_example_job S B E run worker wid \<lparr>ex_idx = of_nat idx, ex_score = score\<rparr>
       (ucast (of_nat idx :: u64) + ucast (ctx_seed ctx))) (\<lambda>_.
     returnS ()))"

definition bit_score :: "'f f64 \<Rightarrow> bool \<Rightarrow> 'f" where
  "bit_score F b = f_of_nat F (if b then 1 else 0)"

definition task_of :: "nat \<Rightarrow> 'f \<Rightarrow> 'f task_result" where
  "task_of idx score = \<lparr>task_id = decimal idx, task_score = score\<rparr>"

fun mmlu_loop :: "('s, 't) storage_ops \<Rightarrow> 'o object_ops \<Rightarrow> 'f eval_env \<Rightarrow> eval_context \<Rightarrow> run_id \<Rightarrow> worker_id \<Rightarrow> string
    \<Rightarrow> nat \<Rightarrow> mmlu_row list \<Rightarrow> 'f \<Rightarrow> 'f \<Rightarrow> 'f task_result list \<Rightarrow> ('s \<times> 'o, 'f \<times> 'f \<times> 'f task_result list) io" where
  "mmlu_loop S B E ctx run worker model_id idx [] acc_sum norm_sum per_task = returnS (acc_sum, norm_sum, per_task)"
| "mmlu_loop S B E ctx run worker model_id idx (row # rows) acc_sum norm_sum per_task =
     (let F = fl (libs E) in
      bindS (liftE (choice_logprobs F (mock E) (mmlu_format_prompt row) (mmlu_choices row) (ctx_seed ctx))) (\<lambda>(lp, lens).
      let s = mmlu_score_item F lp lens (mmlu_answer row); item = bit_score F (sc_acc s) in
      bindS (record_score S B E Mmlu idx item ctx run worker model_id) (\<lambda>_.
      mmlu_loop S B E ctx run worker model_id (Suc idx) rows (f_add F acc_sum item)
        (f_add F norm_sum (bit_score F (sc_acc_norm s))) (per_task @ [task_of idx item]))))"

text \<open>\<open>mean_denom\<close>: the count, at least one and at most \<open>u32::MAX\<close>.\<close>

definition mean_denom :: "'f f64 \<Rightarrow> nat \<Rightarrow> 'f" where
  "mean_denom F n = f_of_nat F (if max n 1 < 2 ^ 32 then max n 1 else 2 ^ 32 - 1)"

definition run_mmlu :: "('s, 't) storage_ops \<Rightarrow> 'o object_ops \<Rightarrow> 'f eval_env \<Rightarrow> eval_context \<Rightarrow> run_id \<Rightarrow> worker_id \<Rightarrow> string
    \<Rightarrow> mmlu_row list \<Rightarrow> ('s \<times> 'o, (string \<rightharpoonup> 'f metric_value) \<times> 'f task_result list) io" where
  "run_mmlu S B E ctx run worker model_id rows =
     (let F = fl (libs E) in
      bindS (mmlu_loop S B E ctx run worker model_id 0 rows (f_of_nat F 0) (f_of_nat F 0) []) (\<lambda>(acc_sum, norm_sum, per_task).
      let n = mean_denom F (length rows) in
      returnS ([''acc'' \<mapsto> Scalar (f_div F acc_sum n), ''acc_norm'' \<mapsto> Scalar (f_div F norm_sum n)], per_task)))"

fun gsm8k_loop :: "('s, 't) storage_ops \<Rightarrow> 'o object_ops \<Rightarrow> 'f eval_env \<Rightarrow> eval_context \<Rightarrow> run_id \<Rightarrow> worker_id \<Rightarrow> string
    \<Rightarrow> nat \<Rightarrow> gsm8k_row list \<Rightarrow> 'f \<Rightarrow> 'f task_result list \<Rightarrow> ('s \<times> 'o, 'f \<times> 'f task_result list) io" where
  "gsm8k_loop S B E ctx run worker model_id idx [] acc per_task = returnS (acc, per_task)"
| "gsm8k_loop S B E ctx run worker model_id idx (row # rows) acc per_task =
     (let F = fl (libs E);
          item = bit_score F (gsm8k_score_item (libs E) (gsm8k_answer row) (mock_generate (mock E) (gsm8k_question row) (ctx_seed ctx))) in
      bindS (record_score S B E Gsm8k idx item ctx run worker model_id) (\<lambda>_.
      gsm8k_loop S B E ctx run worker model_id (Suc idx) rows (f_add F acc item) (per_task @ [task_of idx item])))"

definition run_gsm8k :: "('s, 't) storage_ops \<Rightarrow> 'o object_ops \<Rightarrow> 'f eval_env \<Rightarrow> eval_context \<Rightarrow> run_id \<Rightarrow> worker_id \<Rightarrow> string
    \<Rightarrow> gsm8k_row list \<Rightarrow> ('s \<times> 'o, (string \<rightharpoonup> 'f metric_value) \<times> 'f task_result list) io" where
  "run_gsm8k S B E ctx run worker model_id rows =
     (let F = fl (libs E) in
      bindS (gsm8k_loop S B E ctx run worker model_id 0 rows (f_of_nat F 0) []) (\<lambda>(acc, per_task).
      returnS ([''acc'' \<mapsto> Scalar (f_div F acc (mean_denom F (length rows)))], per_task)))"

fun ifeval_loop :: "('s, 't) storage_ops \<Rightarrow> 'o object_ops \<Rightarrow> 'f eval_env \<Rightarrow> eval_context \<Rightarrow> run_id \<Rightarrow> worker_id \<Rightarrow> string
    \<Rightarrow> nat \<Rightarrow> (ifeval_row \<times> string) list \<Rightarrow> 'f task_result list \<Rightarrow> ('s \<times> 'o, 'f task_result list) io" where
  "ifeval_loop S B E ctx run worker model_id idx [] per_task = returnS per_task"
| "ifeval_loop S B E ctx run worker model_id idx ((row, resp) # prs) per_task =
     (let F = fl (libs E) in
      case score_prompt (libs E) row resp of (_, tot, _, pass) \<Rightarrow>
      let item = bit_score F (pass = Some True) in
      bindS (record_score S B E Ifeval idx item ctx run worker model_id) (\<lambda>_.
      ifeval_loop S B E ctx run worker model_id (Suc idx) prs
        (per_task @ [task_of idx (if tot = 0 then f_neg F (f_of_nat F 1) else item)])))"

definition run_ifeval :: "('s, 't) storage_ops \<Rightarrow> 'o object_ops \<Rightarrow> 'f eval_env \<Rightarrow> eval_context \<Rightarrow> run_id \<Rightarrow> worker_id \<Rightarrow> string
    \<Rightarrow> ifeval_row list \<Rightarrow> ('s \<times> 'o, (string \<rightharpoonup> 'f metric_value) \<times> 'f task_result list) io" where
  "run_ifeval S B E ctx run worker model_id rows =
     (let responses = map (\<lambda>r. mock_generate (mock E) (ifeval_prompt r) (ctx_seed ctx)) rows;
          score = score_batch (libs E) rows responses in
      bindS (ifeval_loop S B E ctx run worker model_id 0 (zip rows responses) []) (\<lambda>per_task.
      returnS ([''inst_strict_acc'' \<mapsto> Scalar (instruction_strict_acc score),
                ''prompt_strict_acc'' \<mapsto> Scalar (prompt_strict_acc score)], per_task)))"

definition eval_report_key :: "run_id \<Rightarrow> content_id \<Rightarrow> storage_key" where
  "eval_report_key run report_id =
     \<lparr>namespace = ''eval_reports'', key_run = Some run, path = [''report'', content_id_to_string report_id]\<rparr>"

definition eval_report_prefix :: "run_id \<Rightarrow> key_range" where
  "eval_report_prefix run =
     \<lparr>range_prefix = \<lparr>namespace = ''eval_reports'', key_run = Some run, path = [''report'']\<rparr>, range_limit = None\<rparr>"

definition run_dataset :: "('s, 't) storage_ops \<Rightarrow> 'o object_ops \<Rightarrow> 'f eval_env \<Rightarrow> suite \<Rightarrow> dataset \<Rightarrow> eval_context \<Rightarrow> run_id
    \<Rightarrow> worker_id \<Rightarrow> string \<Rightarrow> ('s \<times> 'o, (string \<rightharpoonup> 'f metric_value) \<times> 'f task_result list) io" where
  "run_dataset S B E su data ctx run worker model_id = (case (su, data) of
       (Mmlu, MmluRows rows) \<Rightarrow> run_mmlu S B E ctx run worker model_id rows
     | (Gsm8k, Gsm8kRows rows) \<Rightarrow> run_gsm8k S B E ctx run worker model_id rows
     | (Ifeval, IfevalRows rows) \<Rightarrow> run_ifeval S B E ctx run worker model_id rows
     | _ \<Rightarrow> failS (internal ''suite/dataset mismatch''))"

text \<open>\<open>run\<close> and \<open>worker\<close> are the fresh identifiers, \<open>t0\<close> and \<open>t1\<close> the two readings of the clock.\<close>

definition eval_run :: "('s, 't) storage_ops \<Rightarrow> 'o object_ops \<Rightarrow> 'f eval_env \<Rightarrow> dataset_env \<Rightarrow> suite \<Rightarrow> systime \<Rightarrow> systime
    \<Rightarrow> run_id \<Rightarrow> worker_id \<Rightarrow> model_ref \<Rightarrow> eval_context \<Rightarrow> ('s \<times> 'o, 'f eval_report) io" where
  "eval_run S B E X su t0 t1 run worker model ctx =
     bindS (liftE (load X su)) (\<lambda>data.
     bindS (run_dataset S B E su data ctx run worker (model_uri model)) (\<lambda>(metrics, per_task).
     let report = \<lparr>eval_name = suite_name su, eval_version = LM_EVAL_VERSION, rep_model = model, rep_started = t0,
           rep_completed = t1, rep_metrics = metrics, rep_per_task = per_task\<rparr> in
     bindS (liftE (map_err (\<lambda>e. internal (''postcard EvalReport: '' @ e)) (encode (report_codec E) report))) (\<lambda>blob.
     bindS (on_sink (put_blob B blob put_hint_default)) (\<lambda>report_id.
     bindS (on_store (in_txn S (bindS (liftE (map_err (\<lambda>e. internal (''postcard EvalReportRecord encode: '' @ e))
         (encode (row_codec E) \<lparr>err_id = report_id, err_report = report\<rparr>))) (\<lambda>row.
       put_bytes S (eval_report_key run report_id) row)))) (\<lambda>_.
     returnS report)))))"

section \<open>The checkpoint argument\<close>

text \<open>
  \<open>store\<close> is absent when there is no database file at the storage path; \<open>quoted\<close> is the debug form of a
  string.
\<close>

definition resolve_checkpoint :: "(string \<Rightarrow> string) \<Rightarrow> ('s, 't) storage_ops \<Rightarrow> snapshot codec \<Rightarrow> 's option \<Rightarrow> string \<Rightarrow> model_ref res" where
  "resolve_checkpoint quoted S J store checkpoint =
     (case content_id_from_str checkpoint of
        Inl (Panic p) \<Rightarrow> Inl (Panic p)
      | Inl (Err e) \<Rightarrow> Inl (config_invalid (''invalid --checkpoint '' @ quoted checkpoint @ '': '' @ e))
      | Inr target \<Rightarrow>
          bindE (case store of None \<Rightarrow> Inr None | Some s \<Rightarrow> read_meta S J (SnapshotId target) s) (\<lambda>found. case found of
            Some snap \<Rightarrow>
              (case find (\<lambda>p. part_role p = ''tar'') (parts snap) of
                 Some w \<Rightarrow> Inr \<lparr>model_uri = ''snapshot:'' @ (case snap_id snap of SnapshotId c \<Rightarrow> content_id_to_string c),
                             model_content = Some (part_content w), model_tokenizer = None\<rparr>
               | None \<Rightarrow> (case parts snap of
                   [] \<Rightarrow> Inl (config_invalid ''snapshot has no parts'')
                 | w # _ \<Rightarrow> Inr \<lparr>model_uri = ''snapshot:'' @ (case snap_id snap of SnapshotId c \<Rightarrow> content_id_to_string c),
                             model_content = Some (part_content w), model_tokenizer = None\<rparr>))
          | None \<Rightarrow> Inr \<lparr>model_uri = ''checkpoint:'' @ checkpoint, model_content = Some target, model_tokenizer = None\<rparr>))"

section \<open>What a job does to its work item\<close>

context storage
begin

text \<open>A compare-and-swap in a transaction of its own, when nothing fails, wins exactly on the bytes it expects.\<close>

lemma commit_cas_exact:
  assumes "inv s" "okk (work_key run (work_id rec))" "commit_if S (cas_record S W run rec st) s = (Inr won, s')"
  obtains old new where "encode W rec = Inr old" "encode W (rec\<lparr>work_st := st\<rparr>) = Inr new" "inv s'"
    "won = (view s (work_key run (work_id rec)) = Some old)"
    "view s' = (if won then (view s)(work_key run (work_id rec) \<mapsto> new) else view s)"
proof -
  obtain t t1 old new where run: "begin_txn S s = Inr t" "encode W rec = Inr old" "encode W (rec\<lparr>work_st := st\<rparr>) = Inr new"
      "cas_bytes S (work_key run (work_id rec)) (Some old) (Some new) t = (Inr won, t1)"
      "won \<longrightarrow> commit_txn S t1 s = (Inr (), s')" "\<not> won \<longrightarrow> abort_txn S t1 s = (Inr (), s')"
    using assms(3) by (auto simp: commit_if_def cas_record_def encode_record_def comp_iff split: if_splits)
  have t: "tinv t" "tview t = view s" using begin_law [OF assms(1) run(1)] by auto
  note cas = cas_law [OF t(1) assms(2) run(4)]
  have "inv s' \<and> view s' = (if won then (view s)(work_key run (work_id rec) \<mapsto> new) else view s)"
    using cas run(5,6) t(2) commit_Inr [OF assms(1)] abort_law [OF assms(1)] by (cases won) auto
  with that [OF run(2,3)] cas t(2) show thesis by auto
qed

lemma seed_law:
  assumes "inv s" "okk (work_key run wid)" "view s (work_key run wid) = None"
    and "seed_or_done S E run wid s = (Inr finished, s')"
  shows "finished = None \<and> inv s' \<and> (\<exists>row. encode (work_codec E) \<lparr>work_id = wid, work_st = Pending\<rparr> = Inr row
    \<and> view s' = (view s)(work_key run wid \<mapsto> row))"
proof -
  obtain b where b: "get_bytes S (work_key run wid) s = Inr b"
    using assms(4) by (auto simp: seed_or_done_def comp_iff)
  with get_law [OF assms(1,2)] assms(3) have "b = None" by simp
  with b assms(4) obtain row where row: "encode (work_codec E) \<lparr>work_id = wid, work_st = Pending\<rparr> = Inr row"
    and tx: "in_txn S (put_bytes S (work_key run wid) row) s = (Inr (), s')" and "finished = None"
    by (auto simp: seed_or_done_def in_txn_def job_encode_def comp_iff)
  with put_txn_outcomes [OF assms(1,2) tx] show ?thesis by auto
qed

end

lemma try_claim_cas: "try_claim S W run \<lparr>work_id = wid, work_st = Pending\<rparr> w n = cas_record S W run \<lparr>work_id = wid, work_st = Pending\<rparr> (Running w n)"
  by (simp add: try_claim_def is_pending_def)

lemma try_complete_cas:
  "try_complete S W run \<lparr>work_id = wid, work_st = Running w n\<rparr> r = cas_record S W run \<lparr>work_id = wid, work_st = Running w n\<rparr> (Done r)"
  by (simp add: try_complete_def is_running_def)

context meta_and_blobs
begin

text \<open>The three steps after the read, when none fails.\<close>

lemma job_steps:
  assumes "inv s" "oinv objs" "okk (work_key run wid)"
    and "seed_or_done S E run wid s = (Inr None, s0)" "inv s0"
    and "run_example_job S B E run worker wid result ms (s, objs) = (Inr rid, (s', objs'))"
  obtains blob p r d where
    "encode (result_codec E) result = Inr blob" "rid = content_id_of H blob" "oinv objs'" "inv s'"
    "\<forall>i. blobs objs i \<noteq> None \<longrightarrow> blobs objs' i = blobs objs i" "blobs objs' rid \<noteq> None"
    "encode (work_codec E) \<lparr>work_id = wid, work_st = Pending\<rparr> = Inr p"
    "encode (work_codec E) \<lparr>work_id = wid, work_st = Running worker ms\<rparr> = Inr r"
    "encode (work_codec E) \<lparr>work_id = wid, work_st = Done rid\<rparr> = Inr d"
    "view s' = (if view s0 (work_key run wid) = Some p \<or> view s0 (work_key run wid) = Some r
        then (view s0)(work_key run wid \<mapsto> d) else view s0)"
proof -
  obtain c1 c2 s1 blob where
    c1: "commit_if S (cas_record S (work_codec E) run \<lparr>work_id = wid, work_st = Pending\<rparr> (Running worker ms)) s0 = (Inr c1, s1)"
    and blob: "encode (result_codec E) result = Inr blob" "put_blob B blob put_hint_default objs = (Inr rid, objs')"
    and c2: "commit_if S (cas_record S (work_codec E) run \<lparr>work_id = wid, work_st = Running worker ms\<rparr> (Done rid)) s1 = (Inr c2, s')"
    using assms(4,6)
    by (auto simp: run_example_job_def try_claim_cas try_complete_cas job_encode_def comp_iff on_store_eq on_sink_eq)
  have okk: "okk (work_key run (work_id \<lparr>work_id = wid, work_st = st\<rparr>))" for st using assms(3) by simp
  obtain p r where p: "encode (work_codec E) \<lparr>work_id = wid, work_st = Pending\<rparr> = Inr p"
      "encode (work_codec E) \<lparr>work_id = wid, work_st = Running worker ms\<rparr> = Inr r" "inv s1"
      "view s1 = (if view s0 (work_key run wid) = Some p then (view s0)(work_key run wid \<mapsto> r) else view s0)"
    by (rule commit_cas_exact [OF assms(5) okk c1]) (auto split: if_splits)
  obtain d where d: "encode (work_codec E) \<lparr>work_id = wid, work_st = Done rid\<rparr> = Inr d" "inv s'"
      "view s' = (if view s1 (work_key run wid) = Some r then (view s1)(work_key run wid \<mapsto> d) else view s1)"
    by (rule commit_cas_exact [OF p(3) okk c2]) (use p(2) in \<open>auto split: if_splits\<close>)
  have "view s' = (if view s0 (work_key run wid) = Some p \<or> view s0 (work_key run wid) = Some r
        then (view s0)(work_key run wid \<mapsto> d) else view s0)"
    using p(4) d(3) by (auto split: if_splits)
  with that [OF blob(1)] put_blob_law [OF assms(2) blob(2)] p(1,2) d(1,2) show thesis by blast
qed

lemma job_fresh:
  assumes "inv s" "oinv objs" "okk (work_key run wid)" "view s (work_key run wid) = None"
    and "run_example_job S B E run worker wid result ms (s, objs) = (Inr rid, (s', objs'))"
  shows "inv s' \<and> oinv objs' \<and> (\<exists>blob d. encode (result_codec E) result = Inr blob \<and> rid = content_id_of H blob
    \<and> encode (work_codec E) \<lparr>work_id = wid, work_st = Done rid\<rparr> = Inr d \<and> view s' = (view s)(work_key run wid \<mapsto> d))
    \<and> (\<forall>i. blobs objs i \<noteq> None \<longrightarrow> blobs objs' i = blobs objs i) \<and> blobs objs' rid \<noteq> None"
proof -
  obtain finished s0 where seed: "seed_or_done S E run wid s = (Inr finished, s0)"
    using assms(5) by (auto simp: run_example_job_def comp_iff on_store_eq)
  from seed_law [OF assms(1,3,4) seed] obtain row where s0: "finished = None" "inv s0"
      "encode (work_codec E) \<lparr>work_id = wid, work_st = Pending\<rparr> = Inr row" "view s0 = (view s)(work_key run wid \<mapsto> row)"
    by blast
  from seed s0(1) have "seed_or_done S E run wid s = (Inr None, s0)" by simp
  then obtain blob p r d where
    "encode (result_codec E) result = Inr blob" "rid = content_id_of H blob" "oinv objs'" "inv s'"
    "\<forall>i. blobs objs i \<noteq> None \<longrightarrow> blobs objs' i = blobs objs i" "blobs objs' rid \<noteq> None"
    "encode (work_codec E) \<lparr>work_id = wid, work_st = Pending\<rparr> = Inr p"
    "encode (work_codec E) \<lparr>work_id = wid, work_st = Running worker ms\<rparr> = Inr r"
    "encode (work_codec E) \<lparr>work_id = wid, work_st = Done rid\<rparr> = Inr d"
    "view s' = (if view s0 (work_key run wid) = Some p \<or> view s0 (work_key run wid) = Some r
        then (view s0)(work_key run wid \<mapsto> d) else view s0)"
    by (rule job_steps [OF assms(1-3) _ s0(2) assms(5)])
  with s0(3,4) show ?thesis by simp
qed

text \<open>A finished item answers with its result, whatever the call came with, and nothing changes.\<close>

lemma job_done:
  assumes "inv s" "okk (work_key run wid)" "view s (work_key run wid) = Some row"
    and "decode (work_codec E) row = Inr \<lparr>work_id = wid, work_st = Done rid0\<rparr>"
    and "run_example_job S B E run worker wid result ms (s, objs) = (r, (s', objs'))"
  shows "s' = s \<and> objs' = objs \<and> (r = Inr rid0 \<or> (\<exists>e. r = Inl e))"
proof (cases "get_bytes S (work_key run wid) s")
  case (Inl e)
  with assms(5) show ?thesis by (auto simp: run_example_job_def seed_or_done_def bindS_def readS_def on_store_def)
next
  case (Inr g)
  with get_law [OF assms(1,2)] assms(3) have "g = Some row" by simp
  with Inr assms(4,5) show ?thesis
    by (auto simp: run_example_job_def seed_or_done_def bindS_def readS_def on_store_def liftE_def returnS_def)
qed

text \<open>
  An item that another worker, or an earlier start, left running: the call answers \<open>Ok\<close> with the id of its
  result, and the item stays as it is.
\<close>

lemma job_stuck:
  assumes "inv s" "oinv objs" "okk (work_key run wid)" "codec_ok (work_codec E)"
    and "view s (work_key run wid) = Some row"
    and "decode (work_codec E) row = Inr \<lparr>work_id = wid, work_st = Running w0 t0\<rparr>" "(w0, t0) \<noteq> (worker, ms)"
    and "run_example_job S B E run worker wid result ms (s, objs) = (Inr rid, (s', objs'))"
  shows "view s' = view s"
proof -
  obtain finished s0 where seed: "seed_or_done S E run wid s = (Inr finished, s0)"
    using assms(8) by (auto simp: run_example_job_def comp_iff on_store_eq)
  obtain g where g: "get_bytes S (work_key run wid) s = Inr g"
    using seed by (auto simp: seed_or_done_def comp_iff)
  with get_law [OF assms(1,3)] assms(5) have "g = Some row" by simp
  with g seed assms(6) have s0: "finished = None" "s0 = s" by (auto simp: seed_or_done_def comp_iff)
  with seed have "seed_or_done S E run wid s = (Inr None, s)" by simp
  then obtain p r d where enc: "encode (work_codec E) \<lparr>work_id = wid, work_st = Pending\<rparr> = Inr p"
      "encode (work_codec E) \<lparr>work_id = wid, work_st = Running worker ms\<rparr> = Inr r"
    and v: "view s' = (if view s (work_key run wid) = Some p \<or> view s (work_key run wid) = Some r
        then (view s)(work_key run wid \<mapsto> d) else view s)"
    by (rule job_steps [OF assms(1-3) _ assms(1,8)])
  from codec_okD [OF assms(4) enc(1)] codec_okD [OF assms(4) enc(2)] assms(6,7) have "row \<noteq> p" "row \<noteq> r" by auto
  with v assms(5) show ?thesis by simp
qed

end

section \<open>The loops record their scores\<close>

text \<open>The effect all three loops share: one job per example, in order.\<close>

fun record_all :: "('s, 't) storage_ops \<Rightarrow> 'o object_ops \<Rightarrow> 'f eval_env \<Rightarrow> suite \<Rightarrow> eval_context \<Rightarrow> run_id \<Rightarrow> worker_id \<Rightarrow> string
    \<Rightarrow> nat \<Rightarrow> 'f list \<Rightarrow> ('s \<times> 'o, unit) io" where
  "record_all S B E su ctx run worker model_id idx [] = returnS ()"
| "record_all S B E su ctx run worker model_id idx (x # xs) =
     bindS (record_score S B E su idx x ctx run worker model_id) (\<lambda>_. record_all S B E su ctx run worker model_id (Suc idx) xs)"

definition numbered :: "nat \<Rightarrow> 'f list \<Rightarrow> 'f task_result list" where
  "numbered idx xs = map (\<lambda>(i, x). task_of i x) (zip [idx..<idx + length xs] xs)"

lemma numbered_simps [simp]: "numbered idx [] = []" "numbered idx (x # xs) = task_of idx x # numbered (Suc idx) xs"
  by (simp_all add: numbered_def upt_conv_Cons del: upt_Suc)

text \<open>What each suite scores, as a function of the row.\<close>

definition gsm8k_correct :: "'f eval_env \<Rightarrow> eval_context \<Rightarrow> gsm8k_row \<Rightarrow> bool" where
  "gsm8k_correct E ctx row =
     gsm8k_score_item (libs E) (gsm8k_answer row) (mock_generate (mock E) (gsm8k_question row) (ctx_seed ctx))"

definition mmlu_judged :: "'f eval_env \<Rightarrow> eval_context \<Rightarrow> mmlu_row \<Rightarrow> mmlu_item_score" where
  "mmlu_judged E ctx row =
     (case choice_logprobs (fl (libs E)) (mock E) (mmlu_format_prompt row) (mmlu_choices row) (ctx_seed ctx) of
        Inr (lp, lens) \<Rightarrow> mmlu_score_item (fl (libs E)) lp lens (mmlu_answer row)
      | Inl _ \<Rightarrow> \<lparr>sc_acc = False, sc_acc_norm = False\<rparr>)"

definition ifeval_pass :: "'f eval_env \<Rightarrow> ifeval_row \<times> string \<Rightarrow> bool" where
  "ifeval_pass E x = (case x of (row, resp) \<Rightarrow> scored row \<noteq> [] \<and> list_all (satisfies (libs E) resp) (scored row))"

lemma gsm8k_loop_records:
  "gsm8k_loop S B E ctx run worker model_id idx rows acc per_task st = (Inr (acc', tasks), st') \<Longrightarrow>
     let items = map (\<lambda>row. bit_score (fl (libs E)) (gsm8k_correct E ctx row)) rows in
     record_all S B E Gsm8k ctx run worker model_id idx items st = (Inr (), st')
     \<and> acc' = foldl (f_add (fl (libs E))) acc items \<and> tasks = per_task @ numbered idx items"
proof (induction rows arbitrary: idx acc per_task st)
  case (Cons row rows)
  let ?item = "bit_score (fl (libs E)) (gsm8k_correct E ctx row)"
  from Cons.prems obtain st1 where "record_score S B E Gsm8k idx ?item ctx run worker model_id st = (Inr (), st1)"
    and "gsm8k_loop S B E ctx run worker model_id (Suc idx) rows (f_add (fl (libs E)) acc ?item) (per_task @ [task_of idx ?item]) st1
      = (Inr (acc', tasks), st')"
    by (auto simp: Let_def comp_iff gsm8k_correct_def)
  with Cons.IH [OF this(2)] show ?case by (simp add: Let_def bindS_def)
qed simp

lemma mmlu_loop_records:
  "mmlu_loop S B E ctx run worker model_id idx rows acc nsum per_task st = (Inr (acc', nsum', tasks), st') \<Longrightarrow>
     let items = map (\<lambda>row. bit_score (fl (libs E)) (sc_acc (mmlu_judged E ctx row))) rows in
     record_all S B E Mmlu ctx run worker model_id idx items st = (Inr (), st')
     \<and> acc' = foldl (f_add (fl (libs E))) acc items
     \<and> nsum' = foldl (f_add (fl (libs E))) nsum (map (\<lambda>row. bit_score (fl (libs E)) (sc_acc_norm (mmlu_judged E ctx row))) rows)
     \<and> tasks = per_task @ numbered idx items"
proof (induction rows arbitrary: idx acc nsum per_task st)
  case (Cons row rows)
  let ?F = "fl (libs E)" let ?j = "mmlu_judged E ctx row"
  from Cons.prems obtain st1 where "record_score S B E Mmlu idx (bit_score ?F (sc_acc ?j)) ctx run worker model_id st = (Inr (), st1)"
    and "mmlu_loop S B E ctx run worker model_id (Suc idx) rows (f_add ?F acc (bit_score ?F (sc_acc ?j)))
        (f_add ?F nsum (bit_score ?F (sc_acc_norm ?j))) (per_task @ [task_of idx (bit_score ?F (sc_acc ?j))]) st1
      = (Inr (acc', nsum', tasks), st')"
    by (auto simp: Let_def comp_iff mmlu_judged_def)
  with Cons.IH [OF this(2)] show ?case by (simp add: Let_def bindS_def)
qed simp

lemma ifeval_loop_records:
  "ifeval_loop S B E ctx run worker model_id idx prs per_task st = (Inr tasks, st') \<Longrightarrow>
     record_all S B E Ifeval ctx run worker model_id idx (map (\<lambda>x. bit_score (fl (libs E)) (ifeval_pass E x)) prs) st = (Inr (), st')
     \<and> tasks = per_task @ numbered idx (map (\<lambda>(row, resp). if scored row = [] then f_neg (fl (libs E)) (f_of_nat (fl (libs E)) 1)
          else bit_score (fl (libs E)) (ifeval_pass E (row, resp))) prs)"
proof (induction prs arbitrary: idx per_task st)
  case (Cons x prs)
  obtain row resp where x: "x = (row, resp)" by fastforce
  let ?F = "fl (libs E)"
  let ?task = "task_of idx (if scored row = [] then f_neg ?F (f_of_nat ?F 1) else bit_score ?F (ifeval_pass E x))"
  have pass: "((if scored row = [] then None else Some (list_all (satisfies (libs E) resp) (scored row))) = Some True)
      = ifeval_pass E x"
    by (simp add: x ifeval_pass_def)
  from Cons.prems x obtain st1 where "record_score S B E Ifeval idx (bit_score ?F (ifeval_pass E x)) ctx run worker model_id st = (Inr (), st1)"
    and "ifeval_loop S B E ctx run worker model_id (Suc idx) prs (per_task @ [?task]) st1 = (Inr tasks, st')"
    by (auto simp: Let_def comp_iff score_prompt_counts pass split del: if_split cong del: if_weak_cong)
  with Cons.IH [OF this(2)] x show ?case by (simp add: bindS_def)
qed simp

text \<open>Adding up zeros and ones is exact, as long as the count is below \<open>2 ^ 53\<close>.\<close>

definition f64_exact :: "'f f64 \<Rightarrow> bool" where
  "f64_exact F \<longleftrightarrow> (\<forall>a b. a + b < 2 ^ 53 \<longrightarrow> f_add F (f_of_nat F a) (f_of_nat F b) = f_of_nat F (a + b))"

lemma bits_sum:
  "f64_exact F \<Longrightarrow> n + length bs < 2 ^ 53 \<Longrightarrow>
     foldl (f_add F) (f_of_nat F n) (map (bit_score F) bs) = f_of_nat F (n + length (filter (\<lambda>b. b) bs))"
proof (induction bs arbitrary: n)
  case (Cons b bs)
  have "f_add F (f_of_nat F n) (bit_score F b) = f_of_nat F (n + (if b then 1 else 0))"
    using Cons.prems by (simp add: f64_exact_def bit_score_def)
  with Cons.IH [of "n + (if b then 1 else 0)"] Cons.prems show ?case by simp
qed simp

lemma bits_sum_map:
  "f64_exact F \<Longrightarrow> length rows < 2 ^ 53 \<Longrightarrow>
     foldl (f_add F) (f_of_nat F 0) (map (\<lambda>row. bit_score F (P row)) rows) = f_of_nat F (length (filter P rows))"
  using bits_sum [of F 0 "map P rows"] by (simp add: filter_map comp_def)

section \<open>The report and the recorded examples\<close>

text \<open>
  The work item of example \<open>i\<close> is done, and its result blob is stored. \<open>fresh_ids\<close>: the examples of a run
  have distinct work items (no collision of the hash), none of which has a row yet.
\<close>

definition recorded :: "'f eval_env \<Rightarrow> blake3 \<Rightarrow> suite \<Rightarrow> string \<Rightarrow> run_id \<Rightarrow> store_view \<Rightarrow> (content_id \<Rightarrow> bytes option)
    \<Rightarrow> nat \<Rightarrow> 'f \<Rightarrow> bool" where
  "recorded E H su model_id run v bl i x \<longleftrightarrow> (\<exists>w blob d. example_work_id E su LM_EVAL_VERSION (of_nat i) model_id = Inr w
     \<and> encode (result_codec E) \<lparr>ex_idx = of_nat i, ex_score = x\<rparr> = Inr blob
     \<and> encode (work_codec E) \<lparr>work_id = w, work_st = Done (content_id_of H blob)\<rparr> = Inr d
     \<and> v (work_key run w) = Some d \<and> bl (content_id_of H blob) \<noteq> None)"

definition fresh_ids :: "'f eval_env \<Rightarrow> suite \<Rightarrow> string \<Rightarrow> run_id \<Rightarrow> (storage_key \<Rightarrow> bool) \<Rightarrow> store_view \<Rightarrow> nat \<Rightarrow> nat \<Rightarrow> bool" where
  "fresh_ids E su model_id run ok v lo hi \<longleftrightarrow> (\<forall>i w. lo \<le> i \<longrightarrow> i < hi \<longrightarrow>
     example_work_id E su LM_EVAL_VERSION (of_nat i) model_id = Inr w \<longrightarrow> ok (work_key run w) \<and> v (work_key run w) = None
     \<and> (\<forall>j. lo \<le> j \<longrightarrow> j < hi \<longrightarrow> example_work_id E su LM_EVAL_VERSION (of_nat j) model_id = Inr w \<longrightarrow> j = i))"

lemma recorded_mono:
  assumes "recorded E H su model_id run v bl i x" "\<And>w. v' (work_key run w) = v (work_key run w)"
    and "\<forall>c. bl c \<noteq> None \<longrightarrow> bl' c = bl c"
  shows "recorded E H su model_id run v' bl' i x"
  using assms unfolding recorded_def by metis

lemma fresh_ids_step:
  assumes "fresh_ids E su model_id run ok v lo hi" "lo < hi" "example_work_id E su LM_EVAL_VERSION (of_nat lo) model_id = Inr w"
  shows "ok (work_key run w)" "v (work_key run w) = None"
    "fresh_ids E su model_id run ok (v(work_key run w \<mapsto> d)) (Suc lo) hi"
proof -
  show "ok (work_key run w)" "v (work_key run w) = None" using assms unfolding fresh_ids_def by blast+
  have "w' \<noteq> w" if "lo < i" "i < hi" "example_work_id E su LM_EVAL_VERSION (of_nat i) model_id = Inr w'" for i w'
    using that assms unfolding fresh_ids_def by (metis less_le_not_le less_imp_le order_refl)
  then show "fresh_ids E su model_id run ok (v(work_key run w \<mapsto> d)) (Suc lo) hi"
    using assms(1) unfolding fresh_ids_def by (simp add: Suc_le_eq) (meson less_imp_le)
qed

context meta_and_blobs
begin

lemma record_score_law:
  assumes "inv s" "oinv objs" "fresh_ids E su model_id run okk (view s) i hi" "i < hi"
    and "record_score S B E su i x ctx run worker model_id (s, objs) = (Inr (), (s', objs'))"
  obtains w d where "example_work_id E su LM_EVAL_VERSION (of_nat i) model_id = Inr w" "inv s'" "oinv objs'"
    "view s' = (view s)(work_key run w \<mapsto> d)" "recorded E H su model_id run (view s') (blobs objs') i x"
    "fresh_ids E su model_id run okk (view s') (Suc i) hi" "\<forall>i. blobs objs i \<noteq> None \<longrightarrow> blobs objs' i = blobs objs i"
proof -
  from assms(5) obtain w rid ms where w: "example_work_id E su LM_EVAL_VERSION (of_nat i) model_id = Inr w"
    and job: "run_example_job S B E run worker w \<lparr>ex_idx = of_nat i, ex_score = x\<rparr> ms (s, objs) = (Inr rid, (s', objs'))"
    by (auto simp: record_score_def comp_iff)
  note fresh = fresh_ids_step [OF assms(3,4) w]
  from job_fresh [OF assms(1,2) fresh(1,2) job] obtain blob d where
    "inv s'" "oinv objs'" "encode (result_codec E) \<lparr>ex_idx = of_nat i, ex_score = x\<rparr> = Inr blob" "rid = content_id_of H blob"
    "encode (work_codec E) \<lparr>work_id = w, work_st = Done rid\<rparr> = Inr d" "view s' = (view s)(work_key run w \<mapsto> d)"
    "\<forall>i. blobs objs i \<noteq> None \<longrightarrow> blobs objs' i = blobs objs i" "blobs objs' rid \<noteq> None"
    by blast
  with that [OF w] fresh(3) w show thesis by (simp add: recorded_def)
qed

lemma record_all_law:
  assumes "inv s" "oinv objs" "fresh_ids E su model_id run okk (view s) i (i + length xs)"
    and "record_all S B E su ctx run worker model_id i xs (s, objs) = (Inr (), (s', objs'))"
  shows "inv s' \<and> oinv objs' \<and> (\<forall>j < length xs. recorded E H su model_id run (view s') (blobs objs') (i + j) (xs ! j))
    \<and> (\<forall>k. (\<forall>w. k \<noteq> work_key run w) \<longrightarrow> view s' k = view s k)
    \<and> (\<forall>k. (\<forall>j w. i \<le> j \<longrightarrow> j < i + length xs \<longrightarrow> example_work_id E su LM_EVAL_VERSION (of_nat j) model_id = Inr w \<longrightarrow> k \<noteq> work_key run w)
         \<longrightarrow> view s' k = view s k)
    \<and> (\<forall>c. blobs objs c \<noteq> None \<longrightarrow> blobs objs' c = blobs objs c)"
  using assms
proof (induction xs arbitrary: i s objs)
  case Nil
  then show ?case by simp
next
  case (Cons x xs)
  obtain s1 objs1 where one: "record_score S B E su i x ctx run worker model_id (s, objs) = (Inr (), (s1, objs1))"
    and rest: "record_all S B E su ctx run worker model_id (Suc i) xs (s1, objs1) = (Inr (), (s', objs'))"
    using Cons.prems(4) by (auto simp: comp_iff)
  obtain w d where w: "example_work_id E su LM_EVAL_VERSION (of_nat i) model_id = Inr w" "inv s1" "oinv objs1"
    "view s1 = (view s)(work_key run w \<mapsto> d)" "recorded E H su model_id run (view s1) (blobs objs1) i x"
    "fresh_ids E su model_id run okk (view s1) (Suc i) (i + length (x # xs))" "\<forall>i. blobs objs i \<noteq> None \<longrightarrow> blobs objs1 i = blobs objs i"
    by (rule record_score_law [OF Cons.prems(1-3) _ one]) simp
  have "fresh_ids E su model_id run okk (view s1) (Suc i) (Suc i + length xs)" using w(6) by simp
  note IH = Cons.IH [OF w(2,3) this rest]
  have other: "work_key run w \<noteq> work_key run w'" if "Suc i \<le> j" "j < Suc i + length xs"
      "example_work_id E su LM_EVAL_VERSION (of_nat j) model_id = Inr w'" for j w'
    using that w(4,6) unfolding fresh_ids_def by (metis fun_upd_same option.distinct(1) add_Suc_right add_Suc_shift list.size(4) One_nat_def add.right_neutral)
  then have "view s' (work_key run w) = view s1 (work_key run w)" using IH by blast
  then have first: "recorded E H su model_id run (view s') (blobs objs') i x"
    using w(1,5) IH unfolding recorded_def by (metis Inr_inject)
  have "recorded E H su model_id run (view s') (blobs objs') (i + j) ((x # xs) ! j)" if "j < length (x # xs)" for j
    using that first IH by (cases j) auto
  moreover have "view s' k = view s k" if "\<forall>w. k \<noteq> work_key run w" for k
    using that IH w(4) by auto
  moreover have "view s' k = view s k" if "\<forall>j w. i \<le> j \<longrightarrow> j < i + length (x # xs) \<longrightarrow>
      example_work_id E su LM_EVAL_VERSION (of_nat j) model_id = Inr w \<longrightarrow> k \<noteq> work_key run w" for k
  proof -
    have "k \<noteq> work_key run w" using that [rule_format, of i w] w(1) by simp
    moreover have "\<forall>j w. Suc i \<le> j \<longrightarrow> j < Suc i + length xs \<longrightarrow>
        example_work_id E su LM_EVAL_VERSION (of_nat j) model_id = Inr w \<longrightarrow> k \<noteq> work_key run w"
      using that by (metis Suc_leD add_Suc_right add_Suc_shift list.size(4) One_nat_def add.right_neutral)
    then have "view s' k = view s1 k" using IH by blast
    ultimately show ?thesis using w(4) by simp
  qed
  ultimately show ?case using IH w(7) by metis
qed

end

text \<open>What a data set scores, what the report lists per task, and the metrics, as functions of the rows.\<close>

definition ifeval_pairs :: "'f eval_env \<Rightarrow> eval_context \<Rightarrow> ifeval_row list \<Rightarrow> (ifeval_row \<times> string) list" where
  "ifeval_pairs E ctx rows = map (\<lambda>r. (r, mock_generate (mock E) (ifeval_prompt r) (ctx_seed ctx))) rows"

fun dataset_len :: "dataset \<Rightarrow> nat" where
  "dataset_len (MmluRows rows) = length rows"
| "dataset_len (Gsm8kRows rows) = length rows"
| "dataset_len (IfevalRows rows) = length rows"

fun suite_scores :: "'f eval_env \<Rightarrow> eval_context \<Rightarrow> dataset \<Rightarrow> 'f list" where
  "suite_scores E ctx (MmluRows rows) = map (\<lambda>row. bit_score (fl (libs E)) (sc_acc (mmlu_judged E ctx row))) rows"
| "suite_scores E ctx (Gsm8kRows rows) = map (\<lambda>row. bit_score (fl (libs E)) (gsm8k_correct E ctx row)) rows"
| "suite_scores E ctx (IfevalRows rows) = map (\<lambda>x. bit_score (fl (libs E)) (ifeval_pass E x)) (ifeval_pairs E ctx rows)"

fun suite_tasks :: "'f eval_env \<Rightarrow> eval_context \<Rightarrow> dataset \<Rightarrow> 'f list" where
  "suite_tasks E ctx (IfevalRows rows) = map (\<lambda>(row, resp). if scored row = [] then f_neg (fl (libs E)) (f_of_nat (fl (libs E)) 1)
     else bit_score (fl (libs E)) (ifeval_pass E (row, resp))) (ifeval_pairs E ctx rows)"
| "suite_tasks E ctx data = suite_scores E ctx data"

fun suite_result :: "'f eval_env \<Rightarrow> eval_context \<Rightarrow> dataset \<Rightarrow> string \<rightharpoonup> 'f metric_value" where
  "suite_result E ctx (MmluRows rows) = (let F = fl (libs E); n = mean_denom F (length rows) in
     [''acc'' \<mapsto> Scalar (f_div F (f_of_nat F (length (filter (\<lambda>row. sc_acc (mmlu_judged E ctx row)) rows))) n),
      ''acc_norm'' \<mapsto> Scalar (f_div F (f_of_nat F (length (filter (\<lambda>row. sc_acc_norm (mmlu_judged E ctx row)) rows))) n)])"
| "suite_result E ctx (Gsm8kRows rows) = (let F = fl (libs E) in
     [''acc'' \<mapsto> Scalar (f_div F (f_of_nat F (length (filter (gsm8k_correct E ctx) rows))) (mean_denom F (length rows)))])"
| "suite_result E ctx (IfevalRows rows) = (let score = score_batch (libs E) rows (map snd (ifeval_pairs E ctx rows)) in
     [''inst_strict_acc'' \<mapsto> Scalar (instruction_strict_acc score), ''prompt_strict_acc'' \<mapsto> Scalar (prompt_strict_acc score)])"

lemma zip_map_self: "zip xs (map f xs) = map (\<lambda>x. (x, f x)) xs"
  by (induction xs) auto

lemma length_suite_scores [simp]: "length (suite_scores E ctx data) = dataset_len data"
  by (cases data) (simp_all add: ifeval_pairs_def)

lemma run_dataset_records:
  assumes "f64_exact (fl (libs E))" "dataset_len data < 2 ^ 53"
    and "run_dataset S B E su data ctx run worker model_id st = (Inr (metrics, tasks), st')"
  shows "record_all S B E su ctx run worker model_id 0 (suite_scores E ctx data) st = (Inr (), st')
    \<and> metrics = suite_result E ctx data \<and> tasks = numbered 0 (suite_tasks E ctx data)"
proof -
  consider (m) rows where "su = Mmlu" "data = MmluRows rows" | (g) rows where "su = Gsm8k" "data = Gsm8kRows rows"
    | (i) rows where "su = Ifeval" "data = IfevalRows rows"
    using assms(3) by (cases su; cases data) (auto simp: run_dataset_def)
  then show ?thesis
  proof cases
    case m
    with assms(3) obtain a n where
      loop: "mmlu_loop S B E ctx run worker model_id 0 rows (f_of_nat (fl (libs E)) 0) (f_of_nat (fl (libs E)) 0) [] st = (Inr (a, n, tasks), st')"
      and "metrics = [''acc'' \<mapsto> Scalar (f_div (fl (libs E)) a (mean_denom (fl (libs E)) (length rows))),
        ''acc_norm'' \<mapsto> Scalar (f_div (fl (libs E)) n (mean_denom (fl (libs E)) (length rows)))]"
      by (auto simp: run_dataset_def run_mmlu_def Let_def comp_iff)
    with mmlu_loop_records [OF loop] m assms(1,2) show ?thesis by (simp add: Let_def bits_sum_map)
  next
    case g
    with assms(3) obtain a where loop: "gsm8k_loop S B E ctx run worker model_id 0 rows (f_of_nat (fl (libs E)) 0) [] st = (Inr (a, tasks), st')"
      and "metrics = [''acc'' \<mapsto> Scalar (f_div (fl (libs E)) a (mean_denom (fl (libs E)) (length rows)))]"
      by (auto simp: run_dataset_def run_gsm8k_def Let_def comp_iff)
    with gsm8k_loop_records [OF loop] g assms(1,2) show ?thesis by (simp add: Let_def bits_sum_map)
  next
    case i
    with assms(3) have loop: "ifeval_loop S B E ctx run worker model_id 0 (ifeval_pairs E ctx rows) [] st = (Inr tasks, st')"
      and "metrics = suite_result E ctx data"
      by (auto simp: run_dataset_def run_ifeval_def Let_def comp_iff ifeval_pairs_def zip_map_self comp_def)
    with ifeval_loop_records [OF loop] i show ?thesis by simp
  qed
qed

lemma eval_report_key_work [simp]: "eval_report_key run rid \<noteq> work_key run' w" "work_key run' w \<noteq> eval_report_key run rid"
  by (simp_all add: eval_report_key_def work_key_def)

context meta_and_blobs
begin

lemma eval_run_law:
  assumes "f64_exact (fl (libs E))" "inv s" "oinv objs" "load X su = Inr data" "dataset_len data < 2 ^ 53"
    and "fresh_ids E su (model_uri model) run okk (view s) 0 (dataset_len data)"
    and "eval_run S B E X su t0 t1 run worker model ctx (s, objs) = (Inr report, (s', objs'))"
    and "\<And>blob. encode (report_codec E) report = Inr blob \<Longrightarrow> okk (eval_report_key run (content_id_of H blob))"
  shows "report = \<lparr>eval_name = suite_name su, eval_version = LM_EVAL_VERSION, rep_model = model, rep_started = t0,
      rep_completed = t1, rep_metrics = suite_result E ctx data, rep_per_task = numbered 0 (suite_tasks E ctx data)\<rparr>
    \<and> inv s' \<and> oinv objs'
    \<and> (\<forall>i < dataset_len data. recorded E H su (model_uri model) run (view s') (blobs objs') i (suite_scores E ctx data ! i))
    \<and> (\<exists>blob row. encode (report_codec E) report = Inr blob \<and> blobs objs' (content_id_of H blob) \<noteq> None
        \<and> encode (row_codec E) \<lparr>err_id = content_id_of H blob, err_report = report\<rparr> = Inr row
        \<and> view s' (eval_report_key run (content_id_of H blob)) = Some row)"
proof -
  obtain metrics tasks s1 objs1 blob rid row where
    ran: "run_dataset S B E su data ctx run worker (model_uri model) (s, objs) = (Inr (metrics, tasks), (s1, objs1))"
    and rep: "report = \<lparr>eval_name = suite_name su, eval_version = LM_EVAL_VERSION, rep_model = model, rep_started = t0,
      rep_completed = t1, rep_metrics = metrics, rep_per_task = tasks\<rparr>"
    and blob: "encode (report_codec E) report = Inr blob" "put_blob B blob put_hint_default objs1 = (Inr rid, objs')"
    and row: "encode (row_codec E) \<lparr>err_id = rid, err_report = report\<rparr> = Inr row"
      "in_txn S (put_bytes S (eval_report_key run rid) row) s1 = (Inr (), s')"
    using assms(4,7)
    by (auto simp: eval_run_def in_txn_def Let_def comp_iff on_store_eq on_sink_eq)
  from run_dataset_records [OF assms(1,5) ran]
  have all: "record_all S B E su ctx run worker (model_uri model) 0 (suite_scores E ctx data) (s, objs) = (Inr (), (s1, objs1))"
    and res: "metrics = suite_result E ctx data" "tasks = numbered 0 (suite_tasks E ctx data)" by auto
  have "fresh_ids E su (model_uri model) run okk (view s) 0 (0 + length (suite_scores E ctx data))" using assms(6) by simp
  note fin = record_all_law [OF assms(2,3) this all]
  then have s1: "inv s1" "oinv objs1" by auto
  note put = put_blob_law [OF s1(2) blob(2)]
  then have rid: "rid = content_id_of H blob" by simp
  have s': "inv s'" "view s' = (view s1)(eval_report_key run rid \<mapsto> row)"
    using put_txn_outcomes [OF s1(1) _ row(2)] assms(8) [OF blob(1)] rid by auto
  have "recorded E H su (model_uri model) run (view s') (blobs objs') i (suite_scores E ctx data ! i)" if "i < dataset_len data" for i
  proof -
    from fin that have "recorded E H su (model_uri model) run (view s1) (blobs objs1) i (suite_scores E ctx data ! i)" by auto
    then show ?thesis by (rule recorded_mono) (use s'(2) put in auto)
  qed
  moreover have "view s' (eval_report_key run (content_id_of H blob)) = Some row" "blobs objs' (content_id_of H blob) \<noteq> None"
    "encode (row_codec E) \<lparr>err_id = content_id_of H blob, err_report = report\<rparr> = Inr row"
  proof -
    show "view s' (eval_report_key run (content_id_of H blob)) = Some row" using s'(2) rid by simp
    have "blobs objs' rid \<noteq> None" using put by blast
    then show "blobs objs' (content_id_of H blob) \<noteq> None" unfolding rid .
    show "encode (row_codec E) \<lparr>err_id = content_id_of H blob, err_report = report\<rparr> = Inr row" using row(1) unfolding rid .
  qed
  moreover have "oinv objs'" using put by blast
  ultimately show ?thesis using rep res s'(1) blob(1) by blast
qed

end

section \<open>The rows of the ledger are well typed\<close>

text \<open>Every row of a work item decodes to a record, and to one of the item whose key it has.\<close>

definition work_typed :: "work_item_record codec \<Rightarrow> run_id \<Rightarrow> store_view \<Rightarrow> bool" where
  "work_typed W run v \<longleftrightarrow> (\<forall>wid b. v (work_key run wid) = Some b \<longrightarrow> (\<exists>st. decode W b = Inr \<lparr>work_id = wid, work_st = st\<rparr>))"

lemma work_typed_put:
  assumes "codec_ok W" "work_typed W run v" "encode W \<lparr>work_id = wid, work_st = st\<rparr> = Inr b"
  shows "work_typed W run (v(work_key run wid \<mapsto> b))"
  using assms codec_okD [OF assms(1,3)] by (auto simp: work_typed_def)

lemma work_typed_swapped:
  assumes "codec_ok W" "swapped W run rec st v v'" "work_typed W run v"
  shows "work_typed W run v'"
proof -
  obtain new where "encode W (rec\<lparr>work_st := st\<rparr>) = Inr new" "v' = v(work_key run (work_id rec) \<mapsto> new)"
    using assms(2) by (auto simp: swapped_def)
  with work_typed_put [OF assms(1,3), of "work_id rec" st new] show ?thesis by (cases rec) simp
qed

lemma work_typed_cong: "(\<And>wid. v' (work_key run wid) = v (work_key run wid)) \<Longrightarrow> work_typed W run v \<Longrightarrow> work_typed W run v'"
  by (simp add: work_typed_def)

context storage
begin

lemma work_trace_typed:
  assumes "codec_ok W" "work_trace S view inv W run ls s s'" "inv s" "work_typed W run (view s)"
    and "list_all (label_key_ok okk run) ls"
  shows "work_typed W run (view s')"
  using assms(2-)
proof (induction rule: work_trace.induct)
  case (trace_cons l s s1 ls s')
  have "inv s1 \<and> work_typed W run (view s1)"
    using trace_cons.hyps(1)
  proof cases
    case (step_call op r)
    with trace_cons.prems have okk: "okk (work_key run (work_id (op_record op)))" by simp
    show ?thesis
      using work_call_outcomes [OF trace_cons.prems(1) okk step_call(2)] trace_cons.prems(2) work_typed_swapped [OF assms(1)] by metis
  next
    case step_rest
    with trace_cons.prems(2) work_typed_cong show ?thesis by metis
  qed
  with trace_cons show ?case by simp
qed simp

end

section \<open>Properties\<close>

text \<open>
  C31. An evaluation reports what it scored and records it. If a run with a fresh identifier returns a report,
  then the data set passed its hash check and parsed; the metrics are the fractions of rows the scorer
  accepted (for IFEval, under its denominator policy), the report lists one score per example in
  order; the work item of every example is done with the identifier of its stored result; and the report
  itself is stored as a row and as a blob under its hash. (Sums of zeros and ones below \<open>2 ^ 53\<close> are
  exact, and no two examples share a work id.)
\<close>

theorem evaluation_records_and_reports:
  assumes "f64_exact (fl (libs E))" "embedded_inv K s" "fs_inv D fs" "load X su = Inr data" "dataset_len data < 2 ^ 53"
    and "fresh_ids E su (model_uri model) run (embedded_okk K) (embedded_view K s) 0 (dataset_len data)"
    and "eval_run (embedded_ops R K) (fs_object_ops D) E X su t0 t1 run worker model ctx (s, fs) = (Inr report, (s', fs'))"
    and "\<forall>blob. encode (report_codec E) report = Inr blob \<longrightarrow> embedded_okk K (eval_report_key run (content_id_of (hash D) blob))"
  shows "report = \<lparr>eval_name = suite_name su, eval_version = LM_EVAL_VERSION, rep_model = model, rep_started = t0,
      rep_completed = t1, rep_metrics = suite_result E ctx data, rep_per_task = numbered 0 (suite_tasks E ctx data)\<rparr>
    \<and> (\<forall>i < dataset_len data. recorded E (hash D) su (model_uri model) run (embedded_view K s') (fs_blobs D fs') i (suite_scores E ctx data ! i))
    \<and> (\<exists>blob row. encode (report_codec E) report = Inr blob \<and> fs_blobs D fs' (content_id_of (hash D) blob) \<noteq> None
        \<and> encode (row_codec E) \<lparr>err_id = content_id_of (hash D) blob, err_report = report\<rparr> = Inr row
        \<and> embedded_view K s' (eval_report_key run (content_id_of (hash D) blob)) = Some row)"
  using redb_fs.eval_run_law [OF assms(1-7)] assms(8) by blast

text \<open>
  C32. An example is scored once. After the first job of an example has returned, a second job of the same work
  item, by any worker, at any time and with any other result, returns the identifier of the first result, or an
  error of the read, and changes neither store.
\<close>

theorem example_job_is_idempotent:
  assumes "codec_ok (work_codec E)" "embedded_inv K s" "fs_inv D fs" "embedded_okk K (work_key run wid)"
    and "embedded_view K s (work_key run wid) = None"
    and "run_example_job (embedded_ops R K) (fs_object_ops D) E run worker wid result ms (s, fs) = (Inr rid, (s1, fs1))"
    and "run_example_job (embedded_ops R' K) (fs_object_ops D) E run worker' wid result' ms' (s1, fs1) = (r, (s2, fs2))"
  shows "s2 = s1 \<and> fs2 = fs1 \<and> (r = Inr rid \<or> (\<exists>e. r = Inl e))"
proof -
  from redb_fs.job_fresh [OF assms(2-6)] obtain d where
    d: "embedded_inv K s1" "encode (work_codec E) \<lparr>work_id = wid, work_st = Done rid\<rparr> = Inr d"
      "embedded_view K s1 (work_key run wid) = Some d" by auto
  show ?thesis
    by (rule redb_fs.job_done [OF d(1) assms(4) d(3) codec_okD [OF assms(1) d(2)] assms(7)])
qed


text \<open>
  The reverse side of the idempotence: an item left running, by a worker that died, is never completed by
  another start, which still answers \<open>Ok\<close> with the id of a result that the item does not carry.
\<close>

lemma example_job_leaves_running:
  assumes "embedded_inv K s" "fs_inv D fs" "embedded_okk K (work_key run wid)" "codec_ok (work_codec E)"
    and "embedded_view K s (work_key run wid) = Some row"
    and "decode (work_codec E) row = Inr \<lparr>work_id = wid, work_st = Running w0 t0\<rparr>" "(w0, t0) \<noteq> (worker, ms)"
    and "run_example_job (embedded_ops R K) (fs_object_ops D) E run worker wid result ms (s, fs) = (Inr rid, (s', fs'))"
  shows "embedded_view K s' = embedded_view K s"
  by (rule redb_fs.job_stuck [OF assms])

section \<open>Witnesses\<close>

definition demo_f64 :: "rat f64" where
  "demo_f64 = \<lparr>f_of_nat = of_nat, f_neg = uminus, f_add = (+), f_div = (/), f_gt = (\<lambda>a b. b < a),
     f_parse = (\<lambda>s. if s = ''18'' then Some 18 else None), f_close = (=)\<rparr>"

definition demo_libs :: "rat eval_libs" where
  "demo_libs = \<lparr>fl = demo_f64, is_ws = (\<lambda>c. c = '' ''), is_alphabetic = (\<lambda>_. True), is_lowercase = (\<lambda>_. True), is_uppercase = (\<lambda>_. False),
     to_lowercase = (\<lambda>s. s), gsm8k_matches = (\<lambda>s. [s]), json_parses = (\<lambda>_. False)\<rparr>"

definition demo_eval :: "rat eval_env" where
  "demo_eval = \<lparr>libs = demo_libs,
     work_codec = table_codec [\<lparr>work_id = ContentId (replicate 32 5), work_st = Pending\<rparr>,
       \<lparr>work_id = ContentId (replicate 32 5), work_st = Running (WorkerId 3) 0\<rparr>,
       \<lparr>work_id = ContentId (replicate 32 5), work_st = Done (ContentId (replicate 32 7))\<rparr>],
     result_codec = table_codec [\<lparr>ex_idx = 1, ex_score = 0\<rparr>, \<lparr>ex_idx = 2, ex_score = 0\<rparr>, \<lparr>ex_idx = 3, ex_score = 0\<rparr>, \<lparr>ex_idx = 4, ex_score = 0\<rparr>,
       \<lparr>ex_idx = 5, ex_score = 0\<rparr>, \<lparr>ex_idx = 6, ex_score = 0\<rparr>, \<lparr>ex_idx = 7, ex_score = 0\<rparr>, \<lparr>ex_idx = 0, ex_score = 1\<rparr>],
     workid_codec = \<lparr>encode = (\<lambda>_. Inr [1]), decode = (\<lambda>_. Inl [])\<rparr>,
     report_codec = \<lparr>encode = (\<lambda>_. Inr [2]), decode = (\<lambda>_. Inl [])\<rparr>, row_codec = \<lparr>encode = (\<lambda>_. Inr [3]), decode = (\<lambda>_. Inl [])\<rparr>,
     env_hash = (\<lambda>_. replicate 32 5), mock = \<lparr>completions = (\<lambda>_. Some ''18''), preferred_choice = (\<lambda>_. None)\<rparr>\<rparr>"

definition demo_data :: dataset_env where
  "demo_data = \<lparr>env_var = (\<lambda>_. None), read_fixture = (\<lambda>_. Inr []),
     read_batches = (\<lambda>_. Inr [\<lparr>num_rows = 1, utf8_col = (\<lambda>c. Some [if c = ''answer'' then ''so #### 18'' else ''q'']),
       i32_col = (\<lambda>_. None), i64_col = (\<lambda>_. None), list_col = (\<lambda>_. None)\<rparr>]),
     parse_instructions = (\<lambda>_. Inl []),
     data_hash = (\<lambda>_. case content_id_from_str (snd (fixture_of Gsm8k)) of Inr c \<Rightarrow> digest c | Inl _ \<Rightarrow> [])\<rparr>"

definition demo_eval_keys :: key_codec where
  "demo_eval_keys = table_codec [(Some (RunId 1), [''item'', content_id_to_string (ContentId (replicate 32 5))]),
     (Some (RunId 1), [''report'', content_id_to_string (ContentId (replicate 32 0))])]"

definition demo_model :: model_ref where
  "demo_model = \<lparr>model_uri = ''m'', model_content = None, model_tokenizer = None\<rparr>"

abbreviation demo_eval_ops :: "(embedded_storage, embedded_txn) storage_ops" where
  "demo_eval_ops \<equiv> embedded_ops faultless demo_eval_keys"

definition demo_rows :: dataset where
  "demo_rows = Gsm8kRows [\<lparr>gsm8k_question = ''q'', gsm8k_answer = ''so #### 18''\<rparr>]"

lemma demo_load: "load demo_data Gsm8k = Inr demo_rows"
  by code_simp

abbreviation demo_eval_run :: "(embedded_storage \<times> files, rat eval_report) io" where
  "demo_eval_run \<equiv> eval_run demo_eval_ops (fs_object_ops fs_demo) demo_eval demo_data Gsm8k 10 20 (RunId 1) (WorkerId 3) demo_model \<lparr>ctx_seed = 0\<rparr>"

lemma demo_eval_ok: "\<not> isl (fst (demo_eval_run (empty_store, Map.empty)))"
  by code_simp

lemma demo_eval_facts:
  "f64_exact (fl (libs demo_eval))" "embedded_inv demo_eval_keys empty_store"
  "example_work_id demo_eval Gsm8k LM_EVAL_VERSION 0 ''m'' = Inr (ContentId (replicate 32 5))"
  "embedded_okk demo_eval_keys (work_key (RunId 1) (ContentId (replicate 32 5)))"
  "embedded_okk demo_eval_keys (eval_report_key (RunId 1) (ContentId (replicate 32 0)))"
  "embedded_view demo_eval_keys empty_store (work_key (RunId 1) (ContentId (replicate 32 5))) = None"
  by (simp add: f64_exact_def demo_eval_def demo_libs_def demo_f64_def, code_simp+)

lemma demo_fresh:
  "fresh_ids demo_eval Gsm8k (model_uri demo_model) (RunId 1) (embedded_okk demo_eval_keys)
     (embedded_view demo_eval_keys empty_store) 0 (dataset_len demo_rows)"
  using demo_eval_facts(3,4,6) by (simp add: fresh_ids_def demo_model_def demo_rows_def)

lemma demo_result: "suite_result demo_eval \<lparr>ctx_seed = 0\<rparr> demo_rows ''acc'' = Some (Scalar 1)"
  by code_simp

theorem evaluation_records_and_reports_witness:
  "\<exists>report. fst (demo_eval_run (empty_store, Map.empty)) = Inr report \<and> rep_metrics report ''acc'' = Some (Scalar 1)"
proof -
  obtain report s' fs' where run: "demo_eval_run (empty_store, Map.empty) = (Inr report, (s', fs'))"
    using demo_eval_ok by (metis isl_def prod.collapse sum.collapse(2))
  have cid: "content_id_of (hash fs_demo) [2] = ContentId (replicate 32 0)" by (simp add: content_id_of_def fs_demo_def)
  have okk: "\<forall>blob. encode (report_codec demo_eval) report = Inr blob \<longrightarrow>
      embedded_okk demo_eval_keys (eval_report_key (RunId 1) (content_id_of (hash fs_demo) blob))"
    using demo_eval_facts(5) cid by (simp add: demo_eval_def)
  have len: "dataset_len demo_rows < 2 ^ 53" by (simp add: demo_rows_def)
  from evaluation_records_and_reports [OF demo_eval_facts(1,2) fs_demo_inv(1) demo_load len demo_fresh run okk]
  have "rep_metrics report = suite_result demo_eval \<lparr>ctx_seed = 0\<rparr> demo_rows" by simp
  with run demo_result show ?thesis by simp
qed

abbreviation demo_job :: "worker_id \<Rightarrow> rat example_result \<Rightarrow> (embedded_storage \<times> files, content_id) io" where
  "demo_job w result \<equiv> run_example_job demo_eval_ops (fs_object_ops fs_demo) demo_eval (RunId 1) w (ContentId (replicate 32 5)) result 0"

lemma demo_job_ok:
  "fst (demo_job (WorkerId 3) \<lparr>ex_idx = 0, ex_score = 1\<rparr> (empty_store, Map.empty)) = Inr (ContentId (replicate 32 7))"
  by code_simp

theorem example_job_is_idempotent_witness:
  "snd (demo_job (WorkerId 4) \<lparr>ex_idx = 1, ex_score = 0\<rparr> (snd (demo_job (WorkerId 3) \<lparr>ex_idx = 0, ex_score = 1\<rparr> (empty_store, Map.empty))))
     = snd (demo_job (WorkerId 3) \<lparr>ex_idx = 0, ex_score = 1\<rparr> (empty_store, Map.empty))"
proof -
  let ?first = "demo_job (WorkerId 3) \<lparr>ex_idx = 0, ex_score = 1\<rparr> (empty_store, Map.empty)"
  obtain s1 fs1 where first: "?first = (Inr (ContentId (replicate 32 7)), (s1, fs1))"
    using demo_job_ok by (metis prod.collapse)
  obtain r s2 fs2 where second: "demo_job (WorkerId 4) \<lparr>ex_idx = 1, ex_score = 0\<rparr> (s1, fs1) = (r, (s2, fs2))"
    by (metis prod.collapse)
  have "codec_ok (work_codec demo_eval)" by (simp add: demo_eval_def)
  from example_job_is_idempotent [OF this demo_eval_facts(2) fs_demo_inv(1) demo_eval_facts(4,6) first second]
  show ?thesis unfolding first snd_conv second by simp
qed

lemma work_demo_typed: "work_typed work_demo_codec (RunId 1) (embedded_view work_demo_keys work_demo_store)"
  unfolding work_typed_def
proof (intro allI impI)
  fix wid b assume b: "embedded_view work_demo_keys work_demo_store (work_key (RunId 1) wid) = Some b"
  from embedded_view_okk [OF this] have "wid = ContentId [5]"
    by (auto simp: embedded_okk_def work_demo_keys_def table_codec_def work_key_def split: option.splits if_splits)
  moreover have "embedded_view work_demo_keys work_demo_store (work_key (RunId 1) (ContentId [5])) = Some [1]" by code_simp
  moreover have "decode work_demo_codec [1] = Inr \<lparr>work_id = ContentId [5], work_st = Running (WorkerId 1) 10\<rparr>" by code_simp
  ultimately show "\<exists>st. decode work_demo_codec b = Inr \<lparr>work_id = wid, work_st = st\<rparr>" using b by simp
qed


end
