(* ===== verification/Cloud_Errors.thy ===== *)
theory Cloud_Errors
  imports Core_Types
begin

text \<open>
  How the cloud backends turn errors of the SDKs into \<open>CoreError\<close>
  (\<open>rollout-cloud-aws/src/error.rs\<close>, \<open>rollout-cloud-gcp/src/error.rs\<close>): the text of an error decides
  whether it is retried. An SDK error is its \<open>Display\<close> text and, when the service answered, the code
  and message of the answer.
\<close>

record sdk_error =
  err_display :: string
  err_service :: "(string option \<times> string option) option"

definition render_sdk :: "sdk_error \<Rightarrow> string" where
  "render_sdk e = (case err_service e of
       Some (code, msg) \<Rightarrow> err_display e @ '' (code='' @ (case code of None \<Rightarrow> ''Unknown'' | Some c \<Rightarrow> c)
         @ '', message='' @ (case msg of None \<Rightarrow> ''<none>'' | Some m \<Rightarrow> m) @ '')''
     | None \<Rightarrow> err_display e)"

definition mentions_any :: "string list \<Rightarrow> string \<Rightarrow> bool" where
  "mentions_any needles rendered = (let r = to_ascii_lowercase rendered in list_ex (\<lambda>n. str_contains n r) needles)"

section \<open>AWS\<close>

definition backoff :: retry_hint where
  "backoff = Backoff (from_millis 200) (from_secs 30)"

definition aws_is_throttle :: "string \<Rightarrow> bool" where
  "aws_is_throttle = mentions_any [''slowdown'', ''throttl'', ''too many requests'', ''toomanyrequests'', ''requestlimitexceeded'',
     ''503'', ''429'', ''serviceunavailable'', ''service unavailable'']"

definition aws_is_transient :: "string \<Rightarrow> bool" where
  "aws_is_transient = mentions_any [''timeout'', ''timed out'', ''connection'', ''dispatch'', ''io error'', ''500'', ''502'', ''504'',
     ''internalerror'', ''internal server error'']"

definition aws_map_sdk_error :: "string \<Rightarrow> string \<Rightarrow> core_error fault" where
  "aws_map_sdk_error op err = (let rendered = op @ '': '' @ err in
     if aws_is_throttle rendered then Err (Recoverable (Throttled backoff))
     else if aws_is_transient rendered then transient rendered backoff
     else internal rendered)"

definition map_s3_sdk_error :: "string \<Rightarrow> core_error fault" where
  "map_s3_sdk_error = aws_map_sdk_error ''s3''"

definition map_sqs_sdk_error :: "string \<Rightarrow> core_error fault" where
  "map_sqs_sdk_error err = (let rendered = ''sqs: '' @ err in
     if str_contains ''receipthandle'' (to_ascii_lowercase rendered) then transient rendered Never
     else aws_map_sdk_error ''sqs'' err)"

definition aws_map_sm_error :: "string \<Rightarrow> core_error fault" where
  "aws_map_sm_error err = (let rendered = ''secretsmanager: '' @ err in
     if str_contains ''resourcenotfound'' (to_ascii_lowercase rendered)
       \<or> str_contains ''can't find the specified secret'' (to_ascii_lowercase rendered)
     then config_invalid (''secret not found: '' @ rendered)
     else aws_map_sdk_error ''secretsmanager'' err)"

definition recoverable_transient :: "string \<Rightarrow> core_error fault" where
  "recoverable_transient msg = transient msg backoff"

section \<open>GCP\<close>

definition gcp_is_throttle :: "string \<Rightarrow> bool" where
  "gcp_is_throttle = mentions_any [''resourceexhausted'', ''resource exhausted'', ''ratelimit'', ''rate limit'', ''too many requests'',
     ''429'', ''503'']"

definition gcp_is_transient :: "string \<Rightarrow> bool" where
  "gcp_is_transient = mentions_any [''unavailable'', ''timeout'', ''timed out'', ''deadline'', ''connection'', ''connect'', ''aborted'',
     ''500'', ''502'', ''504'', ''internal server error'']"

definition gcp_is_config :: "string \<Rightarrow> bool" where
  "gcp_is_config = mentions_any [''permissiondenied'', ''permission denied'', ''unauthenticated'', ''401'', ''403'']"

definition gcp_map_sdk_error :: "string \<Rightarrow> string \<Rightarrow> core_error fault" where
  "gcp_map_sdk_error op err = (let rendered = op @ '': '' @ err in
     if gcp_is_throttle rendered then Err (Recoverable (Throttled backoff))
     else if gcp_is_transient rendered then transient rendered backoff
     else if gcp_is_config rendered then config_invalid rendered
     else internal rendered)"

definition map_gcs_error :: "string \<Rightarrow> core_error fault" where
  "map_gcs_error = gcp_map_sdk_error ''gcs''"

definition map_pubsub_error :: "string \<Rightarrow> core_error fault" where
  "map_pubsub_error = gcp_map_sdk_error ''pubsub''"

definition gcp_map_sm_error :: "string \<Rightarrow> core_error fault" where
  "gcp_map_sm_error err = (let rendered = ''secretmanager: '' @ err; low = to_ascii_lowercase rendered in
     if str_contains ''notfound'' low \<or> str_contains ''not found'' low \<or> str_contains ''404'' low
     then config_invalid (''secret not found: '' @ rendered)
     else gcp_map_sdk_error ''secretmanager'' err)"

section \<open>What is retried\<close>

fun retryable :: "core_error fault \<Rightarrow> bool" where
  "retryable (Err (Recoverable (Throttled h))) = (h \<noteq> Never)"
| "retryable (Err (Recoverable (Transient m h))) = (h \<noteq> Never)"
| "retryable (Err (Recoverable (Preempted h))) = (h \<noteq> Never)"
| "retryable _ = False"

text \<open>The rendered form of an answer of the service keeps its code, the \<open>Display\<close> form may not.\<close>

lemma render_sdk_keeps_code:
  assumes "err_service e = Some (Some code, msg)"
  shows "sublist code (render_sdk e)"
proof -
  have "render_sdk e = (err_display e @ '' (code='') @ code
      @ ('', message='' @ (case msg of None \<Rightarrow> ''<none>'' | Some m \<Rightarrow> m) @ '')'')"
    using assms by (simp add: render_sdk_def)
  then show ?thesis unfolding sublist_def by metis
qed

lemma mentions_sublist: "n \<in> set needles \<Longrightarrow> sublist n (to_ascii_lowercase s) \<Longrightarrow> mentions_any needles s"
  by (auto simp: mentions_any_def list_ex_iff str_contains_iff Let_def)

lemma throttle_code_retried:
  assumes "err_service e = Some (Some code, msg)" "sublist n (to_ascii_lowercase code)"
    and "n \<in> {''slowdown'', ''throttl'', ''503'', ''429''}"
  shows "aws_map_sdk_error op (render_sdk e) = Err (Recoverable (Throttled backoff))"
proof -
  obtain pre post where "render_sdk e = pre @ code @ post"
    using render_sdk_keeps_code [OF assms(1)] by (auto simp: sublist_def)
  moreover obtain pre' post' where "to_ascii_lowercase code = pre' @ n @ post'" using assms(2) by (auto simp: sublist_def)
  ultimately have "to_ascii_lowercase (op @ '': '' @ render_sdk e)
      = (map ascii_lower op @ map ascii_lower '': '' @ map ascii_lower pre @ pre') @ n @ (post' @ map ascii_lower post)"
    by (simp only: to_ascii_lowercase_def map_append append.assoc)
  then have "sublist n (to_ascii_lowercase (op @ '': '' @ render_sdk e))" unfolding sublist_def by blast
  then have "aws_is_throttle (op @ '': '' @ render_sdk e)"
    unfolding aws_is_throttle_def by (rule mentions_sublist [rotated]) (use assms(3) in auto)
  then show ?thesis by (simp add: aws_map_sdk_error_def Let_def)
qed

text \<open>
  The callers that hand over the error itself rather than its rendering (\<open>put_object\<close>, \<open>send_message\<close>,
  \<open>receive_message\<close>, \<open>delete_message\<close>) lose the code: a throttled call is fatal to them.
\<close>

lemma unrendered_throttle_fatal:
  "err_display e = ''service error'' \<Longrightarrow> \<not> retryable (map_s3_sdk_error (err_display e)) \<and> \<not> retryable (map_sqs_sdk_error (err_display e))"
  by (simp, code_simp)

end
