(* ===== verification/Cloud_Upload.thy ===== *)
theory Cloud_Upload
  imports Cloud_Errors Object_Store
begin

text \<open>
  Streaming uploads to S3 (\<open>rollout-cloud-aws/src/s3\<close>) and GCS (\<open>rollout-cloud-gcp/src/gcs\<close>): the
  stream is cut into chunks, hashed on the way and uploaded under a temporary key, and the finished
  object is copied to the key of its hash. The SDK clients are parameters: how a request is answered
  is up to them, and each world keeps the log of the requests sent with whether they were answered
  with success.
\<close>

section \<open>Reading a stream in chunks\<close>

text \<open>
  A stream delivers pieces, an empty one at its end, or an error; a read takes at most what fits the
  rest of the buffer.
\<close>

type_synonym byte_stream = "(string + bytes) list"

fun read_some :: "nat \<Rightarrow> byte_stream \<Rightarrow> (string + bytes) \<times> byte_stream" where
  "read_some cap [] = (Inr [], [])"
| "read_some cap (Inl e # rs) = (Inl e, rs)"
| "read_some cap (Inr b # rs) = (if length b \<le> cap then (Inr b, rs) else (Inr (take cap b), Inr (drop cap b) # rs))"

definition stream_size :: "byte_stream \<Rightarrow> nat" where
  "stream_size rs = (\<Sum>r \<leftarrow> rs. case r of Inl _ \<Rightarrow> 1 | Inr b \<Rightarrow> Suc (length b))"

lemma read_some_shrinks:
  "read_some cap rs = (Inr b, rs') \<Longrightarrow> b \<noteq> [] \<Longrightarrow> stream_size rs' < stream_size rs"
  by (cases "(cap, rs)" rule: read_some.cases) (auto simp: stream_size_def split: if_splits)

fun stream_data :: "byte_stream \<Rightarrow> string + bytes" where
  "stream_data [] = Inr []"
| "stream_data (Inl e # rs) = Inl e"
| "stream_data (Inr b # rs) = (if b = [] then Inr [] else bindE (stream_data rs) (\<lambda>d. Inr (b @ d)))"

text \<open>The chunks of a stream: the full ones, and what is left at its end or the error.\<close>

function chunks :: "nat \<Rightarrow> bytes \<Rightarrow> byte_stream \<Rightarrow> bytes list \<times> (string + bytes)" where
  "chunks csize buf rs = (case read_some (csize - length buf) rs of
       (Inl e, _) \<Rightarrow> ([], Inl e)
     | (Inr b, rs') \<Rightarrow>
         if b = [] then ([], Inr buf)
         else if length (buf @ b) = csize
         then (case chunks csize [] rs' of (full, rest) \<Rightarrow> ((buf @ b) # full, rest))
         else chunks csize (buf @ b) rs')"
  by pat_completeness auto
termination
  by (relation "measure (\<lambda>(_, _, rs). stream_size rs)") (auto dest: read_some_shrinks [OF sym])

declare chunks.simps [simp del]

lemma read_some_data:
  assumes "read_some cap rs = (r, rs')" "0 < cap"
  shows "(\<forall>e. r = Inl e \<longrightarrow> stream_data rs = Inl e)
    \<and> (\<forall>b. r = Inr b \<longrightarrow> length b \<le> cap \<and> stream_data rs = (if b = [] then Inr [] else bindE (stream_data rs') (\<lambda>d. Inr (b @ d))))"
  using assms by (cases "(cap, rs)" rule: read_some.cases) (auto simp: bindE_def split: if_splits sum.splits)

lemma chunks_data:
  assumes "length buf < csize" "chunks csize buf rs = (full, rest)"
  shows "(\<forall>c \<in> set full. length c = csize)
    \<and> (case rest of Inl e \<Rightarrow> stream_data rs = Inl e
       | Inr t \<Rightarrow> length t < csize \<and> (\<exists>d. stream_data rs = Inr d \<and> buf @ d = concat full @ t))"
  using assms
proof (induction csize buf rs arbitrary: full rest rule: chunks.induct)
  case (1 csize buf rs)
  obtain r rs' where r: "read_some (csize - length buf) rs = (r, rs')" by fastforce
  note data = read_some_data [OF r]
  show ?case
  proof (cases r)
    case (Inl e)
    with 1(3,4) r data show ?thesis by (auto simp: chunks.simps)
  next
    case (Inr b)
    show ?thesis
    proof (cases "b = []")
      case True
      with 1(3,4) r data Inr show ?thesis by (auto simp: chunks.simps)
    next
      case False
      with data Inr 1(3) have b: "length (buf @ b) \<le> csize" "stream_data rs = bindE (stream_data rs') (\<lambda>d. Inr (b @ d))" by auto
      show ?thesis
      proof (cases "length (buf @ b) = csize")
        case True
        obtain full1 where rec: "chunks csize [] rs' = (full1, rest)" "full = (buf @ b) # full1"
          using 1(4) r Inr False True by (subst (asm) chunks.simps) (auto split: prod.splits)
        have "length ([] :: bytes) < csize" using 1(3) by simp
        from 1(1) [OF r [symmetric] Inr False True this rec(1)] rec(2) True b(2)
        show ?thesis by (auto split: sum.splits)
      next
        case neq: False
        have rec: "chunks csize (buf @ b) rs' = (full, rest)"
          using 1(4) r Inr False neq by (subst (asm) chunks.simps) auto
        have "length (buf @ b) < csize" using b(1) neq by simp
        from 1(2) [OF r [symmetric] Inr False neq this rec] b(2)
        show ?thesis by (auto split: sum.splits)
      qed
    qed
  qed
qed


section \<open>Requests\<close>

record ('c, 'q) cloud_world =
  client :: 'c
  requests :: "('q \<times> bool) list"

definition request :: "('q \<Rightarrow> ('c, 'e, 'a) comp) \<Rightarrow> 'q \<Rightarrow> (('c, 'q) cloud_world, 'e, 'a) comp" where
  "request send q = (\<lambda>w. case send q (client w) of (r, c) \<Rightarrow> (r, \<lparr>client = c, requests = requests w @ [(q, \<not> isl r)]\<rparr>))"

section \<open>S3\<close>

datatype s3_request =
    PutObject string bytes
  | HeadObject string
  | CreateMultipart string string
  | UploadPart string string nat bytes
  | CompleteMultipart string string "(string \<times> nat) list"
  | AbortMultipart string string
  | CopyObject string string
  | DeleteObject string

text \<open>
  The client answers a request with the field of the response the code reads, if it reads one: the
  upload id of a new upload, the tag of a part. \<open>pending\<close> is the fresh ULID of the temporary key,
  \<open>runtime_up\<close> whether the runtime still accepts tasks. Part numbers stay far below \<open>i32::MAX\<close>.
\<close>

record 'c s3_store =
  s3_send :: "s3_request \<Rightarrow> ('c, sdk_error, string option) comp"
  s3_get_object :: "string \<Rightarrow> 'c \<Rightarrow> sdk_error + (string + bytes) list"
  s3_bucket :: string
  s3_prefix :: string
  multipart_chunk_bytes :: nat
  s3_hash :: blake3
  s3_pending :: string
  runtime_up :: bool

definition sharded_key :: "string \<Rightarrow> content_id \<Rightarrow> string" where
  "sharded_key pre cid = (let hex = content_id_to_string cid
     in pre @ ''cas/'' @ take 2 hex @ ''/'' @ take 2 (drop 2 hex) @ ''/'' @ hex)"

type_synonym ('c, 'a) s3_io = "(('c, s3_request) cloud_world, 'a) io"

definition s3_rendered :: "'c s3_store \<Rightarrow> s3_request \<Rightarrow> ('c, string option) s3_io" where
  "s3_rendered S q = map_errS (\<lambda>e. map_s3_sdk_error (render_sdk e)) (request (s3_send S) q)"

definition s3_put_bytes :: "'c s3_store \<Rightarrow> bytes \<Rightarrow> put_hint \<Rightarrow> ('c, content_id) s3_io" where
  "s3_put_bytes S b hint =
     (let cid = content_id_of (s3_hash S) b in
      bindS (map_errS (\<lambda>e. map_s3_sdk_error (err_display e)) (request (s3_send S) (PutObject (sharded_key (s3_prefix S) cid) b))) (\<lambda>_.
      returnS cid))"

definition not_found_text :: "string list \<Rightarrow> string \<Rightarrow> bool" where
  "not_found_text marks rendered = list_ex (\<lambda>m. str_contains m rendered) marks"

definition collect_body :: "(string + bytes) list \<Rightarrow> string + bytes" where
  "collect_body body = bindE (collectE id body) (\<lambda>pieces. Inr (concat pieces))"

definition s3_get_bytes :: "'c s3_store \<Rightarrow> content_id \<Rightarrow> 'c \<Rightarrow> bytes res" where
  "s3_get_bytes S cid c =
     bindE (map_err (\<lambda>e. if not_found_text [''NoSuchKey'', ''404''] (err_display e)
         then internal (''object not found: '' @ content_id_to_string cid) else map_s3_sdk_error (err_display e))
       (s3_get_object S (sharded_key (s3_prefix S) cid) c)) (\<lambda>body.
     map_err (\<lambda>e. internal (''s3 body collect: '' @ e)) (collect_body body))"

definition s3_get_stream :: "'c s3_store \<Rightarrow> content_id \<Rightarrow> 'c \<Rightarrow> (string + bytes) list res" where
  "s3_get_stream S cid c =
     map_err (\<lambda>e. if not_found_text [''NoSuchKey'', ''404''] (render_sdk e)
         then internal (''object not found: '' @ content_id_to_string cid) else map_s3_sdk_error (render_sdk e))
       (s3_get_object S (sharded_key (s3_prefix S) cid) c)"

definition s3_exists :: "'c s3_store \<Rightarrow> content_id \<Rightarrow> ('c, bool) s3_io" where
  "s3_exists S cid = (\<lambda>w. case request (s3_send S) (HeadObject (sharded_key (s3_prefix S) cid)) w of
       (Inr _, w') \<Rightarrow> (Inr True, w')
     | (Inl e, w') \<Rightarrow> (if not_found_text [''NotFound'', ''404''] (render_sdk e) then Inr False
                       else Inl (map_s3_sdk_error (render_sdk e)), w'))"

text \<open>
  The guard of an upload that is not committed: dropped inside a running runtime it starts the abort, whose
  outcome nobody waits for; after the shutdown it only logs.
\<close>

definition drop_guard :: "'c s3_store \<Rightarrow> string \<Rightarrow> string \<Rightarrow> ('c, s3_request) cloud_world \<Rightarrow> ('c, s3_request) cloud_world" where
  "drop_guard S temp uid w = (if runtime_up S then snd (request (s3_send S) (AbortMultipart temp uid) w) else w)"

definition guarded :: "'c s3_store \<Rightarrow> string \<Rightarrow> string \<Rightarrow> ('c, 'a) s3_io \<Rightarrow> ('c, 'a) s3_io" where
  "guarded S temp uid m = (\<lambda>w. case m w of
       (Inr a, w') \<Rightarrow> (Inr a, w')
     | (Inl e, w') \<Rightarrow> (Inl e, drop_guard S temp uid w'))"

definition guard_commit :: "'c s3_store \<Rightarrow> string \<Rightarrow> string \<Rightarrow> (string \<times> nat) list \<Rightarrow> ('c, unit) s3_io" where
  "guard_commit S temp uid parts = bindS (s3_rendered S (CompleteMultipart temp uid parts)) (\<lambda>_. returnS ())"

text \<open>The hasher is the bytes it was fed; \<open>parts\<close> lists the tags and numbers of the parts.\<close>

definition upload_one_part :: "'c s3_store \<Rightarrow> string \<Rightarrow> string \<Rightarrow> nat \<Rightarrow> bytes \<Rightarrow> bytes \<Rightarrow> (string \<times> nat) list
    \<Rightarrow> ('c, bytes \<times> (string \<times> nat) list) s3_io" where
  "upload_one_part S temp uid part_number chunk hashed parts =
     bindS (s3_rendered S (UploadPart temp uid part_number chunk)) (\<lambda>tag.
     returnS (hashed @ chunk, parts @ [(case tag of None \<Rightarrow> [] | Some t \<Rightarrow> t, part_number)]))"

function s3_upload_loop :: "'c s3_store \<Rightarrow> string \<Rightarrow> string \<Rightarrow> nat \<Rightarrow> byte_stream \<Rightarrow> bytes \<Rightarrow> nat \<Rightarrow> bytes \<Rightarrow> (string \<times> nat) list
    \<Rightarrow> ('c, bytes \<times> (string \<times> nat) list) s3_io" where
  "s3_upload_loop S temp uid csize rs buf part_number hashed parts = (case read_some (csize - length buf) rs of
       (Inl e, _) \<Rightarrow> failS (recoverable_transient (''stream read: '' @ e))
     | (Inr b, rs') \<Rightarrow>
         if b = [] then
           (if buf \<noteq> [] \<or> part_number = 1 then upload_one_part S temp uid part_number buf hashed parts
            else returnS (hashed, parts))
         else if length (buf @ b) = csize then
           bindS (upload_one_part S temp uid part_number (buf @ b) hashed parts) (\<lambda>(hashed, parts).
           s3_upload_loop S temp uid csize rs' [] (part_number + 1) hashed parts)
         else s3_upload_loop S temp uid csize rs' (buf @ b) part_number hashed parts)"
  by pat_completeness auto
termination
  by (relation "measure (\<lambda>(_, _, _, _, rs, _). stream_size rs)") (auto dest: read_some_shrinks [OF sym])

declare s3_upload_loop.simps [simp del]

definition s3_put_stream :: "'c s3_store \<Rightarrow> byte_stream \<Rightarrow> put_hint \<Rightarrow> ('c, content_id) s3_io" where
  "s3_put_stream S stream hint =
     (let csize = max (multipart_chunk_bytes S) (5 * 1024 * 1024);
          temp = s3_prefix S @ ''temp/pending-'' @ s3_pending S in
      bindS (s3_rendered S (CreateMultipart temp (case content_type hint of None \<Rightarrow> ''application/octet-stream'' | Some t \<Rightarrow> t))) (\<lambda>created.
      case created of None \<Rightarrow> failS (internal ''CreateMultipartUpload missing upload_id'')
      | Some uid \<Rightarrow>
          bindS (guarded S temp uid
            (bindS (s3_upload_loop S temp uid csize stream [] 1 [] []) (\<lambda>(hashed, parts).
             bindS (guard_commit S temp uid parts) (\<lambda>_.
             returnS hashed)))) (\<lambda>hashed.
          let cid = content_id_of (s3_hash S) hashed in
          bindS (s3_rendered S (CopyObject (sharded_key (s3_prefix S) cid) (s3_bucket S @ ''/'' @ temp))) (\<lambda>_.
          bindS (s3_rendered S (DeleteObject temp)) (\<lambda>_.
          returnS cid)))))"

section \<open>GCS\<close>

datatype gcs_request =
    GcsUpload string string nat bytes
  | GcsHead string
  | PrepareResumable string string
  | UploadChunk nat nat "nat option" bytes
  | GcsCopy string string
  | GcsDelete string

text \<open>A response with a status code, or another error with its text.\<close>

datatype gcs_error = GcsResponse nat string | GcsOther string

fun gcs_display :: "gcs_error \<Rightarrow> string" where
  "gcs_display (GcsResponse code s) = s"
| "gcs_display (GcsOther s) = s"

text \<open>The answer to a chunk is whether the session is finalised; other answers are not read.\<close>

record 'c gcs_store =
  gcs_send :: "gcs_request \<Rightarrow> ('c, gcs_error, bool) comp"
  gcs_download :: "string \<Rightarrow> 'c \<Rightarrow> gcs_error + (gcs_error + bytes) list"
  gcs_prefix :: string
  resumable_chunk_bytes :: nat
  gcs_hash :: blake3
  gcs_pending :: string

type_synonym ('c, 'a) gcs_io = "(('c, gcs_request) cloud_world, 'a) io"

fun gcs_is_not_found :: "gcs_error \<Rightarrow> bool" where
  "gcs_is_not_found (GcsResponse code s) = (code = 404)"
| "gcs_is_not_found (GcsOther s) = (let r = to_ascii_lowercase s in str_contains ''404'' r \<or> str_contains ''not found'' r)"

definition gcs_mapped :: "'c gcs_store \<Rightarrow> gcs_request \<Rightarrow> ('c, bool) gcs_io" where
  "gcs_mapped G q = map_errS (\<lambda>e. map_gcs_error (gcs_display e)) (request (gcs_send G) q)"

definition gcs_put_bytes :: "'c gcs_store \<Rightarrow> bytes \<Rightarrow> put_hint \<Rightarrow> ('c, content_id) gcs_io" where
  "gcs_put_bytes G b hint =
     (let cid = content_id_of (gcs_hash G) b in
      bindS (gcs_mapped G (GcsUpload (sharded_key (gcs_prefix G) cid)
        (case content_type hint of None \<Rightarrow> ''application/octet-stream'' | Some t \<Rightarrow> t) (length b) b)) (\<lambda>_.
      returnS cid))"

definition gcs_missing :: "content_id \<Rightarrow> gcs_error \<Rightarrow> core_error fault" where
  "gcs_missing cid e = (if gcs_is_not_found e then internal (''object not found: '' @ content_id_to_string cid)
     else map_gcs_error (gcs_display e))"

definition gcs_get_bytes :: "'c gcs_store \<Rightarrow> content_id \<Rightarrow> 'c \<Rightarrow> bytes res" where
  "gcs_get_bytes G cid c = map_err (gcs_missing cid)
     (bindE (gcs_download G (sharded_key (gcs_prefix G) cid) c) (\<lambda>body. bindE (collectE id body) (\<lambda>pieces. Inr (concat pieces))))"

definition gcs_get_stream :: "'c gcs_store \<Rightarrow> content_id \<Rightarrow> 'c \<Rightarrow> (string + bytes) list res" where
  "gcs_get_stream G cid c =
     bindE (map_err (gcs_missing cid) (gcs_download G (sharded_key (gcs_prefix G) cid) c)) (\<lambda>body.
     Inr (map (map_err (\<lambda>e. ''gcs download: '' @ gcs_display e)) body))"

definition gcs_exists :: "'c gcs_store \<Rightarrow> content_id \<Rightarrow> ('c, bool) gcs_io" where
  "gcs_exists G cid = (\<lambda>w. case request (gcs_send G) (GcsHead (sharded_key (gcs_prefix G) cid)) w of
       (Inr _, w') \<Rightarrow> (Inr True, w')
     | (Inl e, w') \<Rightarrow> (if gcs_is_not_found e then Inr False else Inl (map_gcs_error (gcs_display e)), w'))"

definition RESUMABLE_MULTIPLE :: nat where
  "RESUMABLE_MULTIPLE = 256 * 1024"

definition gcs_chunk_size :: "'c gcs_store \<Rightarrow> nat" where
  "gcs_chunk_size G = max (resumable_chunk_bytes G div RESUMABLE_MULTIPLE) 1 * RESUMABLE_MULTIPLE"

function gcs_upload_loop :: "'c gcs_store \<Rightarrow> nat \<Rightarrow> byte_stream \<Rightarrow> bytes \<Rightarrow> nat \<Rightarrow> bytes \<Rightarrow> ('c, bytes) gcs_io" where
  "gcs_upload_loop G csize rs buf offset hashed = (case read_some (csize - length buf) rs of
       (Inl e, _) \<Rightarrow> failS (recoverable_transient (''stream read: '' @ e))
     | (Inr b, rs') \<Rightarrow>
         if b = [] then
           (let tot = offset + length buf in
            bindS (gcs_mapped G (UploadChunk offset (if tot = 0 then 0 else tot - 1) (Some tot) buf)) (\<lambda>final.
            if final then returnS (hashed @ buf) else failS (internal ''resumable upload did not finalize after final chunk'')))
         else if length (buf @ b) = csize then
           bindS (gcs_mapped G (UploadChunk offset (offset + length (buf @ b) - 1) None (buf @ b))) (\<lambda>_.
           gcs_upload_loop G csize rs' [] (offset + length (buf @ b)) (hashed @ buf @ b))
         else gcs_upload_loop G csize rs' (buf @ b) offset hashed)"
  by pat_completeness auto
termination
  by (relation "measure (\<lambda>(_, _, rs, _). stream_size rs)") (auto dest: read_some_shrinks [OF sym])

declare gcs_upload_loop.simps [simp del]

definition gcs_put_stream :: "'c gcs_store \<Rightarrow> byte_stream \<Rightarrow> put_hint \<Rightarrow> ('c, content_id) gcs_io" where
  "gcs_put_stream G stream hint =
     (let temp = gcs_prefix G @ ''temp/pending-'' @ gcs_pending G in
      bindS (gcs_mapped G (PrepareResumable temp (case content_type hint of None \<Rightarrow> ''application/octet-stream'' | Some t \<Rightarrow> t))) (\<lambda>_.
      bindS (gcs_upload_loop G (gcs_chunk_size G) stream [] 0 []) (\<lambda>hashed.
      let cid = content_id_of (gcs_hash G) hashed in
      bindS (gcs_mapped G (GcsCopy (sharded_key (gcs_prefix G) cid) temp)) (\<lambda>_.
      bindS (gcs_mapped G (GcsDelete temp)) (\<lambda>_.
      returnS cid)))))"


section \<open>The upload loops, chunk by chunk\<close>

fun s3_send_chunks :: "'c s3_store \<Rightarrow> string \<Rightarrow> string \<Rightarrow> string + bytes \<Rightarrow> nat \<Rightarrow> bytes list \<Rightarrow> bytes \<Rightarrow> (string \<times> nat) list
    \<Rightarrow> ('c, bytes \<times> (string \<times> nat) list) s3_io" where
  "s3_send_chunks S temp uid rest n [] hashed parts = (case rest of
       Inl e \<Rightarrow> failS (recoverable_transient (''stream read: '' @ e))
     | Inr t \<Rightarrow> if t \<noteq> [] \<or> n = 1 then upload_one_part S temp uid n t hashed parts else returnS (hashed, parts))"
| "s3_send_chunks S temp uid rest n (c # cs) hashed parts =
     bindS (upload_one_part S temp uid n c hashed parts) (\<lambda>(hashed, parts). s3_send_chunks S temp uid rest (n + 1) cs hashed parts)"

lemma s3_upload_loop_chunks:
  "s3_upload_loop S temp uid csize rs buf n hashed parts =
     (case chunks csize buf rs of (full, rest) \<Rightarrow> s3_send_chunks S temp uid rest n full hashed parts)"
proof (induction csize buf rs arbitrary: n hashed parts rule: chunks.induct)
  case (1 csize buf rs)
  obtain r rs' where r: "read_some (csize - length buf) rs = (r, rs')" by fastforce
  note unfolded = s3_upload_loop.simps [of S temp uid csize rs buf n hashed parts] chunks.simps [of csize buf rs]
  show ?case
  proof (cases r)
    case (Inl e)
    with r show ?thesis by (simp add: unfolded)
  next
    case (Inr b)
    show ?thesis
    proof (cases "b = [] \<or> length (buf @ b) = csize")
      case True
      with r Inr 1(1) [OF r [symmetric] Inr] show ?thesis
        by (auto simp: unfolded split: prod.splits intro!: arg_cong2 [where f = bindS])
    next
      case False
      with r Inr 1(2) [OF r [symmetric] Inr] show ?thesis by (simp add: unfolded)
    qed
  qed
qed

fun gcs_send_chunks :: "'c gcs_store \<Rightarrow> string + bytes \<Rightarrow> nat \<Rightarrow> bytes list \<Rightarrow> bytes \<Rightarrow> ('c, bytes) gcs_io" where
  "gcs_send_chunks G rest offset [] hashed = (case rest of
       Inl e \<Rightarrow> failS (recoverable_transient (''stream read: '' @ e))
     | Inr t \<Rightarrow> (let tot = offset + length t in
         bindS (gcs_mapped G (UploadChunk offset (if tot = 0 then 0 else tot - 1) (Some tot) t)) (\<lambda>final.
         if final then returnS (hashed @ t) else failS (internal ''resumable upload did not finalize after final chunk''))))"
| "gcs_send_chunks G rest offset (c # cs) hashed =
     bindS (gcs_mapped G (UploadChunk offset (offset + length c - 1) None c)) (\<lambda>_.
     gcs_send_chunks G rest (offset + length c) cs (hashed @ c))"

lemma gcs_upload_loop_chunks:
  "gcs_upload_loop G csize rs buf offset hashed =
     (case chunks csize buf rs of (full, rest) \<Rightarrow> gcs_send_chunks G rest offset full hashed)"
proof (induction csize buf rs arbitrary: offset hashed rule: chunks.induct)
  case (1 csize buf rs)
  obtain r rs' where r: "read_some (csize - length buf) rs = (r, rs')" by fastforce
  note unfolded = gcs_upload_loop.simps [of G csize rs buf offset hashed] chunks.simps [of csize buf rs]
  show ?case
  proof (cases r)
    case (Inl e)
    with r show ?thesis by (simp add: unfolded)
  next
    case (Inr b)
    show ?thesis
    proof (cases "b = [] \<or> length (buf @ b) = csize")
      case True
      with r Inr 1(1) [OF r [symmetric] Inr] show ?thesis
        by (auto simp: unfolded Let_def split: prod.splits intro!: arg_cong2 [where f = bindS])
    next
      case False
      with r Inr 1(2) [OF r [symmetric] Inr] show ?thesis by (simp add: unfolded)
    qed
  qed
qed

section \<open>What the log of an upload holds\<close>

lemma request_log: "map_errS f (request send q) w = (r, w') \<Longrightarrow> requests w' = requests w @ [(q, \<not> isl r)]"
  by (auto simp: map_errS_def request_def map_err_def split: prod.splits sum.splits)

lemma s3_rendered_log: "s3_rendered S q w = (r, w') \<Longrightarrow> requests w' = requests w @ [(q, \<not> isl r)]"
  unfolding s3_rendered_def by (rule request_log)

lemma gcs_mapped_log: "gcs_mapped G q w = (r, w') \<Longrightarrow> requests w' = requests w @ [(q, \<not> isl r)]"
  unfolding gcs_mapped_def by (rule request_log)

lemma upload_one_part_log:
  assumes "upload_one_part S temp uid n c hashed parts w = (r, w')"
  shows "requests w' = requests w @ [(UploadPart temp uid n c, \<not> isl r)] \<and> (\<forall>a. r = Inr a \<longrightarrow> (\<exists>tag. a = (hashed @ c, parts @ [(tag, n)])))"
proof -
  from assms have "bindS (s3_rendered S (UploadPart temp uid n c)) (\<lambda>tag. returnS (hashed @ c, parts @ [(case tag of None \<Rightarrow> [] | Some t \<Rightarrow> t, n)])) w = (r, w')"
    by (simp add: upload_one_part_def)
  then show ?thesis
    by (cases rule: bindS_cases) (auto dest!: s3_rendered_log)
qed

text \<open>The parts of a list of blocks, numbered from \<open>n\<close>.\<close>

definition part_requests :: "string \<Rightarrow> string \<Rightarrow> nat \<Rightarrow> bytes list \<Rightarrow> (s3_request \<times> bool) list" where
  "part_requests temp uid n blocks = map (\<lambda>(i, b). (UploadPart temp uid i b, True)) (enumerate n blocks)"

fun part_list :: "nat \<Rightarrow> string list \<Rightarrow> (string \<times> nat) list" where
  "part_list n [] = []"
| "part_list n (tag # tags) = (tag, n) # part_list (Suc n) tags"

lemma part_requests_simps [simp]:
  "part_requests temp uid n [] = []"
  "part_requests temp uid n (b # bs) = (UploadPart temp uid n b, True) # part_requests temp uid (Suc n) bs"
  by (simp_all add: part_requests_def)

lemma s3_send_chunks_log:
  assumes "s3_send_chunks S temp uid rest n full hashed parts w = (r, w')" "0 < n"
  shows "\<exists>sent. requests w' = requests w @ sent \<and> (\<forall>q \<in> fst ` set sent. \<exists>i b. q = UploadPart temp uid i b)
    \<and> (\<forall>hashed' parts'. r = Inr (hashed', parts') \<longrightarrow> (\<exists>t tags. rest = Inr t \<and>
         (let blocks = full @ (if t \<noteq> [] \<or> full = [] \<and> n = 1 then [t] else []) in
          hashed' = hashed @ concat full @ t \<and> sent = part_requests temp uid n blocks \<and> length tags = length blocks
          \<and> parts' = parts @ part_list n tags)))"
  using assms
proof (induction full arbitrary: n hashed parts w)
  case Nil
  show ?case
  proof (cases rest)
    case (Inl e)
    with Nil show ?thesis by auto
  next
    case (Inr t)
    show ?thesis
    proof (cases "t \<noteq> [] \<or> n = 1")
      case True
      with Nil Inr have "upload_one_part S temp uid n t hashed parts w = (r, w')" by simp
      from upload_one_part_log [OF this]
      obtain tag where log: "requests w' = requests w @ [(UploadPart temp uid n t, \<not> isl r)]"
        and tag: "\<forall>a. r = Inr a \<longrightarrow> a = (hashed @ t, parts @ [(tag, n)])" by (cases r) auto
      show ?thesis
        by (intro exI [of _ "[(UploadPart temp uid n t, \<not> isl r)]"] conjI allI impI)
           (use log tag True Inr in \<open>auto simp: Let_def intro: exI [of _ "[tag]"]\<close>)
    qed (use Nil Inr in auto)
  qed
next
  case (Cons c cs)
  from Cons.prems(1) have "bindS (upload_one_part S temp uid n c hashed parts)
      (\<lambda>(hashed, parts). s3_send_chunks S temp uid rest (n + 1) cs hashed parts) w = (r, w')" by simp
  then show ?case
  proof (cases rule: bindS_cases)
    case (1 e)
    with upload_one_part_log [OF 1(1)] show ?thesis by auto
  next
    case (2 a w1)
    from upload_one_part_log [OF 2(1)] obtain tag where
      one: "requests w1 = requests w @ [(UploadPart temp uid n c, True)]" "a = (hashed @ c, parts @ [(tag, n)])" by auto
    from 2(2) one(2) have "s3_send_chunks S temp uid rest (n + 1) cs (hashed @ c) (parts @ [(tag, n)]) w1 = (r, w')" by simp
    from Cons.IH [OF this] obtain sent where sent: "requests w' = requests w1 @ sent"
        "\<forall>q \<in> fst ` set sent. \<exists>i b. q = UploadPart temp uid i b"
      and ok: "\<forall>hashed' parts'. r = Inr (hashed', parts') \<longrightarrow> (\<exists>t tags. rest = Inr t \<and>
         (let blocks = cs @ (if t \<noteq> [] \<or> cs = [] \<and> n + 1 = 1 then [t] else []) in
          hashed' = (hashed @ c) @ concat cs @ t \<and> sent = part_requests temp uid (n + 1) blocks \<and> length tags = length blocks
          \<and> parts' = (parts @ [(tag, n)]) @ part_list (n + 1) tags))" by auto
    show ?thesis
    proof (intro exI [of _ "(UploadPart temp uid n c, True) # sent"] conjI allI impI)
      fix hashed' parts' assume "r = Inr (hashed', parts')"
      with ok obtain t tags where t: "rest = Inr t" and res:
        "hashed' = (hashed @ c) @ concat cs @ t" "sent = part_requests temp uid (n + 1) (cs @ (if t \<noteq> [] then [t] else []))"
        "length tags = length (cs @ (if t \<noteq> [] then [t] else []))"
        "parts' = (parts @ [(tag, n)]) @ part_list (n + 1) tags"
        using Cons.prems(2) by (auto simp: Let_def)
      show "\<exists>t tags. rest = Inr t \<and>
         (let blocks = (c # cs) @ (if t \<noteq> [] \<or> c # cs = [] \<and> n = 1 then [t] else []) in
          hashed' = hashed @ concat (c # cs) @ t \<and> (UploadPart temp uid n c, True) # sent = part_requests temp uid n blocks
          \<and> length tags = length blocks \<and> parts' = parts @ part_list n tags)"
        using t res by (intro exI [of _ t] exI [of _ "tag # tags"]) (auto simp: Let_def)
    qed (use one sent in auto)
  qed
qed


section \<open>S3 uploads\<close>

text \<open>
  The upload of a stream in parts: its bytes are cut into blocks of one size, only the last may be smaller,
  and they are sent in order, numbered from one.
\<close>

definition uploaded :: "string \<Rightarrow> string \<Rightarrow> nat \<Rightarrow> byte_stream \<Rightarrow> (s3_request \<times> bool) list \<Rightarrow> bytes \<Rightarrow> (string \<times> nat) list \<Rightarrow> bool" where
  "uploaded temp uid csize stream sent data parts \<longleftrightarrow> (\<exists>blocks tags. stream_data stream = Inr data \<and> concat blocks = data
     \<and> blocks \<noteq> [] \<and> (\<forall>b \<in> set (butlast blocks). length b = csize) \<and> length (last blocks) \<le> csize
     \<and> sent = part_requests temp uid 1 blocks \<and> length tags = length blocks \<and> parts = part_list 1 tags)"

definition only_parts :: "string \<Rightarrow> string \<Rightarrow> (s3_request \<times> bool) list \<Rightarrow> bool" where
  "only_parts temp uid sent \<longleftrightarrow> (\<forall>q \<in> fst ` set sent. \<exists>i b. q = UploadPart temp uid i b)"

lemma s3_loop_log:
  assumes "s3_upload_loop S temp uid csize stream [] 1 [] [] w = (r, w')" "0 < csize"
  shows "\<exists>sent. requests w' = requests w @ sent \<and> only_parts temp uid sent
    \<and> (\<forall>hashed parts. r = Inr (hashed, parts) \<longrightarrow> uploaded temp uid csize stream sent hashed parts)"
proof -
  obtain full rest where c: "chunks csize [] stream = (full, rest)" by fastforce
  have data: "\<forall>c \<in> set full. length c = csize"
      "case rest of Inl e \<Rightarrow> stream_data stream = Inl e
       | Inr t \<Rightarrow> length t < csize \<and> (\<exists>d. stream_data stream = Inr d \<and> [] @ d = concat full @ t)"
    using chunks_data [OF _ c] assms(2) by auto
  have "s3_send_chunks S temp uid rest 1 full [] [] w = (r, w')"
    using assms(1) c by (simp add: s3_upload_loop_chunks)
  from s3_send_chunks_log [OF this] obtain sent where sent: "requests w' = requests w @ sent"
      "\<forall>q \<in> fst ` set sent. \<exists>i b. q = UploadPart temp uid i b"
    and ok: "\<forall>hashed parts. r = Inr (hashed, parts) \<longrightarrow> (\<exists>t tags. rest = Inr t \<and>
         (let blocks = full @ (if t \<noteq> [] \<or> full = [] \<and> 1 = (1 :: nat) then [t] else []) in
          hashed = [] @ concat full @ t \<and> sent = part_requests temp uid 1 blocks \<and> length tags = length blocks
          \<and> parts = [] @ part_list 1 tags))" by auto
  show ?thesis
  proof (intro exI [of _ sent] conjI allI impI)
    fix hashed parts assume "r = Inr (hashed, parts)"
    with ok obtain t tags where t: "rest = Inr t" "hashed = concat full @ t"
        "sent = part_requests temp uid 1 (full @ (if t \<noteq> [] \<or> full = [] then [t] else []))"
        "length tags = length (full @ (if t \<noteq> [] \<or> full = [] then [t] else []))" "parts = part_list 1 tags"
      by (auto simp: Let_def)
    show "uploaded temp uid csize stream sent hashed parts"
      unfolding uploaded_def using t data by (intro exI [of _ "full @ (if t \<noteq> [] \<or> full = [] then [t] else [])"] exI [of _ tags])
        (auto dest: in_set_butlastD)
  qed (use sent in \<open>auto simp: only_parts_def\<close>)
qed

definition s3_temp :: "'c s3_store \<Rightarrow> string" where
  "s3_temp S = s3_prefix S @ ''temp/pending-'' @ s3_pending S"

definition s3_part_size :: "'c s3_store \<Rightarrow> nat" where
  "s3_part_size S = max (multipart_chunk_bytes S) (5 * 1024 * 1024)"

definition upload_type :: "put_hint \<Rightarrow> string" where
  "upload_type hint = (case content_type hint of None \<Rightarrow> ''application/octet-stream'' | Some t \<Rightarrow> t)"

text \<open>The log after the create, when the upload fails and when it is completed.\<close>

definition given_up :: "'c s3_store \<Rightarrow> string \<Rightarrow> string \<Rightarrow> (s3_request \<times> bool) list \<Rightarrow> bool" where
  "given_up S temp uid l \<longleftrightarrow> (\<exists>sent tail ok. only_parts temp uid sent
     \<and> set tail \<subseteq> range (\<lambda>parts. (CompleteMultipart temp uid parts, False))
     \<and> l = sent @ tail @ (if runtime_up S then [(AbortMultipart temp uid, ok)] else []))"

definition completed :: "string \<Rightarrow> string \<Rightarrow> nat \<Rightarrow> byte_stream \<Rightarrow> bytes \<Rightarrow> (s3_request \<times> bool) list \<Rightarrow> bool" where
  "completed temp uid csize stream data l \<longleftrightarrow> (\<exists>sent parts. only_parts temp uid sent \<and> uploaded temp uid csize stream sent data parts
     \<and> l = sent @ [(CompleteMultipart temp uid parts, True)])"

lemma drop_guard_log:
  "\<exists>ok. requests (drop_guard S temp uid w) = requests w @ (if runtime_up S then [(AbortMultipart temp uid, ok)] else [])"
  by (auto simp: drop_guard_def request_def split: prod.splits)

lemma guarded_cases:
  assumes "guarded S temp uid m w = (r, w')"
  obtains e w1 where "m w = (Inl e, w1)" "r = Inl e" "w' = drop_guard S temp uid w1" | a where "m w = (Inr a, w')" "r = Inr a"
  using assms by (auto simp: guarded_def split: prod.splits sum.splits)

lemma s3_guarded_log:
  assumes "guarded S temp uid (bindS (s3_upload_loop S temp uid csize stream [] 1 [] []) (\<lambda>(hashed, parts).
      bindS (guard_commit S temp uid parts) (\<lambda>_. returnS hashed))) w = (r, w')" "0 < csize"
  shows "\<exists>l. requests w' = requests w @ l \<and> (case r of Inl e \<Rightarrow> given_up S temp uid l | Inr data \<Rightarrow> completed temp uid csize stream data l)"
  using assms(1)
proof (cases rule: guarded_cases)
  case (1 e w1)
  obtain ok where ok: "requests w' = requests w1 @ (if runtime_up S then [(AbortMultipart temp uid, ok)] else [])"
    using drop_guard_log 1(3) by blast
  have "\<exists>sent tail. requests w1 = requests w @ sent @ tail \<and> only_parts temp uid sent
      \<and> set tail \<subseteq> range (\<lambda>parts. (CompleteMultipart temp uid parts, False))"
    using 1(1)
  proof (cases rule: bindS_cases)
    case (1 e')
    from s3_loop_log [OF 1(1) assms(2)] show ?thesis by (metis append_Nil2 empty_set empty_subsetI)
  next
    case (2 a w2)
    obtain hashed parts where a: "a = (hashed, parts)" by fastforce
    from s3_loop_log [OF 2(1) assms(2)] obtain sent where sent: "requests w2 = requests w @ sent" "only_parts temp uid sent" by blast
    from 2(2) a have "s3_rendered S (CompleteMultipart temp uid parts) w2 = (Inl e, w1)"
      by (auto simp: guard_commit_def bindS_eq_Inl)
    from s3_rendered_log [OF this] sent show ?thesis
      by (intro exI [of _ sent] exI [of _ "[(CompleteMultipart temp uid parts, False)]"]) auto
  qed
  with ok 1(2) show ?thesis by (fastforce simp: given_up_def)
next
  case (2 data)
  then obtain hashed parts w2 u where
    loop: "s3_upload_loop S temp uid csize stream [] 1 [] [] w = (Inr (hashed, parts), w2)"
    and com: "s3_rendered S (CompleteMultipart temp uid parts) w2 = (Inr u, w')" "data = hashed"
    by (auto simp: guard_commit_def comp_iff)
  from s3_loop_log [OF loop assms(2)] obtain sent where
    sent: "requests w2 = requests w @ sent" "only_parts temp uid sent" "uploaded temp uid csize stream sent hashed parts" by blast
  from s3_rendered_log [OF com(1)] sent com(2) 2(2) show ?thesis by (auto simp: completed_def)
qed

lemma s3_put_stream_eq:
  "s3_put_stream S stream hint =
     bindS (s3_rendered S (CreateMultipart (s3_temp S) (upload_type hint))) (\<lambda>created.
     case created of None \<Rightarrow> failS (internal ''CreateMultipartUpload missing upload_id'')
     | Some uid \<Rightarrow>
         bindS (guarded S (s3_temp S) uid
           (bindS (s3_upload_loop S (s3_temp S) uid (s3_part_size S) stream [] 1 [] []) (\<lambda>(hashed, parts).
            bindS (guard_commit S (s3_temp S) uid parts) (\<lambda>_. returnS hashed)))) (\<lambda>hashed.
         bindS (s3_rendered S (CopyObject (sharded_key (s3_prefix S) (content_id_of (s3_hash S) hashed)) (s3_bucket S @ ''/'' @ s3_temp S))) (\<lambda>_.
         bindS (s3_rendered S (DeleteObject (s3_temp S))) (\<lambda>_.
         returnS (content_id_of (s3_hash S) hashed)))))"
  by (simp only: s3_put_stream_def s3_temp_def s3_part_size_def upload_type_def Let_def)


text \<open>
  C37. No upload is left open. Once S3 has opened a multipart upload, a streamed put inside a running runtime
  either completes it, and then sends no abort, or aborts it as its last request, and then no completion had
  succeeded; this holds for every outcome and every answer of the service. A put that fails never
  deletes the temporary object.
\<close>

theorem s3_upload_never_left_open:
  assumes "s3_put_stream S stream hint \<lparr>client = c, requests = []\<rparr> = (r, w)" "runtime_up S"
    and "s3_send S (CreateMultipart (s3_temp S) (upload_type hint)) c = (Inr (Some uid), c')"
  shows "((\<exists>parts. (CompleteMultipart (s3_temp S) uid parts, True) \<in> set (requests w))
        \<and> (\<forall>key i. AbortMultipart key i \<notin> fst ` set (requests w))
      \<or> (\<forall>key i parts. (CompleteMultipart key i parts, True) \<notin> set (requests w))
        \<and> fst (last (requests w)) = AbortMultipart (s3_temp S) uid)
    \<and> (isl r \<longrightarrow> (DeleteObject (s3_temp S), True) \<notin> set (requests w))"
proof -
  let ?w1 = "\<lparr>client = c', requests = [(CreateMultipart (s3_temp S) (upload_type hint), True)]\<rparr>"
  have pos: "0 < s3_part_size S" by (simp add: s3_part_size_def)
  have "s3_rendered S (CreateMultipart (s3_temp S) (upload_type hint)) \<lparr>client = c, requests = []\<rparr> = (Inr (Some uid), ?w1)"
    using assms(3) by (simp add: s3_rendered_def map_errS_def request_def)
  with assms(1) have "bindS (guarded S (s3_temp S) uid
           (bindS (s3_upload_loop S (s3_temp S) uid (s3_part_size S) stream [] 1 [] []) (\<lambda>(hashed, parts).
            bindS (guard_commit S (s3_temp S) uid parts) (\<lambda>_. returnS hashed)))) (\<lambda>hashed.
         bindS (s3_rendered S (CopyObject (sharded_key (s3_prefix S) (content_id_of (s3_hash S) hashed)) (s3_bucket S @ ''/'' @ s3_temp S))) (\<lambda>_.
         bindS (s3_rendered S (DeleteObject (s3_temp S))) (\<lambda>_.
         returnS (content_id_of (s3_hash S) hashed)))) ?w1 = (r, w)"
    by (simp add: s3_put_stream_eq bindS_run)
  then show ?thesis
  proof (cases rule: bindS_cases)
    case (1 e)
    from s3_guarded_log [OF 1(1) pos] assms(2) obtain sent tail ok where
      l: "requests w = (CreateMultipart (s3_temp S) (upload_type hint), True) # sent @ tail @ [(AbortMultipart (s3_temp S) uid, ok)]"
        "only_parts (s3_temp S) uid sent" "set tail \<subseteq> range (\<lambda>parts. (CompleteMultipart (s3_temp S) uid parts, False))"
      by (auto simp: given_up_def)
    then show ?thesis by (auto simp: only_parts_def)
  next
    case (2 data w2)
    from s3_guarded_log [OF 2(1) pos] obtain sent parts where
      l: "requests w2 = (CreateMultipart (s3_temp S) (upload_type hint), True) # sent @ [(CompleteMultipart (s3_temp S) uid parts, True)]"
        "only_parts (s3_temp S) uid sent" by (auto simp: completed_def)
    have "\<exists>tail. requests w = requests w2 @ tail \<and> (\<forall>q \<in> set tail. (\<exists>k s. fst q = CopyObject k s) \<or> q = (DeleteObject (s3_temp S), \<not> isl r))"
      using 2(2)
    proof (cases rule: bindS_cases)
      case (1 e)
      with s3_rendered_log [OF 1(1)] show ?thesis by auto
    next
      case (2 u w3)
      note copy_log = s3_rendered_log [OF 2(1)]
      from 2(2) show ?thesis
        by (cases rule: bindS_cases) (auto dest!: s3_rendered_log simp: copy_log)
    qed
    then obtain tail where tail: "requests w = requests w2 @ tail"
        "\<forall>q \<in> set tail. (\<exists>k s. fst q = CopyObject k s) \<or> q = (DeleteObject (s3_temp S), \<not> isl r)" by blast
    have "(AbortMultipart key i, b) \<notin> set sent" "(AbortMultipart key i, b) \<notin> set tail" "(DeleteObject key, b) \<notin> set sent"
      "isl r \<Longrightarrow> (DeleteObject key, True) \<notin> set tail" for key i b
      using l(2) tail(2) by (force simp: only_parts_def)+
    with l(1) tail(1) show ?thesis by (auto intro!: exI [of _ parts])
  qed
qed


section \<open>GCS uploads\<close>

text \<open>The chunks of a resumable upload: consecutive byte ranges from \<open>offset\<close>, the length announced with the last.\<close>

fun range_requests :: "nat \<Rightarrow> bytes list \<Rightarrow> bytes \<Rightarrow> (gcs_request \<times> bool) list" where
  "range_requests offset [] t = [(UploadChunk offset (offset + length t - 1) (Some (offset + length t)) t, True)]"
| "range_requests offset (c # cs) t = (UploadChunk offset (offset + length c - 1) None c, True) # range_requests (offset + length c) cs t"

lemma gcs_send_chunks_log:
  assumes "gcs_send_chunks G rest offset full hashed w = (Inr hashed', w')"
  shows "\<exists>t. rest = Inr t \<and> hashed' = hashed @ concat full @ t \<and> requests w' = requests w @ range_requests offset full t"
  using assms
proof (induction full arbitrary: offset hashed w)
  case Nil
  then show ?case
    by (auto simp: comp_iff Let_def split: sum.splits if_splits dest!: gcs_mapped_log)
next
  case (Cons c cs)
  then obtain u w1 where one: "gcs_mapped G (UploadChunk offset (offset + length c - 1) None c) w = (Inr u, w1)"
      "gcs_send_chunks G rest (offset + length c) cs (hashed @ c) w1 = (Inr hashed', w')" by (auto simp: comp_iff)
  from Cons.IH [OF one(2)] gcs_mapped_log [OF one(1)] show ?case by auto
qed

definition gcs_temp :: "'c gcs_store \<Rightarrow> string" where
  "gcs_temp G = gcs_prefix G @ ''temp/pending-'' @ gcs_pending G"

lemma gcs_chunk_pos: "0 < gcs_chunk_size G" "RESUMABLE_MULTIPLE dvd gcs_chunk_size G"
  by (simp_all add: gcs_chunk_size_def RESUMABLE_MULTIPLE_def)

text \<open>
  C38. A streamed upload to GCS that returns an id sent the whole stream in one resumable session: consecutive
  ranges from byte zero, each but the last one full chunk whose size is a multiple of 256 KiB, the last shorter
  and with the total length; then the object was copied to the key of the returned id and the temporary
  one deleted. The id is the hash of the bytes sent.
\<close>

theorem gcs_stream_upload_tiles:
  assumes "gcs_put_stream G stream hint \<lparr>client = c, requests = []\<rparr> = (Inr cid, w)"
  shows "\<exists>full t. stream_data stream = Inr (concat full @ t) \<and> cid = content_id_of (gcs_hash G) (concat full @ t)
    \<and> (\<forall>b \<in> set full. length b = gcs_chunk_size G) \<and> RESUMABLE_MULTIPLE dvd gcs_chunk_size G \<and> length t < gcs_chunk_size G
    \<and> requests w = (PrepareResumable (gcs_temp G) (upload_type hint), True) # range_requests 0 full t
        @ [(GcsCopy (sharded_key (gcs_prefix G) cid) (gcs_temp G), True), (GcsDelete (gcs_temp G), True)]"
proof -
  from assms obtain u1 w1 data w2 u2 w3 u3 where
    run: "gcs_mapped G (PrepareResumable (gcs_temp G) (upload_type hint)) \<lparr>client = c, requests = []\<rparr> = (Inr u1, w1)"
      "gcs_upload_loop G (gcs_chunk_size G) stream [] 0 [] w1 = (Inr data, w2)"
      "gcs_mapped G (GcsCopy (sharded_key (gcs_prefix G) (content_id_of (gcs_hash G) data)) (gcs_temp G)) w2 = (Inr u2, w3)"
      "gcs_mapped G (GcsDelete (gcs_temp G)) w3 = (Inr u3, w)" "cid = content_id_of (gcs_hash G) data"
    by (auto simp: gcs_put_stream_def comp_iff Let_def gcs_temp_def upload_type_def)
  obtain full rest where c: "chunks (gcs_chunk_size G) [] stream = (full, rest)" by fastforce
  with run(2) have "gcs_send_chunks G rest 0 full [] w1 = (Inr data, w2)" by (simp add: gcs_upload_loop_chunks)
  from gcs_send_chunks_log [OF this] obtain t where
    t: "rest = Inr t" "data = concat full @ t" "requests w2 = requests w1 @ range_requests 0 full t" by auto
  have "\<forall>c \<in> set full. length c = gcs_chunk_size G" "length t < gcs_chunk_size G" "stream_data stream = Inr (concat full @ t)"
    using chunks_data [OF _ c] t(1) gcs_chunk_pos(1) [of G] by auto
  with t gcs_mapped_log [OF run(1)] gcs_mapped_log [OF run(3)] gcs_mapped_log [OF run(4)] run(5) gcs_chunk_pos(2) [of G]
  show ?thesis by (intro exI [of _ full] exI [of _ t]) simp
qed

text \<open>
  When the length of the stream is a positive multiple of the chunk size, the last request carries no
  byte and its range is inverted: it starts behind its end.
\<close>

lemma gcs_inverted_final_range:
  assumes "\<forall>b \<in> set full. length b = csize" "full \<noteq> []" "0 < csize"
  shows "let off = csize * length full in 0 < off \<and> last (range_requests 0 full []) = (UploadChunk off (off - 1) (Some off) [], True)"
proof -
  have "last (range_requests offset full t) = (let off = offset + length (concat full) in
      (UploadChunk off (off + length t - 1) (Some (off + length t)) t, True))" for offset full t
    by (induction full arbitrary: offset) (auto simp: Let_def, (metis range_requests.elims list.distinct(1))+)
  moreover have "length (concat full) = csize * length full"
    using assms(1) by (induction full) auto
  ultimately show ?thesis using assms(2,3) by (simp add: Let_def)
qed

section \<open>Witnesses\<close>

text \<open>A service that accepts everything.\<close>

definition s3_demo :: "unit s3_store" where
  "s3_demo = \<lparr>s3_send = (\<lambda>q c. (Inr (Some ''x''), c)), s3_get_object = (\<lambda>k c. Inr []), s3_bucket = ''b'', s3_prefix = ''p/'',
     multipart_chunk_bytes = 0, s3_hash = take 1, s3_pending = ''01'', runtime_up = True\<rparr>"

definition gcs_demo :: "unit gcs_store" where
  "gcs_demo = \<lparr>gcs_send = (\<lambda>q c. (Inr True, c)), gcs_download = (\<lambda>k c. Inr []), gcs_prefix = ''p/'',
     resumable_chunk_bytes = 0, gcs_hash = take 1, gcs_pending = ''01''\<rparr>"

lemma s3_demo_run: "\<exists>w. s3_put_stream s3_demo [Inr [7, 8], Inr [9]] put_hint_default \<lparr>client = (), requests = []\<rparr> = (Inr (ContentId [7]), w)"
  by (simp add: s3_put_stream_def s3_demo_def put_hint_default_def s3_rendered_def map_errS_def request_def bindS_def guarded_def
      guard_commit_def s3_upload_loop.simps upload_one_part_def content_id_of_def Let_def)


theorem s3_upload_never_left_open_witness:
  "\<exists>w. s3_put_stream s3_demo [Inl ''reset''] put_hint_default \<lparr>client = (), requests = []\<rparr> = (Inl (recoverable_transient ''stream read: reset''), w)
    \<and> (DeleteObject (s3_temp s3_demo), True) \<notin> set (requests w)"
proof -
  obtain w where run: "s3_put_stream s3_demo [Inl ''reset''] put_hint_default \<lparr>client = (), requests = []\<rparr>
      = (Inl (recoverable_transient ''stream read: reset''), w)"
    by (simp add: s3_put_stream_def s3_demo_def put_hint_default_def s3_rendered_def map_errS_def request_def bindS_def guarded_def
      s3_upload_loop.simps Let_def)
  have "s3_send s3_demo (CreateMultipart (s3_temp s3_demo) (upload_type put_hint_default)) () = (Inr (Some ''x''), ())" "runtime_up s3_demo"
    by (simp_all add: s3_demo_def)
  with s3_upload_never_left_open [OF run] run show ?thesis by auto
qed

theorem gcs_stream_upload_tiles_witness:
  "\<exists>w full t. gcs_put_stream gcs_demo [Inr [7, 8], Inr [9]] put_hint_default \<lparr>client = (), requests = []\<rparr> = (Inr (ContentId [7]), w)
    \<and> concat full @ t = [7, 8, 9 :: u8]"
proof -
  obtain w where run: "gcs_put_stream gcs_demo [Inr [7, 8], Inr [9]] put_hint_default \<lparr>client = (), requests = []\<rparr> = (Inr (ContentId [7]), w)"
    by (simp add: gcs_put_stream_def gcs_demo_def put_hint_default_def gcs_mapped_def map_errS_def request_def bindS_def
      gcs_upload_loop.simps gcs_chunk_size_def RESUMABLE_MULTIPLE_def content_id_of_def Let_def)
  from gcs_stream_upload_tiles [OF run] obtain full t where "stream_data [Inr [7, 8], Inr [9]] = Inr (concat full @ t)" by blast
  with run show ?thesis by (intro exI [of _ w] exI [of _ full] exI [of _ t]) simp
qed

end
