(* ===== verification/Cloud_Queue.thy ===== *)
theory Cloud_Queue
  imports Cloud_Upload Local_Queue Batch_State Utf8
begin

text \<open>
  The work queues over SQS (\<open>rollout-cloud-aws/src/sqs\<close>) and Pub/Sub (\<open>rollout-cloud-gcp/src/pubsub\<close>).
  The trait \<open>Queue\<close> settles an item by its identifier, the services by the handle of the receive, so each
  queue keeps a table of the items in flight. The services are parameters; the locale \<open>leased_queue\<close>
  is what both tables promise, with an interpretation for each.
\<close>

section \<open>Shared pieces\<close>

text \<open>\<open>QueueItemId::from_message_id_string\<close>: the first 16 bytes of the hash, big-endian.\<close>

definition from_message_id_string :: "blake3 \<Rightarrow> string \<Rightarrow> queue_item_id" where
  "from_message_id_string H mid = QueueItemId (word_rcat (take 16 (H (as_bytes mid))))"

text \<open>\<open>i32::try_from(lease.as_secs()).unwrap_or(default)\<close>.\<close>

definition lease_seconds :: "duration \<Rightarrow> nat \<Rightarrow> nat" where
  "lease_seconds d dflt = (let secs = d div 1000000000 in if secs < 2 ^ 31 then secs else dflt)"

definition not_in_flight :: "(queue_item_id \<Rightarrow> string) \<Rightarrow> string \<Rightarrow> queue_item_id \<Rightarrow> core_error fault" where
  "not_in_flight dbg op qid = transient (op @ '': QueueItemId '' @ dbg qid @ '' not in-flight (lease expired or never dequeued)'') Never"

definition required :: "string \<Rightarrow> 'a option \<Rightarrow> 'a res" where
  "required msg x = (case x of None \<Rightarrow> Inl (internal msg) | Some a \<Rightarrow> Inr a)"

text \<open>Taking an entry out of the table, under its lock.\<close>

definition take_inflight :: "(queue_item_id \<Rightarrow> string) \<Rightarrow> string \<Rightarrow> queue_item_id \<Rightarrow> ('w \<times> (queue_item_id \<rightharpoonup> 'h), 'h) io" where
  "take_inflight dbg op qid = on_sink (\<lambda>tab. case tab qid of
       None \<Rightarrow> (Inl (not_in_flight dbg op qid), tab)
     | Some h \<Rightarrow> (Inr h, tab(qid := None)))"

definition register_inflight :: "queue_item_id \<Rightarrow> 'h \<Rightarrow> ('w \<times> (queue_item_id \<rightharpoonup> 'h), unit) io" where
  "register_inflight qid h = on_sink (\<lambda>tab. (Inr (), tab(qid \<mapsto> h)))"

section \<open>SQS\<close>

record sqs_message =
  msg_receipt :: "string option"
  msg_id :: "string option"
  msg_body :: "string option"

datatype sqs_request = SendMessage string | ReceiveMessage nat | DeleteMessage string | ChangeVisibility string nat

record 'c sqs_queue =
  sqs_send :: "sqs_request \<Rightarrow> ('c, sdk_error, string option) comp"
  sqs_receive :: "sqs_request \<Rightarrow> ('c, sdk_error, sqs_message list option) comp"
  default_visibility :: nat
  b64_encode :: "bytes \<Rightarrow> string"
  b64_decode :: "string \<Rightarrow> string + bytes"
  sqs_hash :: blake3
  sqs_debug :: "queue_item_id \<Rightarrow> string"
  utf8_error :: "bytes \<Rightarrow> string"

text \<open>\<open>SqsQueue::new\<close>: a timeout that is no \<open>i32\<close> becomes 300 seconds.\<close>

definition sqs_visibility :: "nat \<Rightarrow> nat" where
  "sqs_visibility secs = (if secs < 2 ^ 31 then secs else 300)"

type_synonym ('c, 'a) sqs_io = "(('c, sqs_request) cloud_world \<times> (queue_item_id \<rightharpoonup> string), 'a) io"

definition sqs_call :: "'c sqs_queue \<Rightarrow> sqs_request \<Rightarrow> ('c, string option) sqs_io" where
  "sqs_call Q q = on_store (map_errS (\<lambda>e. map_sqs_sdk_error (err_display e)) (request (sqs_send Q) q))"

definition sqs_register :: "'c sqs_queue \<Rightarrow> queue_item_id \<Rightarrow> lease_token \<Rightarrow> ('c, unit) sqs_io" where
  "sqs_register Q qid token = (case token of LeaseToken b \<Rightarrow>
     register_inflight qid (case from_utf8 (utf8_error Q) b of Inl _ \<Rightarrow> [] | Inr s \<Rightarrow> s))"

definition sqs_dequeue_internal :: "'c sqs_queue \<Rightarrow> nat \<Rightarrow> ('c, (queue_item_id \<times> bytes \<times> lease_token) option) sqs_io" where
  "sqs_dequeue_internal Q visibility =
     bindS (on_store (map_errS (\<lambda>e. map_sqs_sdk_error (err_display e)) (request (sqs_receive Q) (ReceiveMessage visibility)))) (\<lambda>msgs.
     case (case msgs of None \<Rightarrow> [] | Some ms \<Rightarrow> ms) of
       [] \<Rightarrow> returnS None
     | msg # _ \<Rightarrow>
         bindS (liftE (required ''ReceiveMessage missing receipt_handle'' (msg_receipt msg))) (\<lambda>receipt.
         bindS (liftE (required ''ReceiveMessage missing message_id'' (msg_id msg))) (\<lambda>mid.
         bindS (liftE (required ''ReceiveMessage missing body'' (msg_body msg))) (\<lambda>body.
         bindS (liftE (map_err (\<lambda>e. internal (''base64 decode: '' @ e)) (b64_decode Q body))) (\<lambda>payload.
         let qid = from_message_id_string (sqs_hash Q) mid; token = LeaseToken (as_bytes receipt) in
         bindS (sqs_register Q qid token) (\<lambda>_.
         returnS (Some (qid, payload, token))))))))"

definition sqs_enqueue :: "'c sqs_queue \<Rightarrow> bytes \<Rightarrow> ('c, queue_item_id) sqs_io" where
  "sqs_enqueue Q payload =
     bindS (sqs_call Q (SendMessage (b64_encode Q payload))) (\<lambda>mid.
     bindS (liftE (required ''SendMessage missing message_id'' mid)) (\<lambda>mid.
     returnS (from_message_id_string (sqs_hash Q) mid)))"

definition sqs_dequeue :: "'c sqs_queue \<Rightarrow> ('c, (queue_item_id \<times> bytes) option) sqs_io" where
  "sqs_dequeue Q = bindS (sqs_dequeue_internal Q (default_visibility Q)) (\<lambda>x.
     returnS (map_option (\<lambda>(qid, payload, _). (qid, payload)) x))"

definition sqs_ack :: "'c sqs_queue \<Rightarrow> queue_item_id \<Rightarrow> ('c, unit) sqs_io" where
  "sqs_ack Q qid =
     bindS (take_inflight (sqs_debug Q) ''ack'' qid) (\<lambda>receipt.
     bindS (sqs_call Q (DeleteMessage receipt)) (\<lambda>_.
     returnS ()))"

definition sqs_nack :: "'c sqs_queue \<Rightarrow> queue_item_id \<Rightarrow> ('c, unit) sqs_io" where
  "sqs_nack Q qid =
     bindS (take_inflight (sqs_debug Q) ''nack'' qid) (\<lambda>receipt.
     bindS (sqs_call Q (ChangeVisibility receipt 0)) (\<lambda>_.
     returnS ()))"

definition sqs_dequeue_with_lease :: "'c sqs_queue \<Rightarrow> duration \<Rightarrow> ('c, (queue_item_id \<times> bytes \<times> lease_token) option) sqs_io" where
  "sqs_dequeue_with_lease Q lease = sqs_dequeue_internal Q (lease_seconds lease (default_visibility Q))"

definition sqs_extend_lease :: "'c sqs_queue \<Rightarrow> queue_item_id \<Rightarrow> lease_token \<Rightarrow> duration \<Rightarrow> ('c, unit) sqs_io" where
  "sqs_extend_lease Q qid token extend_by =
     (case token of LeaseToken b \<Rightarrow>
        bindS (liftE (map_err (\<lambda>e. internal (''LeaseToken not UTF-8: '' @ e)) (from_utf8 (utf8_error Q) b))) (\<lambda>receipt.
        bindS (on_store (map_errS (\<lambda>e. map_sqs_sdk_error (render_sdk e)) (request (sqs_send Q)
          (ChangeVisibility receipt (lease_seconds extend_by (default_visibility Q)))))) (\<lambda>_.
        returnS ())))"

definition sqs_ops :: "'c sqs_queue \<Rightarrow> (('c, sqs_request) cloud_world \<times> (queue_item_id \<rightharpoonup> string)) queue_ops" where
  "sqs_ops Q = \<lparr>enqueue_item = sqs_enqueue Q, dequeue_item = sqs_dequeue Q, ack_item = sqs_ack Q, nack_item = sqs_nack Q,
     dequeue_with_lease = sqs_dequeue_with_lease Q, extend_lease = sqs_extend_lease Q\<rparr>"

section \<open>Pub/Sub\<close>

record received_message =
  ack_handle :: string
  ps_message_id :: string
  ps_data :: bytes

datatype pubsub_request = Publish bytes | Pull | ModifyAckDeadline string nat | Acknowledge string

record 'c pubsub_queue =
  ps_publish :: "pubsub_request \<Rightarrow> ('c, string, string) comp"
  ps_pull :: "pubsub_request \<Rightarrow> ('c, string, received_message list) comp"
  ps_send :: "pubsub_request \<Rightarrow> ('c, string, unit) comp"
  default_ack_deadline :: nat
  ps_hash :: blake3
  ps_debug :: "queue_item_id \<Rightarrow> string"

definition pubsub_deadline :: "nat \<Rightarrow> nat" where
  "pubsub_deadline secs = (if secs < 2 ^ 31 then secs else 30)"

type_synonym ('c, 'a) pubsub_io = "(('c, pubsub_request) cloud_world \<times> (queue_item_id \<rightharpoonup> received_message), 'a) io"

definition ps_call :: "'c pubsub_queue \<Rightarrow> pubsub_request \<Rightarrow> ('c, unit) pubsub_io" where
  "ps_call P q = on_store (map_errS map_pubsub_error (request (ps_send P) q))"

text \<open>\<open>pop\<close> takes the last of the pulled messages.\<close>

definition pull_one :: "'c pubsub_queue \<Rightarrow> nat \<Rightarrow> ('c, (queue_item_id \<times> bytes \<times> lease_token) option) pubsub_io" where
  "pull_one P lease_secs =
     bindS (on_store (map_errS map_pubsub_error (request (ps_pull P) Pull))) (\<lambda>msgs.
     if msgs = [] then returnS None
     else let msg = last msgs in
       bindS (if lease_secs \<noteq> default_ack_deadline P then ps_call P (ModifyAckDeadline (ack_handle msg) lease_secs) else returnS ()) (\<lambda>_.
       let qid = from_message_id_string (ps_hash P) (ps_message_id msg) in
       bindS (register_inflight qid msg) (\<lambda>_.
       returnS (Some (qid, ps_data msg, LeaseToken (as_bytes (ack_handle msg)))))))"

definition ps_enqueue :: "'c pubsub_queue \<Rightarrow> bytes \<Rightarrow> ('c, queue_item_id) pubsub_io" where
  "ps_enqueue P payload =
     bindS (on_store (map_errS map_pubsub_error (request (ps_publish P) (Publish payload)))) (\<lambda>mid.
     returnS (from_message_id_string (ps_hash P) mid))"

definition ps_dequeue :: "'c pubsub_queue \<Rightarrow> ('c, (queue_item_id \<times> bytes) option) pubsub_io" where
  "ps_dequeue P = bindS (pull_one P (default_ack_deadline P)) (\<lambda>x.
     returnS (map_option (\<lambda>(qid, payload, _). (qid, payload)) x))"

definition ps_ack :: "'c pubsub_queue \<Rightarrow> queue_item_id \<Rightarrow> ('c, unit) pubsub_io" where
  "ps_ack P qid = bindS (take_inflight (ps_debug P) ''ack'' qid) (\<lambda>msg. ps_call P (Acknowledge (ack_handle msg)))"

definition ps_nack :: "'c pubsub_queue \<Rightarrow> queue_item_id \<Rightarrow> ('c, unit) pubsub_io" where
  "ps_nack P qid = bindS (take_inflight (ps_debug P) ''nack'' qid) (\<lambda>msg. ps_call P (ModifyAckDeadline (ack_handle msg) 0))"

definition ps_dequeue_with_lease :: "'c pubsub_queue \<Rightarrow> duration \<Rightarrow> ('c, (queue_item_id \<times> bytes \<times> lease_token) option) pubsub_io" where
  "ps_dequeue_with_lease P lease = pull_one P (lease_seconds lease (default_ack_deadline P))"

definition ps_extend_lease :: "'c pubsub_queue \<Rightarrow> queue_item_id \<Rightarrow> lease_token \<Rightarrow> duration \<Rightarrow> ('c, unit) pubsub_io" where
  "ps_extend_lease P qid token extend_by =
     bindS (on_sink (readS (\<lambda>tab. Inr (tab qid)))) (\<lambda>found. case found of
       None \<Rightarrow> failS (recoverable_transient (''extend_lease: QueueItemId '' @ ps_debug P qid @ '' not in-flight (lease expired or never dequeued)''))
     | Some msg \<Rightarrow>
         if LeaseToken (as_bytes (ack_handle msg)) \<noteq> token
         then failS (recoverable_transient (''extend_lease: stale LeaseToken for QueueItemId '' @ ps_debug P qid))
         else ps_call P (ModifyAckDeadline (ack_handle msg) (lease_seconds extend_by (default_ack_deadline P))))"

definition pubsub_ops :: "'c pubsub_queue \<Rightarrow> (('c, pubsub_request) cloud_world \<times> (queue_item_id \<rightharpoonup> received_message)) queue_ops" where
  "pubsub_ops P = \<lparr>enqueue_item = ps_enqueue P, dequeue_item = ps_dequeue P, ack_item = ps_ack P, nack_item = ps_nack P,
     dequeue_with_lease = ps_dequeue_with_lease P, extend_lease = ps_extend_lease P\<rparr>"


section \<open>What the table of the items in flight promises\<close>

datatype lease_call = EnqueueC bytes | DequeueC duration | ExtendC queue_item_id lease_token duration | AckC queue_item_id | NackC queue_item_id

fun run_lease_call :: "'w queue_ops \<Rightarrow> lease_call \<Rightarrow> 'w \<Rightarrow> 'w" where
  "run_lease_call Q (EnqueueC p) w = snd (enqueue_item Q p w)"
| "run_lease_call Q (DequeueC d) w = snd (dequeue_with_lease Q d w)"
| "run_lease_call Q (ExtendC qid tok d) w = snd (extend_lease Q qid tok d w)"
| "run_lease_call Q (AckC qid) w = snd (ack_item Q qid w)"
| "run_lease_call Q (NackC qid) w = snd (nack_item Q qid w)"

definition lease_calls :: "'w queue_ops \<Rightarrow> lease_call list \<Rightarrow> 'w \<Rightarrow> 'w" where
  "lease_calls Q cs w = fold (run_lease_call Q) cs w"

text \<open>A sequence of calls settles an item or delivers it again, or it leaves it alone.\<close>

fun touches :: "'w queue_ops \<Rightarrow> queue_item_id \<Rightarrow> lease_call \<Rightarrow> 'w \<Rightarrow> bool" where
  "touches Q qid (DequeueC d) w = (case fst (dequeue_with_lease Q d w) of Inr (Some (q, _)) \<Rightarrow> q = qid | _ \<Rightarrow> False)"
| "touches Q qid (AckC q) w = (q = qid)"
| "touches Q qid (NackC q) w = (q = qid)"
| "touches Q qid _ w = False"

fun untouched :: "'w queue_ops \<Rightarrow> queue_item_id \<Rightarrow> lease_call list \<Rightarrow> 'w \<Rightarrow> bool" where
  "untouched Q qid [] w = True"
| "untouched Q qid (c # cs) w = (\<not> touches Q qid c w \<and> untouched Q qid cs (run_lease_call Q c w))"

definition redelivers :: "'w queue_ops \<Rightarrow> queue_item_id \<Rightarrow> lease_call \<Rightarrow> 'w \<Rightarrow> bool" where
  "redelivers Q qid c w = (touches Q qid c w \<and> c \<noteq> AckC qid \<and> c \<noteq> NackC qid)"

fun not_redelivered :: "'w queue_ops \<Rightarrow> queue_item_id \<Rightarrow> lease_call list \<Rightarrow> 'w \<Rightarrow> bool" where
  "not_redelivered Q qid [] w = True"
| "not_redelivered Q qid (c # cs) w = (\<not> redelivers Q qid c w \<and> not_redelivered Q qid cs (run_lease_call Q c w))"

text \<open>
  \<open>sent\<close> lists the requests a world has sent, \<open>ack_request\<close> and \<open>nack_request\<close> are the requests that settle a
  handle, and \<open>handle_of\<close> relates a lease token to the handle it stands for.
\<close>

locale leased_queue =
  fixes Q :: "('w \<times> (queue_item_id \<rightharpoonup> 'h)) queue_ops"
    and sent :: "'w \<Rightarrow> 'q list"
    and ack_request :: "'h \<Rightarrow> 'q"
    and nack_request :: "'h \<Rightarrow> 'q"
    and handle_of :: "lease_token \<Rightarrow> 'h \<Rightarrow> bool"
  assumes enqueue_keeps: "enqueue_item Q p (w, tab) = (re, (w', tab')) \<Longrightarrow> tab' = tab"
    and extend_keeps: "extend_lease Q qid tok d (w, tab) = (r, (w', tab')) \<Longrightarrow> tab' = tab"
    and dequeue_registers: "dequeue_with_lease Q d (w, tab) = (Inr (Some (qid, p, tok)), (w', tab')) \<Longrightarrow>
        \<exists>h. handle_of tok h \<and> tab' = tab(qid \<mapsto> h)"
    and dequeue_keeps: "dequeue_with_lease Q d (w, tab) = (rd, (w', tab')) \<Longrightarrow> (\<And>x. rd \<noteq> Inr (Some x)) \<Longrightarrow> tab' = tab"
    and ack_takes: "tab qid = Some h \<Longrightarrow> ack_item Q qid (w, tab) = (r, (w', tab')) \<Longrightarrow>
        tab' = tab(qid := None) \<and> sent w' = sent w @ [ack_request h]"
    and nack_takes: "tab qid = Some h \<Longrightarrow> nack_item Q qid (w, tab) = (r, (w', tab')) \<Longrightarrow>
        tab' = tab(qid := None) \<and> sent w' = sent w @ [nack_request h]"
    and settle_refuses: "tab qid = None \<Longrightarrow>
        \<exists>e e'. ack_item Q qid (w, tab) = (Inl e, (w, tab)) \<and> \<not> retryable e \<and> nack_item Q qid (w, tab) = (Inl e', (w, tab)) \<and> \<not> retryable e'"
begin

lemma dequeue_table:
  assumes "dequeue_with_lease Q d (w, tab) = (r, (w', tab'))" "\<not> touches Q qid (DequeueC d) (w, tab)"
  shows "tab' qid = tab qid"
proof (cases "\<exists>i p tok. r = Inr (Some (i, p, tok))")
  case True
  with assms dequeue_registers show ?thesis by fastforce
next
  case False
  then have "\<And>x. r \<noteq> Inr (Some x)" by (metis prod_cases3)
  with dequeue_keeps [OF assms(1)] show ?thesis by simp
qed

lemma call_table:
  assumes "run_lease_call Q c (w, tab) = (w', tab')" "\<not> redelivers Q qid c (w, tab)"
  shows "tab' qid = tab qid \<or> tab' qid = None \<and> touches Q qid c (w, tab)"
proof (cases c)
  case (EnqueueC p)
  with assms(1) show ?thesis using enqueue_keeps by (metis run_lease_call.simps(1) prod.collapse)
next
  case (DequeueC d)
  with assms(2) have "\<not> touches Q qid (DequeueC d) (w, tab)" by (simp add: redelivers_def)
  moreover obtain r where "dequeue_with_lease Q d (w, tab) = (r, (w', tab'))"
    using assms(1) DequeueC by (metis run_lease_call.simps(2) prod.collapse)
  ultimately show ?thesis using dequeue_table by blast
next
  case (ExtendC i tok d)
  with assms(1) show ?thesis using extend_keeps by (metis run_lease_call.simps(3) prod.collapse)
next
  case (AckC i)
  show ?thesis
  proof (cases "tab i")
    case None
    with settle_refuses [of tab i w] assms AckC show ?thesis by auto
  next
    case (Some h)
    obtain r where run: "ack_item Q i (w, tab) = (r, (w', tab'))" using assms AckC by (metis run_lease_call.simps(4) prod.collapse)
    from ack_takes [where tab = tab and qid = i, OF Some run] AckC show ?thesis by auto
  qed
next
  case (NackC i)
  show ?thesis
  proof (cases "tab i")
    case None
    with settle_refuses [of tab i w] assms NackC show ?thesis by auto
  next
    case (Some h)
    obtain r where run: "nack_item Q i (w, tab) = (r, (w', tab'))" using assms NackC by (metis run_lease_call.simps(5) prod.collapse)
    from nack_takes [where tab = tab and qid = i, OF Some run] NackC show ?thesis by auto
  qed
qed

lemma calls_table:
  "lease_calls Q cs (w, tab) = (w', tab') \<Longrightarrow> not_redelivered Q qid cs (w, tab) \<Longrightarrow>
     tab' qid = tab qid \<or> tab' qid = None \<and> \<not> untouched Q qid cs (w, tab)"
proof (induction cs arbitrary: w tab)
  case (Cons c cs)
  obtain w1 tab1 where c: "run_lease_call Q c (w, tab) = (w1, tab1)" by fastforce
  with Cons.prems have "lease_calls Q cs (w1, tab1) = (w', tab')" "not_redelivered Q qid cs (w1, tab1)" by (simp_all add: lease_calls_def)
  from Cons.IH [OF this] call_table [OF c, of qid] c Cons.prems(2) show ?case by auto
qed (simp add: lease_calls_def)

lemma untouched_not_redelivered: "untouched Q qid cs s \<Longrightarrow> not_redelivered Q qid cs s"
  by (induction cs arbitrary: s) (auto simp: redelivers_def)

lemma settled_with_its_handle:
  assumes "dequeue_with_lease Q d s0 = (Inr (Some (qid, p, tok)), s1)"
    and "untouched Q qid cs s1" "lease_calls Q cs s1 = (w2, tab2)"
    and "ack_item Q qid (w2, tab2) = (r, (w3, tab3))"
    and "not_redelivered Q qid cs' (w3, tab3)" "lease_calls Q cs' (w3, tab3) = (w4, tab4)"
  shows "(\<exists>h. handle_of tok h \<and> sent w3 = sent w2 @ [ack_request h])
    \<and> (\<exists>e. ack_item Q qid (w4, tab4) = (Inl e, (w4, tab4)) \<and> \<not> retryable e)"
proof -
  obtain w0 tab0 w1 tab1 where s: "s0 = (w0, tab0)" "s1 = (w1, tab1)" by (metis prod.collapse)
  from dequeue_registers assms(1) s obtain h where h: "handle_of tok h" "tab1 qid = Some h" by fastforce
  with calls_table [of cs w1 tab1 w2 tab2 qid] untouched_not_redelivered assms(2,3) s have "tab2 qid = Some h" by auto
  from ack_takes [where tab = tab2 and qid = qid, OF this assms(4)] have ack: "tab3 = tab2(qid := None)" "sent w3 = sent w2 @ [ack_request h]" by auto
  with calls_table [OF assms(6,5)] have "tab4 qid = None" by auto
  from settle_refuses [of tab4 qid w4] this h(1) ack(2) show ?thesis by auto
qed

end

section \<open>Both queues keep it\<close>

lemma request_sent: "map_errS f (request send q) w = (r, w') \<Longrightarrow> map fst (requests w') = map fst (requests w) @ [q]"
  by (auto dest: request_log)

lemma take_inflight_eq:
  "take_inflight dbg op qid (w, tab) = (case tab qid of None \<Rightarrow> (Inl (not_in_flight dbg op qid), (w, tab)) | Some h \<Rightarrow> (Inr h, (w, tab(qid := None))))"
  by (auto simp: take_inflight_def on_sink_def split: option.splits)

lemma not_in_flight_final: "\<not> retryable (not_in_flight dbg op qid)"
  by (simp add: not_in_flight_def)

lemma sqs_call_table: "sqs_call Q q (w, tab) = (r, (w', tab')) \<Longrightarrow> tab' = tab \<and> map fst (requests w') = map fst (requests w) @ [q]"
  by (auto simp: sqs_call_def on_store_eq dest: request_sent)

lemma ps_call_table: "ps_call P q (w, tab) = (r, (w', tab')) \<Longrightarrow> tab' = tab \<and> map fst (requests w') = map fst (requests w) @ [q]"
  by (auto simp: ps_call_def on_store_eq dest: request_sent)

lemma bindS_fst_table:
  assumes "bindS m (\<lambda>a. returnS (f a)) s = (r, s')"
  shows "\<exists>r0. m s = (r0, s')"
  using assms by (cases rule: bindS_cases) auto

lemma pull_one_keeps:
  assumes "pull_one P n (w, tab) = (r, (w', tab'))" "\<And>x. r \<noteq> Inr (Some x)"
  shows "tab' = tab"
proof -
  from assms(1) have "bindS (on_store (map_errS map_pubsub_error (request (ps_pull P) Pull))) (\<lambda>msgs.
     if msgs = [] then returnS None
     else let msg = last msgs in
       bindS (if n \<noteq> default_ack_deadline P then ps_call P (ModifyAckDeadline (ack_handle msg) n) else returnS ()) (\<lambda>_.
       let qid = from_message_id_string (ps_hash P) (ps_message_id msg) in
       bindS (register_inflight qid msg) (\<lambda>_.
       returnS (Some (qid, ps_data msg, LeaseToken (as_bytes (ack_handle msg))))))) (w, tab) = (r, (w', tab'))"
    by (simp add: pull_one_def)
  then show ?thesis
  proof (cases rule: bindS_cases)
    case (2 msgs s1)
    obtain w1 where s1: "s1 = (w1, tab)" using 2(1) by (cases s1) (simp add: on_store_eq)
    show ?thesis
    proof (cases "msgs = []")
      case False
      let ?m = "if n \<noteq> default_ack_deadline P then ps_call P (ModifyAckDeadline (ack_handle (last msgs)) n) else returnS ()"
      have keep: "t = tab" if "?m (w1, tab) = (a, (v, t))" for a v t using that by (auto split: if_splits dest: ps_call_table)
      obtain a v t where m: "?m (w1, tab) = (a, (v, t))" by (metis prod_cases3)
      with 2(2) False s1 keep [OF m] assms(2) show ?thesis
        by (cases a) (auto simp: bindS_def Let_def register_inflight_def on_sink_def split: if_splits)
    qed (use 2(2) s1 in simp)
  qed (simp add: on_store_eq)
qed

definition decoded_receipt :: "'c sqs_queue \<Rightarrow> lease_token \<Rightarrow> string \<Rightarrow> bool" where
  "decoded_receipt Q tok h \<longleftrightarrow> (case tok of LeaseToken b \<Rightarrow> h = (case from_utf8 (utf8_error Q) b of Inl _ \<Rightarrow> [] | Inr s \<Rightarrow> s))"

interpretation sqs: leased_queue "sqs_ops Q" "\<lambda>w. map fst (requests w)" DeleteMessage "\<lambda>h. ChangeVisibility h 0" "decoded_receipt Q"
  for Q :: "'c sqs_queue"
proof (unfold_locales, goal_cases)
  case (1 p w tab re w' tab')
  then have "bindS (sqs_call Q (SendMessage (b64_encode Q p))) (\<lambda>mid.
     bindS (liftE (required ''SendMessage missing message_id'' mid)) (\<lambda>mid.
     returnS (from_message_id_string (sqs_hash Q) mid))) (w, tab) = (re, (w', tab'))" by (simp add: sqs_ops_def sqs_enqueue_def)
  then show ?case
  proof (cases rule: bindS_cases)
    case (2 a s1)
    obtain w1 t1 where s1: "s1 = (w1, t1)" by fastforce
    from 2(2) s1 have "(w', tab') = (w1, t1)" by (cases "required ''SendMessage missing message_id'' a") (auto simp: bindS_def)
    with sqs_call_table 2(1) s1 show ?thesis by blast
  qed (use sqs_call_table in blast)
next
  case (2 qid tok d w tab r w' tab')
  then show ?case
    by (cases tok; cases "from_utf8 (utf8_error Q) (case tok of LeaseToken b \<Rightarrow> b)")
       (auto simp: sqs_ops_def sqs_extend_lease_def bindS_def on_store_def split: prod.splits sum.splits)
next
  case (3 d w tab qid p tok w' tab')
  then show ?case
    by (auto simp: sqs_ops_def sqs_dequeue_with_lease_def sqs_dequeue_internal_def comp_iff Let_def on_store_eq sqs_register_def
        register_inflight_def on_sink_eq decoded_receipt_def neq_Nil_conv split: list.splits option.splits)
next
  case (4 d w tab rd w' tab')
  then show ?case
    by (auto simp: sqs_ops_def sqs_dequeue_with_lease_def sqs_dequeue_internal_def bindS_def Let_def on_store_def sqs_register_def
        register_inflight_def on_sink_def split: prod.splits sum.splits list.splits option.splits lease_token.splits)
next
  case (5 tab qid h w r w' tab')
  then have "bindS (sqs_call Q (DeleteMessage h)) (\<lambda>_. returnS ()) (w, tab(qid := None)) = (r, (w', tab'))"
    by (simp add: sqs_ops_def sqs_ack_def take_inflight_eq bindS_run)
  from bindS_fst_table [OF this] show ?case using sqs_call_table by blast
next
  case (6 tab qid h w r w' tab')
  then have "bindS (sqs_call Q (ChangeVisibility h 0)) (\<lambda>_. returnS ()) (w, tab(qid := None)) = (r, (w', tab'))"
    by (simp add: sqs_ops_def sqs_nack_def take_inflight_eq bindS_run)
  from bindS_fst_table [OF this] show ?case using sqs_call_table by blast
next
  case (7 tab qid w)
  then show ?case
    by (simp add: sqs_ops_def sqs_ack_def sqs_nack_def take_inflight_eq bindS_run not_in_flight_final)
qed

interpretation pubsub: leased_queue "pubsub_ops P" "\<lambda>w. map fst (requests w)" "\<lambda>m. Acknowledge (ack_handle m)"
    "\<lambda>m. ModifyAckDeadline (ack_handle m) 0" "\<lambda>tok m. tok = LeaseToken (as_bytes (ack_handle m))"
  for P :: "'c pubsub_queue"
proof (unfold_locales, goal_cases)
  case (1 p w tab re w' tab')
  then have "bindS (on_store (map_errS map_pubsub_error (request (ps_publish P) (Publish p)))) (\<lambda>mid.
     returnS (from_message_id_string (ps_hash P) mid)) (w, tab) = (re, (w', tab'))" by (simp add: pubsub_ops_def ps_enqueue_def)
  from bindS_fst_table [OF this] show ?case by (auto simp: on_store_eq)
next
  case (2 qid tok d w tab r w' tab')
  then show ?case
    by (cases "tab qid") (auto simp: pubsub_ops_def ps_extend_lease_def bindS_def on_sink_def split: if_splits dest: ps_call_table)
next
  case (3 d w tab qid p tok w' tab')
  then show ?case
    by (auto simp: pubsub_ops_def ps_dequeue_with_lease_def pull_one_def comp_iff Let_def on_store_eq register_inflight_def on_sink_eq
        split: if_splits dest!: ps_call_table)
next
  case (4 d w tab rd w' tab')
  then have "pull_one P (lease_seconds d (default_ack_deadline P)) (w, tab) = (rd, (w', tab'))"
    by (simp add: pubsub_ops_def ps_dequeue_with_lease_def)
  with 4(2) show ?case using pull_one_keeps by blast
next
  case (5 tab qid h w r w' tab')
  then have "ps_call P (Acknowledge (ack_handle h)) (w, tab(qid := None)) = (r, (w', tab'))"
    by (simp add: pubsub_ops_def ps_ack_def take_inflight_eq bindS_run)
  with ps_call_table show ?case by blast
next
  case (6 tab qid h w r w' tab')
  then have "ps_call P (ModifyAckDeadline (ack_handle h) 0) (w, tab(qid := None)) = (r, (w', tab'))"
    by (simp add: pubsub_ops_def ps_nack_def take_inflight_eq bindS_run)
  with ps_call_table show ?case by blast
next
  case (7 tab qid w)
  then show ?case
    by (simp add: pubsub_ops_def ps_ack_def ps_nack_def take_inflight_eq bindS_run not_in_flight_final)
qed

section \<open>Settling an item\<close>


text \<open>
  C40. The same for Pub/Sub: an acknowledgement sends one \<open>Acknowledge\<close> for the handle that the
  lease token of the pull names, whatever happened to other items, and a second one is refused without
  a request until the item is delivered again.
\<close>

theorem pubsub_settles_with_latest_handle:
  assumes "ps_dequeue_with_lease P d s0 = (Inr (Some (qid, p, tok)), s1)"
    and "untouched (pubsub_ops P) qid cs s1" "lease_calls (pubsub_ops P) cs s1 = (w2, tab2)"
    and "ps_ack P qid (w2, tab2) = (r, (w3, tab3))"
    and "not_redelivered (pubsub_ops P) qid cs' (w3, tab3)" "lease_calls (pubsub_ops P) cs' (w3, tab3) = (w4, tab4)"
  shows "(\<exists>h. tok = LeaseToken (as_bytes h) \<and> map fst (requests w3) = map fst (requests w2) @ [Acknowledge h])
    \<and> (\<exists>e. ps_ack P qid (w4, tab4) = (Inl e, (w4, tab4)) \<and> \<not> retryable e)"
  using pubsub.settled_with_its_handle [of P d s0 qid p tok s1 cs w2 tab2 r w3 tab3 cs' w4 tab4] assms
  by (auto simp: pubsub_ops_def)

text \<open>
  The receipt leaves the table before the request is sent: when the service fails, even with an error
  that may be retried, the item can no longer be acknowledged.
\<close>

lemma sqs_failed_ack_cannot_be_retried:
  assumes "sqs_ack Q qid (w, tab) = (Inl e, (w', tab'))" "tab qid = Some h"
  shows "sqs_ack Q qid (w', tab') = (Inl (not_in_flight (sqs_debug Q) ''ack'' qid), (w', tab'))"
proof -
  from sqs.ack_takes [where Q = Q and tab = tab and qid = qid, OF assms(2)] assms(1) have "tab' = tab(qid := None)"
    by (auto simp: sqs_ops_def)
  then show ?thesis by (simp add: sqs_ack_def take_inflight_eq bindS_run)
qed

section \<open>Witnesses\<close>

text \<open>Services that deliver one message and accept everything.\<close>

definition sqs_demo :: "unit sqs_queue" where
  "sqs_demo = \<lparr>sqs_send = (\<lambda>q c. (Inr (Some ''m''), c)),
     sqs_receive = (\<lambda>q c. (Inr (Some [\<lparr>msg_receipt = Some ''r1'', msg_id = Some ''m'', msg_body = Some ''b''\<rparr>]), c)),
     default_visibility = 30, b64_encode = (\<lambda>b. []), b64_decode = (\<lambda>s. Inr [7]), sqs_hash = (\<lambda>b. [1]), sqs_debug = (\<lambda>q. []),
     utf8_error = (\<lambda>b. [])\<rparr>"

definition pubsub_demo :: "unit pubsub_queue" where
  "pubsub_demo = \<lparr>ps_publish = (\<lambda>q c. (Inr ''m'', c)),
     ps_pull = (\<lambda>q c. (Inr [\<lparr>ack_handle = ''r1'', ps_message_id = ''m'', ps_data = [7]\<rparr>], c)),
     ps_send = (\<lambda>q c. (Inr (), c)), default_ack_deadline = 30, ps_hash = (\<lambda>b. [1]), ps_debug = (\<lambda>q. [])\<rparr>"


theorem pubsub_settles_with_latest_handle_witness:
  "\<exists>w w' e. ps_ack pubsub_demo (from_message_id_string (ps_hash pubsub_demo) ''m'') w = (Inr (), w')
    \<and> ps_ack pubsub_demo (from_message_id_string (ps_hash pubsub_demo) ''m'') w' = (Inl e, w') \<and> \<not> retryable e"
proof -
  let ?qid = "from_message_id_string (ps_hash pubsub_demo) ''m''"
  obtain w1 t1 where deq: "ps_dequeue_with_lease pubsub_demo 0 (\<lparr>client = (), requests = []\<rparr>, Map.empty)
      = (Inr (Some (?qid, [7], LeaseToken (as_bytes ''r1''))), (w1, t1))" and t1: "t1 ?qid \<noteq> None"
    by (simp add: ps_dequeue_with_lease_def pull_one_def pubsub_demo_def register_inflight_def on_sink_def on_store_def ps_call_def
        map_errS_def request_def bindS_def Let_def lease_seconds_def)
  obtain w3 t3 where ack: "ps_ack pubsub_demo ?qid (w1, t1) = (Inr (), (w3, t3))"
    using t1 by (auto simp: ps_ack_def take_inflight_eq bindS_run ps_call_def on_store_def map_errS_def request_def pubsub_demo_def)
  from pubsub_settles_with_latest_handle [OF deq, of "[]" w1 t1 "Inr ()" w3 t3 "[]" w3 t3] ack
  obtain e where "ps_ack pubsub_demo ?qid (w3, t3) = (Inl e, (w3, t3))" "\<not> retryable e" by (auto simp: lease_calls_def)
  with ack show ?thesis by (intro exI [of _ "(w1, t1)"] exI [of _ "(w3, t3)"] exI [of _ e]) simp
qed

end
