(* ===== verification/Spec2Isabelle.thy ===== *)
theory Spec2Isabelle
  imports Ledger Coordinator Batch Tool_Harness Postgres_Concurrency Postgres_Watch Snapshots Eval_Harness Cloud_Queue
begin

text \<open>
  This library models the core of \<open>rollout\<close>, a Rust system for distributed training, inference and
  evaluation of language models, and proves what its parts promise each other. Every definition is a
  translation of code under \<open>src/crates\<close>, named after it where the name is free.

  \<^bold>\<open>The program.\<close> A coordinator owns a run: it holds a lease with an epoch in a metadata store, registers
  workers, reads their heartbeats, hands out and steals work, and is fenced off when a newer
  coordinator takes the lease. Metadata lives behind one storage trait with two backends, redb for a single
  process and Postgres for several. Blobs live in a content-addressed object store, and work items travel
  through a local queue whose unacknowledged items survive a crash. On these run resumable batch
  inference, snapshots of training state, an evaluation harness, and a tool harness that executes
  untrusted programs in a sandbox and fetches URLs behind an address filter.

  \<^bold>\<open>Foundations.\<close>
  \<^item> \<open>Prelude\<close>: machine integers as words, byte strings, \<open>Result\<close> as a sum whose left side is an error
    or a panic (\<open>res\<close>), effects as explicit state passing (\<open>io\<close> with \<open>bindS\<close>, \<open>returnS\<close>, \<open>failS\<close>), checked
    arithmetic, and the collection \<open>comp_iff\<close> of inversion rules that carries the component proofs.
  \<^item> \<open>Core_Types\<close>: \<open>rollout-core\<close>'s errors, identifiers, storage keys, lease record, worker states and
    events; the text form of a content id parses back.

  \<^bold>\<open>Storage\<close> (\<open>rollout-core/src/traits/storage.rs\<close>, \<open>rollout-storage\<close>).
  \<^item> \<open>Storage_Spec\<close>: the contract, a locale \<open>storage\<close> over the operations of the trait: a finite map, a
    transaction that buffers and commits as a whole. The clients' lemmas are proved once inside it.
  \<^item> \<open>Storage_Embedded\<close>: tables, key encoding, reads, scans, the write transaction and the watch router of the redb
    backend; \<open>redb\<close> interprets the contract. A transaction is all or nothing, watchers see exactly what was
    committed, scans return exactly the rows below a prefix.
  \<^item> \<open>Storage_Postgres\<close>, \<open>Postgres_Concurrency\<close>, \<open>Postgres_Watch\<close>: the statements of the Postgres backend on
    its table; \<open>pg\<close> interprets the same contract for a transaction that nothing overlaps. Interleaved
    compare-and-set transactions on a present row are serial in the order of their commits, and on an absent
    row they are not. The notification of the trigger parses back to the changed key.

  \<^bold>\<open>Coordination\<close> (\<open>rollout-coordinator\<close>, \<open>rollout-transport\<close>).
  \<^item> \<open>Lease\<close>: acquire, steal and renew, the epoch row, the worker's epoch guard, the fence. Under any
    interleaving an epoch has one holder, and a deposed coordinator cannot renew.
  \<^item> \<open>Work_Item\<close>: claim, complete, return and steal of a work item as compare-and-set transactions; of any
    interleaving at most one completion wins.
  \<^item> \<open>Ledger\<close>: the dispatch queue, the backlog, the steal planner and the replay of the ledger.
  \<^item> \<open>Transport\<close>: timing configuration and its checks, the failure detector, the control channel.
  \<^item> \<open>Coordinator\<close>: registry, heartbeats, failure scan, lease renewal and the drain of a preempted worker.

  \<^bold>\<open>Local services\<close> (\<open>rollout-cloud-local\<close>).
  \<^item> \<open>Local_Queue\<close>: locale \<open>work_queue\<close>, interpreted by the local queue over the redb store (\<open>inmem\<close>); a restart
    replays exactly what was not acknowledged.
  \<^item> \<open>Object_Store\<close>: locale \<open>object_store\<close>, interpreted by the blob directory (\<open>fs_store\<close>); blobs are
    authentic and never change.

  \<^bold>\<open>Cloud backends\<close> (\<open>rollout-cloud-aws\<close>, \<open>rollout-cloud-gcp\<close>).
  \<^item> \<open>Cloud_Errors\<close>: how SDK errors become errors of the core and which of them are retried.
  \<^item> \<open>Cloud_Upload\<close>: the object stores over S3 and GCS as sequences of logged requests. A streamed upload sends
    exactly the bytes of the stream, stores them under their hash and leaves no multipart upload open.
  \<^item> \<open>Cloud_Queue\<close>: the queues over SQS and Pub/Sub with their tables of items in flight. The locale \<open>leased_queue\<close>
    is what such a table promises, interpreted by both (\<open>sqs\<close>, \<open>pubsub\<close>): an item is settled once, with
    the handle of its latest delivery.

  \<^bold>\<open>Batch inference\<close> (\<open>rollout-runtime-batch\<close>).
  \<^item> \<open>Utf8\<close>, \<open>Batch_State\<close>, \<open>Batch\<close>: the sample state machine, planning and replay, the worker loop. The locale
    \<open>batch_runtime\<close> puts storage, object store and queue together and is interpreted by the local services
    (\<open>local_batch\<close>). A sample is settled once, and a resumed run settles every input.

  \<^bold>\<open>Snapshots\<close> (\<open>rollout-snapshots\<close>).
  \<^item> \<open>Snapshot_Tar\<close>, \<open>Snapshots\<close>: the archive, save, restore, lookup, listing and pruning. The locale
    \<open>meta_and_blobs\<close> extends \<open>storage\<close> and \<open>object_store\<close>; \<open>redb_fs\<close> and \<open>pg_fs\<close> interpret it. The archive
    depends on the contents of the directory only, a saved snapshot can be restored, pruning deletes exactly what the policy
    gives up.

  \<^bold>\<open>Evaluation\<close> (\<open>rollout-harness-eval\<close>).
  \<^item> \<open>Eval_Suites\<close>, \<open>Eval_Harness\<close>: the scorers of MMLU, GSM8K and IFEval, the fixture loader, an example as a work
    item, the run and its report, all over \<open>meta_and_blobs\<close>.

  \<^bold>\<open>Tools\<close> (\<open>rollout-harness-tool\<close>).
  \<^item> \<open>Http_Filter\<close>, \<open>Http_Client\<close>, \<open>Sandbox\<close>, \<open>Tool_Harness\<close>: the refused address ranges, the client that dials only
    the addresses it checked, the steps between fork and exec, and the dispatch of a batch of calls. Every executed program ran
    behind the limits, landlock and the seccomp filter; every dialled address is permitted.

  \<^bold>\<open>This theory\<close> holds what spans components: the drain of \<open>Coordinator\<close> against the snapshotter of
  \<open>Snapshots\<close>.

  \<^bold>\<open>Parameters.\<close> What is not in the repository is an argument: the redb and Postgres engines where they can
  fail, postcard and JSON (a \<open>codec\<close>, of which theorems assume at most that decoding inverts encoding), blake3 (a
  function; no theorem assumes it injective where collisions matter without saying so), the tar and
  parquet crates, the network, the kernel, clocks and fresh identifiers. Each theorem with such a hypothesis
  has a witness with the parameter instantiated.

  \<^bold>\<open>Loops and bounds.\<close> Loops over data are structural recursion. The batch worker loop and the wait of the
  sandbox take fuel, and the theorems \<open>run_loop_terminates\<close> and \<open>exec_wait_bounded\<close> give a fuel that is enough.
  Interleavings of processes are inductive traces, one transaction or statement per step, and the
  invariants over them hold for traces of every length.

  \<^bold>\<open>Not modelled.\<close> The secret managers and instance metadata of the clouds, the command line, the plugin host, the vLLM backend, the training
  algorithms and the gRPC and TLS layers: their work is done by SDKs, foreign processes or generated code, and
  what remains in the repository is the translation of arguments and errors. Async scheduling below the granularity of
  a storage transaction, logging and metrics are left out as well.
\<close>

section \<open>A drain and the snapshotter\<close>

text \<open>A step that always fails is never completed by a drain.\<close>

lemma drain_run_refused:
  assumes "drain_run (logged X) cfg n as (steps, w) = (r, (steps', w'))" "\<And>w. isl (fst (perform X b w))"
  shows "\<exists>completed. steps' = steps @ completed \<and> b \<notin> set completed"
  using assms(1)
proof (induction as arbitrary: n steps w)
  case (Cons a as)
  obtain r1 w1 where p: "perform X a w = (r1, w1)" by (metis prod.collapse)
  show ?case
  proof (cases "interrupted X n \<or> isl r1")
    case True
    with Cons.prems p show ?thesis
      by (auto simp: logged_def bindS_def isl_def split: if_splits)
  next
    case False
    then obtain u where u: "r1 = Inr u" "\<not> interrupted X n" by (cases r1) auto
    with Cons.prems p have "drain_run (logged X) cfg (Suc n) as (steps @ [a], w1) = (r, (steps', w'))"
      by (simp add: logged_def bindS_def)
    from Cons.IH [OF this] obtain completed where "steps' = steps @ a # completed" "b \<notin> set completed" by auto
    moreover have "a \<noteq> b" using assms(2) [of w] p u by auto
    ultimately show ?thesis by (intro exI [of _ "a # completed"]) auto
  qed
qed simp

lemma drain_refused:
  assumes "drain (logged X) cfg items plan (stopped, ([], w)) = (r, (stopped', (steps, w')))" "\<And>w. isl (fst (perform X b w))"
  shows "prefix steps (drain_actions items plan) \<and> (r = Inr () \<longrightarrow> steps = drain_actions items plan) \<and> b \<notin> set steps"
proof (cases "signal X w")
  case (Pair r0 w0)
  show ?thesis
  proof (cases r0)
    case (Inl e)
    with Pair assms(1) show ?thesis by (auto simp: drain_def logged_def)
  next
    case (Inr u)
    obtain r1 steps1 w1 where run: "drain_run (logged X) cfg 0 (drain_actions items plan) ([], w0) = (r1, (steps1, w1))"
      by (metis prod.collapse)
    have "r = r1" "steps = steps1" using assms(1) Pair Inr run by (auto simp: drain_def logged_def)
    with drain_run_logged [OF run] drain_run_refused [OF run assms(2)] show ?thesis by auto
  qed
qed

text \<open>
  C35. A drain with the shipped snapshotter never deregisters the worker. When a snapshot is due and fits the
  budget, the drain asks the snapshotter to save training state; \<open>SnapshotterImpl::save\<close> refuses that kind, so the
  drain ends with an error, whatever the other steps answer and wherever the deadline interrupts it, and the step that deregisters
  the worker is never completed.
\<close>

theorem drain_with_snapshotter_never_deregisters:
  assumes "has_snapshotter plan" "snapshot_cost plan \<le> remaining_budget plan"
    and "\<forall>req w. perform X (Save req) w = (map_sum (\<lambda>e. e) (\<lambda>_. ()) (save req), w)"
    and "drain (logged X) cfg items plan (stopped, ([], w)) = (r, (stopped', (steps, w')))"
  shows "r \<noteq> Inr () \<and> Deregister \<notin> set steps"
proof -
  let ?save = "\<lparr>sr_run = sp_run plan, sr_algorithm = sp_algorithm plan, sr_kind = TrainState,
    sr_label = Some ''spot-drain'', sr_meta = JNull\<rparr>"
  have acts: "drain_actions items plan = map Nack items @ [Save ?save, Deregister]"
    using assms(1,2) by (simp add: drain_actions_def)
  have "isl (fst (perform X (Save ?save) w))" for w
    using assms(3) by (simp add: save_def)
  from drain_refused [OF assms(4) this] obtain rest where steps: "steps @ rest = map Nack items @ [Save ?save, Deregister]"
      "Save ?save \<notin> set steps" "r = Inr () \<longrightarrow> steps = map Nack items @ [Save ?save, Deregister]"
    by (auto simp: acts prefix_def)
  from steps(1,2) have "prefix steps (map Nack items)"
    by (auto simp: append_eq_append_conv2 append_eq_Cons_conv prefix_def) (metis append.assoc)
  from set_mono_prefix [OF this] have "set steps \<subseteq> range Nack" by auto
  with steps(2,3) show ?thesis by auto
qed

definition shipped_env :: "unit drain_env" where
  "shipped_env = \<lparr>signal = returnS (Some (from_secs 120)),
     perform = (\<lambda>a w. case a of Save req \<Rightarrow> (map_sum (\<lambda>e. e) (\<lambda>_. ()) (save req), w) | _ \<Rightarrow> (Inr (), w)),
     interrupted = (\<lambda>_. False), torn = (\<lambda>_ w. w), show_duration = (\<lambda>_. ''60s'')\<rparr>"

theorem drain_with_snapshotter_never_deregisters_witness:
  "fst (drain (logged shipped_env) drain_config_aws [QueueItemId 1]
     \<lparr>has_snapshotter = True, remaining_budget = from_secs 60, snapshot_cost = from_secs 5, sp_run = RunId 1, sp_algorithm = ''sft''\<rparr>
     (False, ([], ()))) \<noteq> Inr ()"
proof -
  let ?plan = "\<lparr>has_snapshotter = True, remaining_budget = from_secs 60, snapshot_cost = from_secs 5, sp_run = RunId 1, sp_algorithm = ''sft''\<rparr>"
  obtain r stopped' steps w' where run: "drain (logged shipped_env) drain_config_aws [QueueItemId 1] ?plan (False, ([], ())) = (r, (stopped', (steps, w')))"
    by (metis prod.collapse)
  have "r \<noteq> Inr () \<and> Deregister \<notin> set steps"
    by (rule drain_with_snapshotter_never_deregisters [OF _ _ _ run]) (simp_all add: shipped_env_def from_secs_def)
  with run show ?thesis by simp
qed

end
